theory Spec2Isabelle
  imports Complex_Main
begin

section \<open>IEEE-754 binary64 values\<close>

text \<open>
  The C type \<open>double\<close> is modelled by its decoded value. Every finite binary64 number is
  an integer multiple of the smallest subnormal \<open>2^-1074\<close>, so a finite double is a sign
  together with a natural number \<open>k\<close> of such units: \<open>DFin s k\<close> stands for
  \<open>(-1)^s * k * 2^-1074\<close>. The two zeros are \<open>DFin False 0\<close> and \<open>DFin True 0\<close>.
  NaN payloads are not distinguished. Arithmetic is strict binary64 in the default
  rounding mode (round to nearest, ties to even), without excess precision or contraction.
\<close>

datatype double = DFin bool nat | DInf bool | DNaN

fun bitlen :: "nat \<Rightarrow> nat" where
  "bitlen n = (if n = 0 then 0 else Suc (bitlen (n div 2)))"

declare bitlen.simps [simp del]

text \<open>\<open>rne d n\<close> rounds \<open>n\<close> to the nearest multiple of \<open>2^d\<close>, ties to the even quotient.\<close>

definition rne :: "nat \<Rightarrow> nat \<Rightarrow> nat" where
  "rne d n =
     (let q = n div 2 ^ d; r = n mod 2 ^ d
      in (if 2 * r < 2 ^ d \<or> (2 * r = 2 ^ d \<and> even q) then q else q + 1) * 2 ^ d)"

text \<open>Rounding to 53 significant bits, with the exponent unbounded above.\<close>

definition round53 :: "nat \<Rightarrow> nat" where
  "round53 n = rne (bitlen n - 53) n"

text \<open>
  \<open>round_units sh n\<close> rounds the exact magnitude \<open>n / 2^sh\<close> (in units) to a binary64
  magnitude in units: at least \<open>sh\<close> bits are dropped (the result is a whole number of
  units) and at most 53 bits are kept.
\<close>

definition round_units :: "nat \<Rightarrow> nat \<Rightarrow> nat" where
  "round_units sh n = rne (max sh (bitlen n - 53)) n div 2 ^ sh"

text \<open>\<open>2^2098\<close> units are \<open>2^1024\<close>: a rounded magnitude that reaches it overflows.\<close>

definition mk :: "bool \<Rightarrow> nat \<Rightarrow> nat \<Rightarrow> double" where
  "mk s sh n = (let k = round_units sh n in if 2 ^ 2098 \<le> k then DInf s else DFin s k)"

definition sval :: "bool \<Rightarrow> nat \<Rightarrow> int" where
  "sval s k = (if s then - int k else int k)"

text \<open>
  \<open>of_exact sh i zs\<close> rounds the exact result \<open>i / 2^sh\<close> units; \<open>zs\<close> is the sign given
  to an exact zero.
\<close>

definition of_exact :: "nat \<Rightarrow> int \<Rightarrow> bool \<Rightarrow> double" where
  "of_exact sh i zs = (if i = 0 then DFin zs 0 else mk (i < 0) sh (nat \<bar>i\<bar>))"

fun dneg :: "double \<Rightarrow> double" where
  "dneg (DFin s k) = DFin (\<not> s) k"
| "dneg (DInf s) = DInf (\<not> s)"
| "dneg DNaN = DNaN"

fun dadd :: "double \<Rightarrow> double \<Rightarrow> double" where
  "dadd (DFin s m) (DFin t n) = of_exact 0 (sval s m + sval t n) (s \<and> t)"
| "dadd (DFin s m) (DInf t) = DInf t"
| "dadd (DInf s) (DFin t n) = DInf s"
| "dadd (DInf s) (DInf t) = (if s = t then DInf s else DNaN)"
| "dadd DNaN b = DNaN"
| "dadd a DNaN = DNaN"

definition dsub :: "double \<Rightarrow> double \<Rightarrow> double" where
  "dsub a b = dadd a (dneg b)"

fun dmul :: "double \<Rightarrow> double \<Rightarrow> double" where
  "dmul (DFin s m) (DFin t n) = of_exact 1074 (sval (s \<noteq> t) (m * n)) (s \<noteq> t)"
| "dmul (DFin s m) (DInf t) = (if m = 0 then DNaN else DInf (s \<noteq> t))"
| "dmul (DInf s) (DFin t n) = (if n = 0 then DNaN else DInf (s \<noteq> t))"
| "dmul (DInf s) (DInf t) = DInf (s \<noteq> t)"
| "dmul DNaN b = DNaN"
| "dmul a DNaN = DNaN"

text \<open>\<open>fma(a, b, c)\<close>: the exact \<open>a * b + c\<close>, rounded once.\<close>

fun fma :: "double \<Rightarrow> double \<Rightarrow> double \<Rightarrow> double" where
  "fma (DFin s m) (DFin t n) (DFin u k) =
     of_exact 1074 (sval (s \<noteq> t) (m * n) + sval u k * 2 ^ 1074)
       (m * n = 0 \<and> (s \<noteq> t) \<and> u)"
| "fma (DFin s m) (DFin t n) (DInf u) = DInf u"
| "fma (DFin s m) (DFin t n) DNaN = DNaN"
| "fma a b c = dadd (dmul a b) c"

section \<open>The double-double core\<close>

record dd_real =
  hi :: double
  lo :: double

text \<open>The literals \<open>0.0\<close> and \<open>134217729.0\<close> (\<open>2^27 + 1\<close>).\<close>

definition d_zero :: double where
  "d_zero = DFin False 0"

definition SPLIT_CONST :: double where
  "SPLIT_CONST = DFin False ((2 ^ 27 + 1) * 2 ^ 1074)"

definition split_double :: "double \<Rightarrow> double \<times> double" where
  "split_double a =
     (let temp = dmul SPLIT_CONST a;
          h = dsub temp (dsub temp a);
          l = dsub a h
      in (h, l))"

definition two_sum :: "double \<Rightarrow> double \<Rightarrow> dd_real" where
  "two_sum a b =
     (let s = dadd a b;
          v = dsub s a;
          err = dadd (dsub a (dsub s v)) (dsub b v)
      in \<lparr>hi = s, lo = err\<rparr>)"

definition quick_two_sum :: "double \<Rightarrow> double \<Rightarrow> dd_real" where
  "quick_two_sum a b =
     (let s = dadd a b;
          err = dsub b (dsub s a)
      in \<lparr>hi = s, lo = err\<rparr>)"

text \<open>\<open>two_prod\<close> of float128_benchmark.c (operand splitting).\<close>

definition two_prod :: "double \<Rightarrow> double \<Rightarrow> dd_real" where
  "two_prod a b =
     (let p = dmul a b;
          (a_hi, a_lo) = split_double a;
          (b_hi, b_lo) = split_double b;
          err = dadd (dadd (dadd (dsub (dmul a_hi b_hi) p) (dmul a_hi b_lo)) (dmul a_lo b_hi))
                  (dmul a_lo b_lo)
      in \<lparr>hi = p, lo = err\<rparr>)"

text \<open>\<open>two_prod\<close> of float128_bitcompare.c (fused multiply-add).\<close>

definition two_prod_fma :: "double \<Rightarrow> double \<Rightarrow> dd_real" where
  "two_prod_fma a b =
     (let p = dmul a b;
          e = fma a b (dneg p)
      in \<lparr>hi = p, lo = e\<rparr>)"

definition dd_add :: "dd_real \<Rightarrow> dd_real \<Rightarrow> dd_real" where
  "dd_add a b =
     (let s = two_sum (hi a) (hi b);
          lo_sum = dadd (dadd (lo a) (lo b)) (lo s)
      in quick_two_sum (hi s) lo_sum)"

definition dd_add_d :: "dd_real \<Rightarrow> double \<Rightarrow> dd_real" where
  "dd_add_d a b =
     (let s = two_sum (hi a) b;
          lo_sum = dadd (lo a) (lo s)
      in quick_two_sum (hi s) lo_sum)"

definition dd_mul_d :: "dd_real \<Rightarrow> double \<Rightarrow> dd_real" where
  "dd_mul_d a b =
     (let p = two_prod (hi a) b;
          lo_term = dadd (dmul (lo a) b) (lo p)
      in quick_two_sum (hi p) lo_term)"

definition dd_mul :: "dd_real \<Rightarrow> dd_real \<Rightarrow> dd_real" where
  "dd_mul a b =
     (let p = two_prod (hi a) (hi b);
          result = p;
          t1 = two_prod (hi a) (lo b);
          result = dd_add result t1;
          t2 = two_prod (lo a) (hi b);
          result = dd_add result t2;
          t3 = two_prod (lo a) (lo b);
          result = dd_add result t3
      in result)"

text \<open>\<open>dd_mul\<close> of float128_bitcompare.c, on the FMA-based \<open>two_prod\<close>.\<close>

definition dd_mul_fma :: "dd_real \<Rightarrow> dd_real \<Rightarrow> dd_real" where
  "dd_mul_fma a b =
     (let p = two_prod_fma (hi a) (hi b);
          plo = dadd (lo p) (dadd (dmul (hi a) (lo b)) (dmul (lo a) (hi b)))
      in quick_two_sum (hi p) plo)"

definition dd_to_double :: "dd_real \<Rightarrow> double" where
  "dd_to_double a = dadd (hi a) (lo a)"

definition dd_from_double :: "double \<Rightarrow> dd_real" where
  "dd_from_double x = \<lparr>hi = x, lo = d_zero\<rparr>"


section \<open>Notions used to state the properties\<close>

text \<open>
  A magnitude (in units) has at most 53 significant bits when it is a multiple of
  \<open>2^(bitlen n - 53)\<close>; it is a binary64 magnitude when moreover it is below \<open>2^1024\<close>.
\<close>

definition fp53 :: "nat \<Rightarrow> bool" where
  "fp53 n \<longleftrightarrow> 2 ^ (bitlen n - 53) dvd n"

definition representable :: "nat \<Rightarrow> bool" where
  "representable k \<longleftrightarrow> fp53 k \<and> k < 2 ^ 2098"

text \<open>A well-formed finite double; a well-formed double.\<close>

fun finite64 :: "double \<Rightarrow> bool" where
  "finite64 (DFin s k) = representable k"
| "finite64 (DInf s) = False"
| "finite64 DNaN = False"

fun is_double :: "double \<Rightarrow> bool" where
  "is_double (DFin s k) = representable k"
| "is_double (DInf s) = True"
| "is_double DNaN = True"

text \<open>The exact value of a finite double, in units of \<open>2^-1074\<close> and as a real number.\<close>

fun units :: "double \<Rightarrow> int" where
  "units (DFin s k) = sval s k"
| "units (DInf s) = 0"
| "units DNaN = 0"

definition valof :: "double \<Rightarrow> real" where
  "valof x = real_of_int (units x) / 2 ^ 1074"

text \<open>The same notions on signed integers, where the rounding theory is developed.\<close>

definition F53 :: "int \<Rightarrow> bool" where
  "F53 i \<longleftrightarrow> fp53 (nat \<bar>i\<bar>)"

definition rnd53 :: "int \<Rightarrow> int" where
  "rnd53 i = sgn i * int (round53 (nat \<bar>i\<bar>))"

definition ex53 :: "int \<Rightarrow> nat" where
  "ex53 i = bitlen (nat \<bar>i\<bar>) - 53"

text \<open>
  The operand splitting of \<open>split_double\<close> on exact integer values: the same four
  operations, rounded to 53 significant bits with the exponent unbounded.
\<close>

definition split_hi :: "int \<Rightarrow> int" where
  "split_hi x =
     (let temp = rnd53 (134217729 * x)
      in rnd53 (temp - rnd53 (temp - x)))"

definition split_lo :: "int \<Rightarrow> int" where
  "split_lo x = rnd53 (x - split_hi x)"

text \<open>
  The overflow threshold \<open>2^1024\<close> and the spacing \<open>2^971\<close> of the largest doubles, in
  units.
\<close>

definition top_units :: int where
  "top_units = 2 ^ 2098"

definition top_ulp :: int where
  "top_ulp = 2 ^ 2045"

text \<open>
  The unit in the last place of a finite double, in units: the gap to the next double of
  larger magnitude.
\<close>

definition ulp_units :: "double \<Rightarrow> int" where
  "ulp_units x = 2 ^ ex53 (units x)"

text \<open>Some doubles: \<open>-0.0\<close>, \<open>1.0\<close>, \<open>DBL_MAX\<close> and the literal \<open>1e-16\<close>.\<close>

definition neg_zero :: double where
  "neg_zero = DFin True 0"

definition d_one :: double where
  "d_one = DFin False (2 ^ 1074)"

definition DBL_MAX :: double where
  "DBL_MAX = DFin False ((2 ^ 53 - 1) * 2 ^ 2045)"

text \<open>
  Doubles next to the overflow threshold: \<open>-3 * 2^970\<close>, \<open>DBL_MAX - 2^971\<close>, \<open>-2^971\<close> and
  \<open>-2^970\<close>.
\<close>

definition big_a :: double where
  "big_a = DFin True (3 * 2 ^ 2044)"

definition big_s :: double where
  "big_s = DFin False ((2 ^ 53 - 2) * 2 ^ 2045)"



definition lit_1e_16 :: double where
  "lit_1e_16 = DFin False (2028240960365167 * 2 ^ 970)"

text \<open>The sign bit of a double.\<close>

fun sign_of :: "double \<Rightarrow> bool" where
  "sign_of (DFin s k) = s"
| "sign_of (DInf s) = s"
| "sign_of DNaN = False"

text \<open>
  The contract of \<open>two_prod\<close> for a returned pair \<open>r\<close>: the high word is the rounded
  product, the low word is finite, and the two words sum to the exact product.
\<close>

definition exact_product :: "dd_real \<Rightarrow> double \<Rightarrow> double \<Rightarrow> bool" where
  "exact_product r a b \<longleftrightarrow>
     hi r = dmul a b \<and> finite64 (lo r) \<and> valof (hi r) + valof (lo r) = valof a * valof b"

text \<open>
  Operands of products: the smallest subnormal \<open>2^-1074\<close> and \<open>0.5\<close>; the subnormal
  \<open>(2^26 + 1) * 2^-1074\<close> and \<open>0.5 + 2^-53\<close>; \<open>(2^53 - 1) * 2^459\<close>, the double below
  \<open>2^512\<close>; and \<open>1 + 2^-52\<close>.
\<close>

definition denorm_min :: double where
  "denorm_min = DFin False 1"

definition d_half :: double where
  "d_half = DFin False (2 ^ 1073)"

definition small_a :: double where
  "small_a = DFin False (2 ^ 26 + 1)"

definition small_b :: double where
  "small_b = DFin False ((2 ^ 52 + 1) * 2 ^ 1021)"

definition sqrt_big :: double where
  "sqrt_big = DFin False ((2 ^ 53 - 1) * 2 ^ 1533)"

definition one_eps :: double where
  "one_eps = DFin False ((2 ^ 52 + 1) * 2 ^ 1022)"

text \<open>
  A normalized pair: both words finite and \<open>|lo| \<le> ulp(hi) / 2\<close>. For \<open>hi = 0\<close> the unit
  in the last place is the smallest subnormal, so \<open>lo = 0\<close>.
\<close>

definition normalized :: "dd_real \<Rightarrow> bool" where
  "normalized r \<longleftrightarrow>
     finite64 (hi r) \<and> finite64 (lo r) \<and> 2 * \<bar>units (lo r)\<bar> \<le> ulp_units (hi r)"

text \<open>
  A pair whose low word is at most \<open>2^35\<close> units in the last place of its high word. The
  pairs returned by \<open>two_prod\<close> are of this kind also when the product underflows.
\<close>

definition near_normalized :: "dd_real \<Rightarrow> bool" where
  "near_normalized r \<longleftrightarrow>
     finite64 (hi r) \<and> finite64 (lo r) \<and> \<bar>units (lo r)\<bar> \<le> 2 ^ 35 * ulp_units (hi r)"

text \<open>
  No overflow in an addition: the sum of the high words, the intermediate difference of
  \<open>two_sum\<close>, and the high word of the result are finite.
\<close>

definition add_finite :: "dd_real \<Rightarrow> dd_real \<Rightarrow> bool" where
  "add_finite a b \<longleftrightarrow>
     finite64 (dadd (hi a) (hi b)) \<and> finite64 (dsub (dadd (hi a) (hi b)) (hi a)) \<and>
     finite64 (hi (dd_add a b))"

definition add_d_finite :: "dd_real \<Rightarrow> double \<Rightarrow> bool" where
  "add_d_finite a b \<longleftrightarrow>
     finite64 (dadd (hi a) b) \<and> finite64 (dsub (dadd (hi a) b) (hi a)) \<and>
     finite64 (hi (dd_add_d a b))"

text \<open>
  The precondition of the final \<open>quick_two_sum x y\<close>: finite arguments with
  \<open>|y| \<le> |x|\<close>, or \<open>x\<close> an integer multiple of \<open>ulp(y)\<close>, and a sum that does not overflow.
\<close>

definition renorm_ok :: "double \<Rightarrow> double \<Rightarrow> bool" where
  "renorm_ok x y \<longleftrightarrow>
     finite64 x \<and> finite64 y \<and>
     (\<bar>units y\<bar> \<le> \<bar>units x\<bar> \<or> 2 ^ ex53 (units y) dvd units x) \<and>
     finite64 (dadd x y)"

text \<open>
  Pairs: \<open>(0, 2^53 + 2)\<close>, \<open>(1, 0)\<close>, \<open>(1, 2^53 + 2)\<close>, \<open>(-3 * 2^970, 0)\<close>,
  \<open>(DBL_MAX, 0)\<close>, \<open>((2^53 - 1) * 2^459, 0)\<close> and \<open>(1 + 2^-52, 2^-54)\<close>.
\<close>

definition two53p2 :: double where
  "two53p2 = DFin False ((2 ^ 52 + 1) * 2 ^ 1075)"

definition dd_odd :: dd_real where
  "dd_odd = \<lparr>hi = d_zero, lo = two53p2\<rparr>"

definition dd_one :: dd_real where
  "dd_one = \<lparr>hi = d_one, lo = d_zero\<rparr>"

definition dd_one_odd :: dd_real where
  "dd_one_odd = \<lparr>hi = d_one, lo = two53p2\<rparr>"

definition dd_big_a :: dd_real where
  "dd_big_a = \<lparr>hi = big_a, lo = d_zero\<rparr>"

definition dd_max :: dd_real where
  "dd_max = \<lparr>hi = DBL_MAX, lo = d_zero\<rparr>"

definition dd_sqrt_big :: dd_real where
  "dd_sqrt_big = \<lparr>hi = sqrt_big, lo = d_zero\<rparr>"

definition eps_lo :: double where
  "eps_lo = DFin False (2 ^ 1020)"

definition dd_eps :: dd_real where
  "dd_eps = \<lparr>hi = one_eps, lo = eps_lo\<rparr>"

lemma bitlen_0 [simp]: "bitlen 0 = 0"
  by (simp add: bitlen.simps)

lemma bitlen_pos: "n \<noteq> 0 \<Longrightarrow> bitlen n = Suc (bitlen (n div 2))"
  by (simp add: bitlen.simps)

lemma bitlen_less: "n < 2 ^ bitlen n"
proof (induction n rule: bitlen.induct)
  case (1 n)
  show ?case
  proof (cases "n = 0")
    case True
    then show ?thesis by simp
  next
    case False
    then have "n div 2 < 2 ^ bitlen (n div 2)" using 1 by simp
    then have "n < 2 * 2 ^ bitlen (n div 2)" by linarith
    then show ?thesis using False by (simp add: bitlen_pos)
  qed
qed

lemma bitlen_ge: "n \<noteq> 0 \<Longrightarrow> 2 ^ (bitlen n - 1) \<le> n"
proof (induction n rule: bitlen.induct)
  case (1 n)
  show ?case
  proof (cases "n div 2 = 0")
    case True
    then have "bitlen n = 1" using "1.prems" by (simp add: bitlen_pos)
    then show ?thesis using "1.prems" by simp
  next
    case False
    then have ih: "2 ^ (bitlen (n div 2) - 1) \<le> n div 2" using 1 by simp
    have pos: "bitlen (n div 2) \<noteq> 0" using False by (simp add: bitlen_pos)
    have "bitlen n - 1 = Suc (bitlen (n div 2) - 1)"
      using "1.prems" pos by (simp add: bitlen_pos)
    then have "(2::nat) ^ (bitlen n - 1) = 2 * 2 ^ (bitlen (n div 2) - 1)" by simp
    also have "\<dots> \<le> 2 * (n div 2)" using ih by simp
    also have "\<dots> \<le> n" by simp
    finally show ?thesis .
  qed
qed

lemma bitlen_le_iff: "bitlen n \<le> k \<longleftrightarrow> n < 2 ^ k"
proof
  assume "bitlen n \<le> k"
  then have "(2::nat) ^ bitlen n \<le> 2 ^ k" by simp
  then show "n < 2 ^ k" using bitlen_less [of n] by linarith
next
  assume h: "n < 2 ^ k"
  show "bitlen n \<le> k"
  proof (cases "n = 0")
    case True
    then show ?thesis by simp
  next
    case False
    then have "(2::nat) ^ (bitlen n - 1) < 2 ^ k" using bitlen_ge [of n] h by linarith
    then have "bitlen n - 1 < k" by simp
    then show ?thesis by linarith
  qed
qed

lemma bitlen_gt_iff: "k < bitlen n \<longleftrightarrow> 2 ^ k \<le> n"
  using bitlen_le_iff [of n k] by linarith

lemma bitlen_mono: "m \<le> n \<Longrightarrow> bitlen m \<le> bitlen n"
  using bitlen_le_iff [of m "bitlen n"] bitlen_less [of n] by linarith

lemma rne_cases:
  obtains q r where "n = q * 2 ^ d + r" "r < 2 ^ d"
    "(2 * r \<le> 2 ^ d \<and> rne d n = q * 2 ^ d) \<or> (2 ^ d \<le> 2 * r \<and> rne d n = (q + 1) * 2 ^ d)"
proof -
  let ?q = "n div 2 ^ d" and ?r = "n mod 2 ^ d"
  have 1: "n = ?q * 2 ^ d + ?r" by (simp add: div_mult_mod_eq)
  have 2: "?r < 2 ^ d" by simp
  have 3: "(2 * ?r \<le> 2 ^ d \<and> rne d n = ?q * 2 ^ d) \<or> (2 ^ d \<le> 2 * ?r \<and> rne d n = (?q + 1) * 2 ^ d)"
    unfolding rne_def Let_def by (cases "2 * ?r < 2 ^ d") auto
  show thesis using that [OF 1 2 3] .
qed

lemma rne_dvd: "2 ^ d dvd rne d n"
  unfolding rne_def Let_def by simp

lemma rne_id: "2 ^ d dvd n \<Longrightarrow> rne d n = n"
  unfolding rne_def Let_def by (auto simp: mod_eq_0_iff_dvd)

lemma rne_half: "2 * \<bar>int (rne d n) - int n\<bar> \<le> 2 ^ d"
proof -
  obtain q r where h: "n = q * 2 ^ d + r" "r < 2 ^ d"
    "(2 * r \<le> 2 ^ d \<and> rne d n = q * 2 ^ d) \<or> (2 ^ d \<le> 2 * r \<and> rne d n = (q + 1) * 2 ^ d)"
    by (rule rne_cases)
  from h(3) show ?thesis
  proof
    assume a: "2 * r \<le> 2 ^ d \<and> rne d n = q * 2 ^ d"
    then have "int (rne d n) - int n = - int r" using h(1) by simp
    moreover have "2 * int r \<le> 2 ^ d" using a by (metis of_nat_le_iff of_nat_mult of_nat_numeral of_nat_power)
    ultimately show ?thesis by simp
  next
    assume a: "2 ^ d \<le> 2 * r \<and> rne d n = (q + 1) * 2 ^ d"
    then have "int (rne d n) - int n = 2 ^ d - int r" using h(1) by (simp add: algebra_simps)
    moreover have "(2::int) ^ d \<le> 2 * int r" using a by (metis of_nat_le_iff of_nat_mult of_nat_numeral of_nat_power)
    moreover have "int r < 2 ^ d" using h(2) by (metis of_nat_less_iff of_nat_numeral of_nat_power)
    ultimately show ?thesis by simp
  qed
qed

lemma rne_nearest:
  assumes "2 ^ d dvd m"
  shows "\<bar>int (rne d n) - int n\<bar> \<le> \<bar>int m - int n\<bar>"
proof -
  obtain q r where h: "n = q * 2 ^ d + r" "r < 2 ^ d"
    "(2 * r \<le> 2 ^ d \<and> rne d n = q * 2 ^ d) \<or> (2 ^ d \<le> 2 * r \<and> rne d n = (q + 1) * 2 ^ d)"
    by (rule rne_cases)
  obtain j where m: "m = j * 2 ^ d" using assms by (auto simp: dvd_def)
  define P :: int where "P = 2 ^ d"
  define Q :: int where "Q = int q * P"
  have n: "int n = Q + int r" using h(1) by (simp add: Q_def P_def)
  have r: "int r < P" using h(2) unfolding P_def
    by (metis of_nat_less_iff of_nat_numeral of_nat_power)
  have far: "int r \<le> \<bar>int m - int n\<bar> \<or> P - int r \<le> \<bar>int m - int n\<bar>"
  proof (cases "j \<le> q")
    case True
    then have "int j * P \<le> int q * P" unfolding P_def by (simp add: mult_right_mono)
    then have "int m \<le> Q" unfolding m Q_def P_def by simp
    then show ?thesis using n by linarith
  next
    case False
    then have "q + 1 \<le> j" by simp
    then have "int (q + 1) * P \<le> int j * P" unfolding P_def
      by (intro mult_right_mono) (simp_all del: of_nat_add)
    then have "Q + P \<le> int m" unfolding m Q_def P_def by (simp add: algebra_simps)
    then show ?thesis using n r by linarith
  qed
  from h(3) show ?thesis
  proof
    assume a: "2 * r \<le> 2 ^ d \<and> rne d n = q * 2 ^ d"
    then have e: "int (rne d n) = Q" by (simp add: Q_def P_def)
    have "2 * int r \<le> P" using a unfolding P_def
      by (metis of_nat_le_iff of_nat_mult of_nat_numeral of_nat_power)
    then show ?thesis using far e n by linarith
  next
    assume a: "2 ^ d \<le> 2 * r \<and> rne d n = (q + 1) * 2 ^ d"
    then have e: "int (rne d n) = Q + P" by (simp add: Q_def P_def algebra_simps)
    have "P \<le> 2 * int r" using a unfolding P_def
      by (metis of_nat_le_iff of_nat_mult of_nat_numeral of_nat_power)
    then show ?thesis using far e n r by linarith
  qed
qed

lemma rne_grid: "2 ^ k dvd n \<Longrightarrow> 2 ^ k dvd rne d n"
proof (cases "k \<le> d")
  case True
  then have "(2::nat) ^ k dvd 2 ^ d" by (simp add: le_imp_power_dvd)
  then show ?thesis using rne_dvd [of d n] dvd_trans by blast
next
  case False
  assume h: "2 ^ k dvd n"
  from False have "(2::nat) ^ d dvd 2 ^ k" by (simp add: le_imp_power_dvd)
  then have "2 ^ d dvd n" using h dvd_trans by blast
  then show ?thesis using h by (simp add: rne_id)
qed

lemma fp53_small: "n < 2 ^ 53 \<Longrightarrow> fp53 n"
proof -
  assume "n < 2 ^ 53"
  then have "bitlen n \<le> 53" by (simp add: bitlen_le_iff)
  then show ?thesis by (simp add: fp53_def)
qed

lemma fp53_intro:
  assumes "2 ^ k dvd n" "n \<le> 2 ^ (k + 53)"
  shows "fp53 n"
proof (cases "n = 2 ^ (k + 53)")
  case True
  have "bitlen n - 53 \<le> k + 53"
    using bitlen_le_iff [of n "Suc (k + 53)"] True by simp
  then show ?thesis unfolding fp53_def True by (simp add: le_imp_power_dvd)
next
  case False
  then have "n < 2 ^ (k + 53)" using assms(2) by simp
  then have "bitlen n - 53 \<le> k" using bitlen_le_iff [of n "k + 53"] by simp
  then have "(2::nat) ^ (bitlen n - 53) dvd 2 ^ k" by (simp add: le_imp_power_dvd)
  then show ?thesis unfolding fp53_def using assms(1) dvd_trans by blast
qed

lemma fp53_grid:
  assumes "fp53 n" "2 ^ (k + 52) \<le> n"
  shows "2 ^ k dvd n"
proof -
  have "k + 52 < bitlen n" using assms(2) by (simp add: bitlen_gt_iff)
  then have "k \<le> bitlen n - 53" by simp
  then have "(2::nat) ^ k dvd 2 ^ (bitlen n - 53)" by (simp add: le_imp_power_dvd)
  then show ?thesis using assms(1) unfolding fp53_def using dvd_trans by blast
qed

lemma round53_id: "fp53 n \<Longrightarrow> round53 n = n"
  by (simp add: fp53_def round53_def rne_id)

lemma round53_grid: "2 ^ k dvd n \<Longrightarrow> 2 ^ k dvd round53 n"
  by (simp add: round53_def rne_grid)

lemma pow2_fp53: "fp53 (2 ^ k)"
  using fp53_intro [of k "2 ^ k"] by simp

lemma round53_nearest:
  assumes "fp53 m"
  shows "\<bar>int (round53 n) - int n\<bar> \<le> \<bar>int m - int n\<bar>"
proof (cases "2 ^ (bitlen n - 53) dvd m")
  case True
  then show ?thesis unfolding round53_def by (rule rne_nearest)
next
  case False
  have "\<not> bitlen n - 53 \<le> bitlen m - 53"
  proof
    assume "bitlen n - 53 \<le> bitlen m - 53"
    then have "(2::nat) ^ (bitlen n - 53) dvd 2 ^ (bitlen m - 53)" by (simp add: le_imp_power_dvd)
    then show False using assms False unfolding fp53_def using dvd_trans by blast
  qed
  then have lt: "bitlen m < bitlen n" "53 < bitlen n" by simp_all
  have n0: "n \<noteq> 0" using lt(2) by (cases "n = 0") simp_all
  define b where "b = (2::nat) ^ (bitlen n - 1)"
  have "bitlen m \<le> bitlen n - 1" using lt by simp
  then have mb: "m < b" unfolding b_def by (simp add: bitlen_le_iff)
  have bn: "b \<le> n" unfolding b_def using bitlen_ge [OF n0] .
  have "(2::nat) ^ (bitlen n - 53) dvd b" unfolding b_def by (simp add: le_imp_power_dvd)
  then have "\<bar>int (round53 n) - int n\<bar> \<le> \<bar>int b - int n\<bar>"
    unfolding round53_def by (rule rne_nearest)
  then show ?thesis using mb bn by linarith
qed

lemma round53_le_pow2:
  assumes "n \<le> 2 ^ k"
  shows "round53 n \<le> 2 ^ k"
  using round53_nearest [OF pow2_fp53 [of k], of n] assms by linarith

lemma round53_ge_pow2:
  assumes "2 ^ k \<le> n"
  shows "2 ^ k \<le> round53 n"
  using round53_nearest [OF pow2_fp53 [of k], of n] assms by linarith

lemma bitlen_round53:
  "bitlen (round53 n) = bitlen n \<or> round53 n = 2 ^ bitlen n"
proof (cases "n = 0")
  case True
  then show ?thesis by (simp add: round53_def rne_def)
next
  case False
  have up: "round53 n \<le> 2 ^ bitlen n"
    using round53_le_pow2 [of n "bitlen n"] bitlen_less [of n] by simp
  have lo: "2 ^ (bitlen n - 1) \<le> round53 n"
    using round53_ge_pow2 [OF bitlen_ge [OF False]] .
  show ?thesis
  proof (cases "round53 n = 2 ^ bitlen n")
    case True
    then show ?thesis by simp
  next
    case False
    then have "round53 n < 2 ^ bitlen n" using up by simp
    then have "bitlen (round53 n) \<le> bitlen n" by (simp add: bitlen_le_iff)
    moreover have "bitlen n - 1 < bitlen (round53 n)" using lo by (simp add: bitlen_gt_iff)
    ultimately show ?thesis by linarith
  qed
qed

lemma fp53_round53: "fp53 (round53 n)"
proof -
  from bitlen_round53 [of n] show ?thesis
  proof
    assume "bitlen (round53 n) = bitlen n"
    then show ?thesis unfolding fp53_def using rne_dvd [of "bitlen n - 53" n]
      by (simp add: round53_def)
  next
    assume "round53 n = 2 ^ bitlen n"
    then show ?thesis by (simp add: pow2_fp53)
  qed
qed


lemma pow2_dvd_nat_abs: "(2::nat) ^ k dvd nat \<bar>x\<bar> \<longleftrightarrow> (2::int) ^ k dvd x"
  using dvd_nat_abs_iff [of "2 ^ k" x] by simp

lemma nat_le_pow2: "nat \<bar>x\<bar> \<le> 2 ^ k \<longleftrightarrow> \<bar>x\<bar> \<le> 2 ^ k"
  by (simp add: nat_le_iff)

lemma nat_less_pow2: "nat \<bar>x\<bar> < 2 ^ k \<longleftrightarrow> \<bar>x\<bar> < 2 ^ k"
  by (simp add: nat_less_iff)

lemma pow2_le_nat: "2 ^ k \<le> nat \<bar>x\<bar> \<longleftrightarrow> 2 ^ k \<le> \<bar>x\<bar>"
  using nat_less_pow2 [of x k] by linarith

lemma round53_0 [simp]: "round53 0 = 0"
  by (simp add: round53_def rne_def)

lemma round53_pos: "n \<noteq> 0 \<Longrightarrow> round53 n \<noteq> 0"
  using round53_ge_pow2 [of 0 n] by simp

lemma abs_rnd53: "\<bar>rnd53 x\<bar> = int (round53 (nat \<bar>x\<bar>))"
  by (cases "x = 0") (simp_all add: rnd53_def abs_mult abs_sgn_eq)

lemma rnd53_0 [simp]: "rnd53 0 = 0"
  by (simp add: rnd53_def)

lemma rnd53_minus: "rnd53 (- x) = - rnd53 x"
  by (simp add: rnd53_def sgn_minus)

lemma F53_minus: "F53 (- x) = F53 x"
  by (simp add: F53_def)

lemma rnd53_nonneg: "0 \<le> x \<Longrightarrow> rnd53 x = int (round53 (nat x))"
  by (cases "x = 0") (simp_all add: rnd53_def)

lemma rnd53_sign: "0 \<le> x \<Longrightarrow> 0 \<le> rnd53 x" "x \<le> 0 \<Longrightarrow> rnd53 x \<le> 0"
  by (simp_all add: rnd53_def sgn_if)

lemma rnd53_eq_0_iff: "rnd53 x = 0 \<longleftrightarrow> x = 0"
proof (cases "x = 0")
  case True
  then show ?thesis by simp
next
  case False
  then have "nat \<bar>x\<bar> \<noteq> 0" by simp
  then have "round53 (nat \<bar>x\<bar>) \<noteq> 0" by (rule round53_pos)
  then show ?thesis using False by (simp add: rnd53_def sgn_if)
qed

lemma F53_rnd53: "F53 (rnd53 x)"
  unfolding F53_def abs_rnd53 by (simp add: fp53_round53)

lemma rnd53_id: "F53 x \<Longrightarrow> rnd53 x = x"
  by (simp add: F53_def rnd53_def round53_id sgn_if)

lemma rnd53_nearest_nonneg:
  assumes "F53 y" "0 \<le> x"
  shows "\<bar>rnd53 x - x\<bar> \<le> \<bar>y - x\<bar>"
proof (cases "0 \<le> y")
  case True
  have "\<bar>int (round53 (nat x)) - int (nat x)\<bar> \<le> \<bar>int (nat y) - int (nat x)\<bar>"
    using assms(1) True by (intro round53_nearest) (simp add: F53_def)
  then show ?thesis using True assms(2) by (simp add: rnd53_nonneg)
next
  case False
  have "fp53 0" by (simp add: fp53_small)
  then have "\<bar>int (round53 (nat x)) - int (nat x)\<bar> \<le> \<bar>int 0 - int (nat x)\<bar>"
    by (rule round53_nearest)
  then show ?thesis using False assms(2) by (simp add: rnd53_nonneg)
qed

lemma rnd53_nearest:
  assumes "F53 y"
  shows "\<bar>rnd53 x - x\<bar> \<le> \<bar>y - x\<bar>"
proof (cases "0 \<le> x")
  case True
  then show ?thesis using assms by (rule rnd53_nearest_nonneg [rotated])
next
  case False
  then have "0 \<le> - x" by simp
  moreover have "F53 (- y)" using assms by (simp add: F53_minus)
  ultimately have "\<bar>rnd53 (- x) - (- x)\<bar> \<le> \<bar>(- y) - (- x)\<bar>" by (rule rnd53_nearest_nonneg [rotated])
  then show ?thesis by (simp add: rnd53_minus)
qed

lemma rnd53_grid: "2 ^ k dvd x \<Longrightarrow> 2 ^ k dvd rnd53 x"
proof -
  assume "2 ^ k dvd x"
  then have "2 ^ k dvd nat \<bar>x\<bar>" by (simp add: pow2_dvd_nat_abs)
  then have "2 ^ k dvd round53 (nat \<bar>x\<bar>)" by (rule round53_grid)
  then have "2 ^ k dvd nat \<bar>rnd53 x\<bar>" by (simp add: abs_rnd53)
  then show ?thesis by (simp add: pow2_dvd_nat_abs)
qed

lemma F53_intro: "2 ^ k dvd x \<Longrightarrow> \<bar>x\<bar> \<le> 2 ^ (k + 53) \<Longrightarrow> F53 x"
  unfolding F53_def by (rule fp53_intro [of k]) (simp_all add: pow2_dvd_nat_abs nat_le_pow2)

lemma F53_small: "\<bar>x\<bar> < 2 ^ 53 \<Longrightarrow> F53 x"
  using F53_intro [of 0 x] by simp

lemma F53_grid: "F53 x \<Longrightarrow> 2 ^ (k + 52) \<le> \<bar>x\<bar> \<Longrightarrow> 2 ^ k dvd x"
  unfolding F53_def using fp53_grid [of "nat \<bar>x\<bar>" k]
  by (simp add: pow2_dvd_nat_abs pow2_le_nat)

lemma F53_pow2: "F53 (2 ^ k)"
  using pow2_fp53 [of k] by (simp add: F53_def nat_power_eq)

lemma rnd53_half:
  assumes "\<bar>x\<bar> \<le> 2 ^ (k + 53)"
  shows "2 * \<bar>rnd53 x - x\<bar> \<le> 2 ^ k"
proof (cases "\<bar>x\<bar> = 2 ^ (k + 53)")
  case True
  then have "F53 x" using F53_pow2 [of "k + 53"] F53_minus [of x]
    by (cases "0 \<le> x") (simp_all add: abs_if)
  then show ?thesis by (simp add: rnd53_id)
next
  case False
  define n where "n = nat \<bar>x\<bar>"
  have "n < 2 ^ (k + 53)" using False assms unfolding n_def by (simp add: nat_less_pow2)
  then have "bitlen n - 53 \<le> k" using bitlen_le_iff [of n "k + 53"] by simp
  then have 1: "(2::int) ^ (bitlen n - 53) \<le> 2 ^ k" by simp
  have 2: "2 * \<bar>int (round53 n) - int n\<bar> \<le> 2 ^ (bitlen n - 53)"
    unfolding round53_def by (rule rne_half)
  have 3: "\<bar>rnd53 x - x\<bar> = \<bar>int (round53 n) - int n\<bar>"
    unfolding n_def rnd53_def by (cases "0 \<le> x") (auto simp: sgn_if)
  show ?thesis unfolding 3 using 1 2 by (rule order_trans [rotated])
qed

lemma rnd53_abs_le: "\<bar>x\<bar> \<le> 2 ^ k \<Longrightarrow> \<bar>rnd53 x\<bar> \<le> 2 ^ k"
  unfolding abs_rnd53 using round53_le_pow2 [of "nat \<bar>x\<bar>" k]
  by (metis nat_le_pow2 of_nat_le_iff of_nat_numeral of_nat_power)

lemma rnd53_abs_ge: "2 ^ k \<le> \<bar>x\<bar> \<Longrightarrow> 2 ^ k \<le> \<bar>rnd53 x\<bar>"
  unfolding abs_rnd53 using round53_ge_pow2 [of k "nat \<bar>x\<bar>"]
  by (metis pow2_le_nat of_nat_le_iff of_nat_numeral of_nat_power)

lemma ex53_dvd: "F53 x \<Longrightarrow> 2 ^ ex53 x dvd x"
  by (simp add: F53_def fp53_def ex53_def pow2_dvd_nat_abs)

lemma ex53_less: "\<bar>x\<bar> < 2 ^ (ex53 x + 53)"
proof -
  have "bitlen (nat \<bar>x\<bar>) \<le> ex53 x + 53" by (simp add: ex53_def)
  then show ?thesis by (simp add: bitlen_le_iff nat_less_pow2)
qed

lemma ex53_mono: "\<bar>x\<bar> \<le> \<bar>y\<bar> \<Longrightarrow> ex53 x \<le> ex53 y"
proof -
  assume "\<bar>x\<bar> \<le> \<bar>y\<bar>"
  then have "nat \<bar>x\<bar> \<le> nat \<bar>y\<bar>" by simp
  then have "bitlen (nat \<bar>x\<bar>) \<le> bitlen (nat \<bar>y\<bar>)" by (rule bitlen_mono)
  then show ?thesis unfolding ex53_def by (rule diff_le_mono)
qed

lemma ex53_ge: "0 < ex53 x \<Longrightarrow> 2 ^ (ex53 x + 52) \<le> \<bar>x\<bar>"
proof -
  assume "0 < ex53 x"
  then have "ex53 x + 52 < bitlen (nat \<bar>x\<bar>)" by (simp add: ex53_def)
  then show ?thesis by (simp add: bitlen_gt_iff pow2_le_nat)
qed

lemma dvd_abs_bound:
  fixes z :: int
  assumes "2 ^ k dvd z" "\<bar>z\<bar> < 2 ^ n + 2 ^ k" "k \<le> n"
  shows "\<bar>z\<bar> \<le> 2 ^ n"
proof -
  have "(2::int) ^ k dvd 2 ^ n" using assms(3) by (simp add: le_imp_power_dvd)
  then have "2 ^ k dvd (\<bar>z\<bar> - 2 ^ n)" using assms(1) by (simp add: dvd_diff)
  then obtain j where j: "\<bar>z\<bar> - 2 ^ n = 2 ^ k * j" by (auto simp: dvd_def)
  have "2 ^ k * j < (2::int) ^ k * 1" using assms(2) j by linarith
  then have "j < 1" using mult_less_cancel_left_pos [of "2 ^ k" j 1] by simp
  then have "(2::int) ^ k * j \<le> 0" by (simp add: mult_le_0_iff)
  then show ?thesis using j by linarith
qed

lemma pow2_dvd_le: "k \<le> j \<Longrightarrow> (2::int) ^ j dvd x \<Longrightarrow> 2 ^ k dvd x"
  using le_imp_power_dvd [of k j "2::int"] dvd_trans by blast

lemma add_err_F53_aux:
  assumes "F53 a" "F53 b" "\<bar>b\<bar> \<le> \<bar>a\<bar>"
  shows "F53 (a + b - rnd53 (a + b))"
proof -
  define k where "k = ex53 b"
  have kb: "2 ^ k dvd b" unfolding k_def using assms(2) by (rule ex53_dvd)
  have "k \<le> ex53 a" unfolding k_def using assms(3) by (rule ex53_mono)
  then have ka: "2 ^ k dvd a" using ex53_dvd [OF assms(1)] by (rule pow2_dvd_le)
  have "2 ^ k dvd (a + b)" using ka kb by simp
  then have "2 ^ k dvd (a + b - rnd53 (a + b))" using rnd53_grid [of k "a + b"] by simp
  moreover have "\<bar>rnd53 (a + b) - (a + b)\<bar> \<le> \<bar>a - (a + b)\<bar>"
    using assms(1) by (rule rnd53_nearest)
  then have "\<bar>a + b - rnd53 (a + b)\<bar> \<le> 2 ^ (k + 53)"
    using ex53_less [of b] unfolding k_def by linarith
  ultimately show ?thesis by (rule F53_intro)
qed

lemma add_err_F53:
  assumes "F53 a" "F53 b"
  shows "F53 (a + b - rnd53 (a + b))"
proof (cases "\<bar>b\<bar> \<le> \<bar>a\<bar>")
  case True
  with assms show ?thesis by (rule add_err_F53_aux)
next
  case False
  then have "\<bar>a\<bar> \<le> \<bar>b\<bar>" by simp
  with assms(2,1) have "F53 (b + a - rnd53 (b + a))" by (rule add_err_F53_aux)
  then show ?thesis by (simp add: add.commute)
qed

lemma sub_err_F53:
  assumes "F53 a" "F53 b"
  shows "F53 (rnd53 (a - b) - (a - b))"
proof -
  have "F53 (a + (- b) - rnd53 (a + (- b)))"
    using assms by (intro add_err_F53) (simp_all add: F53_minus)
  then have "F53 (- (rnd53 (a - b) - (a - b)))" by simp
  then show ?thesis by (simp only: F53_minus)
qed

lemma fast2sum_F53:
  assumes "F53 a" "F53 b" "\<bar>b\<bar> \<le> \<bar>a\<bar>"
  shows "F53 (rnd53 (a + b) - a)"
proof -
  define k where "k = ex53 b"
  define s where "s = rnd53 (a + b)"
  have kb: "2 ^ k dvd b" unfolding k_def using assms(2) by (rule ex53_dvd)
  have "k \<le> ex53 a" unfolding k_def using assms(3) by (rule ex53_mono)
  then have ka: "2 ^ k dvd a" using ex53_dvd [OF assms(1)] by (rule pow2_dvd_le)
  have "2 ^ k dvd (a + b)" using ka kb by simp
  then have ks: "2 ^ k dvd s" unfolding s_def by (rule rnd53_grid)
  have bb: "\<bar>b\<bar> < 2 ^ (k + 53)" unfolding k_def by (rule ex53_less)
  have near: "\<bar>s - (a + b)\<bar> \<le> \<bar>b\<bar>"
    using rnd53_nearest [OF assms(1), of "a + b"] unfolding s_def by simp
  show ?thesis
  proof (cases "\<bar>a + b\<bar> < 2 ^ (k + 54)")
    case True
    then have "\<bar>a + b\<bar> \<le> 2 ^ (Suc k + 53)" by (simp add: power_add)
    then have "2 * \<bar>s - (a + b)\<bar> \<le> 2 ^ Suc k" unfolding s_def by (rule rnd53_half)
    then have "\<bar>s - (a + b)\<bar> \<le> 2 ^ k" by simp
    then have "\<bar>s - a\<bar> < 2 ^ (k + 53) + 2 ^ k" using bb by linarith
    moreover have d: "2 ^ k dvd (s - a)" using ks ka by simp
    ultimately have "\<bar>s - a\<bar> \<le> 2 ^ (k + 53)" by (intro dvd_abs_bound [of k]) simp_all
    with d show ?thesis unfolding s_def by (rule F53_intro)
  next
    case False
    then have big: "2 ^ (k + 54) \<le> \<bar>a + b\<bar>" by simp
    have "(2::int) ^ (k + 54) = 2 * 2 ^ (k + 53)" by (simp add: power_add)
    then have "2 ^ (Suc k + 52) \<le> \<bar>a\<bar>" using big assms(3) by (simp add: power_add)
    then have "2 ^ Suc k dvd a" using assms(1) by (intro F53_grid)
    moreover have "2 ^ (k + 54) \<le> \<bar>s\<bar>" unfolding s_def using big by (rule rnd53_abs_ge)
    then have "2 ^ (Suc k + 52) \<le> \<bar>s\<bar>" by (simp add: power_add)
    then have "2 ^ Suc k dvd s" unfolding s_def using F53_rnd53 by (intro F53_grid)
    ultimately have "2 ^ Suc k dvd (s - a)" by simp
    moreover have "\<bar>s - a\<bar> \<le> 2 ^ (Suc k + 53)" using near bb by (simp add: power_add)
    ultimately show ?thesis unfolding s_def by (rule F53_intro)
  qed
qed


lemma two_sum_w_F53:
  assumes "F53 a" "F53 b" "\<bar>a\<bar> \<le> \<bar>b\<bar>"
  shows "F53 (rnd53 (a + b) - rnd53 (rnd53 (a + b) - a))"
proof -
  define k where "k = ex53 a"
  define s where "s = rnd53 (a + b)"
  define v where "v = rnd53 (s - a)"
  have ka: "2 ^ k dvd a" unfolding k_def using assms(1) by (rule ex53_dvd)
  have "k \<le> ex53 b" unfolding k_def using assms(3) by (rule ex53_mono)
  then have kb: "2 ^ k dvd b" using ex53_dvd [OF assms(2)] by (rule pow2_dvd_le)
  have "2 ^ k dvd (a + b)" using ka kb by simp
  then have ks: "2 ^ k dvd s" unfolding s_def by (rule rnd53_grid)
  have ksa: "2 ^ k dvd (s - a)" using ks ka by simp
  then have kv: "2 ^ k dvd v" unfolding v_def by (rule rnd53_grid)
  have aa: "\<bar>a\<bar> < 2 ^ (k + 53)" unfolding k_def by (rule ex53_less)
  have err: "\<bar>s - (a + b)\<bar> \<le> \<bar>a\<bar>"
    using rnd53_nearest [OF assms(2), of "a + b"] unfolding s_def by simp
  have eta: "\<bar>v - (s - a)\<bar> \<le> \<bar>s - (a + b)\<bar>"
    using rnd53_nearest [OF assms(2), of "s - a"] unfolding v_def by (simp add: abs_minus_commute)
  show ?thesis
  proof (cases "F53 (s - a)")
    case True
    then have "v = s - a" unfolding v_def by (rule rnd53_id)
    then show ?thesis using assms(1) unfolding s_def [symmetric] v_def [symmetric] by simp
  next
    case False
    then have "\<not> \<bar>s - a\<bar> \<le> 2 ^ (k + 53)" using F53_intro [OF ksa] by blast
    then have big: "2 ^ (k + 53) \<le> \<bar>s - a\<bar>" by simp
    show ?thesis
    proof (cases "2 ^ (k + 53) \<le> \<bar>s\<bar>")
      case True
      then have "2 ^ (Suc k + 52) \<le> \<bar>s\<bar>" by (simp add: power_add)
      then have "2 ^ Suc k dvd s" unfolding s_def using F53_rnd53 by (intro F53_grid)
      moreover have "2 ^ (k + 53) \<le> \<bar>v\<bar>" unfolding v_def using big by (rule rnd53_abs_ge)
      then have "2 ^ (Suc k + 52) \<le> \<bar>v\<bar>" by (simp add: power_add)
      then have "2 ^ Suc k dvd v" unfolding v_def using F53_rnd53 by (intro F53_grid)
      ultimately have "2 ^ Suc k dvd (s - v)" by simp
      moreover have "\<bar>s - v\<bar> \<le> 2 ^ (Suc k + 53)" using err eta aa by (simp add: power_add)
      ultimately show ?thesis unfolding s_def [symmetric] v_def [symmetric] by (rule F53_intro)
    next
      case False
      then have "\<bar>s - a\<bar> \<le> 2 ^ (Suc k + 53)" using aa by (simp add: power_add)
      then have "2 * \<bar>v - (s - a)\<bar> \<le> 2 ^ Suc k" unfolding v_def by (rule rnd53_half)
      then have "\<bar>v - (s - a)\<bar> \<le> 2 ^ k" by simp
      then have "\<bar>s - v\<bar> < 2 ^ (k + 53) + 2 ^ k" using aa by linarith
      moreover have d: "2 ^ k dvd (s - v)" using ks kv by simp
      ultimately have "\<bar>s - v\<bar> \<le> 2 ^ (k + 53)" by (intro dvd_abs_bound [of k]) simp_all
      with d show ?thesis unfolding s_def [symmetric] v_def [symmetric] by (rule F53_intro)
    qed
  qed
qed

lemma two_sum_y_F53:
  assumes "F53 a" "F53 b" "\<bar>a\<bar> \<le> \<bar>b\<bar>"
  shows "F53 (b - rnd53 (rnd53 (a + b) - a))"
proof -
  define j where "j = ex53 b"
  define s where "s = rnd53 (a + b)"
  define v where "v = rnd53 (s - a)"
  have jb: "2 ^ j dvd b" unfolding j_def using assms(2) by (rule ex53_dvd)
  have bb: "\<bar>b\<bar> < 2 ^ (j + 53)" unfolding j_def by (rule ex53_less)
  then have "\<bar>a + b\<bar> \<le> 2 ^ (Suc j + 53)" using assms(3) by (simp add: power_add)
  then have "2 * \<bar>s - (a + b)\<bar> \<le> 2 ^ Suc j" unfolding s_def by (rule rnd53_half)
  then have err: "\<bar>s - (a + b)\<bar> \<le> 2 ^ j" by simp
  have eta: "\<bar>v - (s - a)\<bar> \<le> \<bar>s - (a + b)\<bar>"
    using rnd53_nearest [OF assms(2), of "s - a"] unfolding v_def by (simp add: abs_minus_commute)
  have bv: "\<bar>b - v\<bar> \<le> 2 * 2 ^ j" using err eta by linarith
  show ?thesis
  proof (cases j)
    case 0
    then have "\<bar>b - v\<bar> < 2 ^ 53" using bv by simp
    then show ?thesis unfolding s_def [symmetric] v_def [symmetric] by (rule F53_small)
  next
    case (Suc i)
    then have "2 ^ (j + 52) \<le> \<bar>b\<bar>" unfolding j_def by (intro ex53_ge) simp
    then have "2 ^ (i + 52) \<le> \<bar>v\<bar>" using bv unfolding Suc by (simp add: power_add)
    then have "2 ^ i dvd v" unfolding v_def using F53_rnd53 by (intro F53_grid)
    moreover have "2 ^ i dvd b" using jb unfolding Suc by (intro pow2_dvd_le [of i "Suc i"]) simp_all
    ultimately have "2 ^ i dvd (b - v)" by simp
    moreover have "\<bar>b - v\<bar> \<le> 2 ^ (i + 53)" using bv unfolding Suc by (simp add: power_add)
    ultimately show ?thesis unfolding s_def [symmetric] v_def [symmetric] by (rule F53_intro)
  qed
qed

theorem two_sum_int:
  assumes "F53 a" "F53 b"
  defines "s \<equiv> rnd53 (a + b)"
  defines "v \<equiv> rnd53 (s - a)"
  defines "w \<equiv> rnd53 (s - v)"
  defines "x \<equiv> rnd53 (a - w)"
  defines "y \<equiv> rnd53 (b - v)"
  shows "w = s - v \<and> x = a - w \<and> y = b - v \<and> rnd53 (x + y) = a + b - s"
proof -
  have e: "F53 (a + b - s)" unfolding s_def using assms(1,2) by (rule add_err_F53)
  have fs: "F53 s" unfolding s_def by (rule F53_rnd53)
  have x': "F53 (v - (s - a))" unfolding v_def using fs assms(1) by (rule sub_err_F53)
  have w: "F53 (s - v)" and y': "F53 (b - v)"
  proof -
    show "F53 (s - v)"
    proof (cases "\<bar>b\<bar> \<le> \<bar>a\<bar>")
      case True
      with assms(1,2) have "F53 (s - a)" unfolding s_def by (rule fast2sum_F53)
      then have "v = s - a" unfolding v_def by (rule rnd53_id)
      then show ?thesis using assms(1) by simp
    next
      case False
      then have "\<bar>a\<bar> \<le> \<bar>b\<bar>" by simp
      with assms(1,2) show ?thesis unfolding s_def v_def by (rule two_sum_w_F53)
    qed
    show "F53 (b - v)"
    proof (cases "\<bar>b\<bar> \<le> \<bar>a\<bar>")
      case True
      with assms(1,2) have "F53 (s - a)" unfolding s_def by (rule fast2sum_F53)
      then have "v = s - a" unfolding v_def by (rule rnd53_id)
      then have "b - v = a + b - s" by simp
      then show ?thesis using e by (simp only:)
    next
      case False
      then have "\<bar>a\<bar> \<le> \<bar>b\<bar>" by simp
      with assms(1,2) show ?thesis unfolding s_def v_def by (rule two_sum_y_F53)
    qed
  qed
  have 1: "w = s - v" unfolding w_def using w by (rule rnd53_id)
  have "a - w = v - (s - a)" unfolding 1 by simp
  then have "F53 (a - w)" using x' by (simp only:)
  then have 2: "x = a - w" unfolding x_def by (rule rnd53_id)
  have 3: "y = b - v" unfolding y_def using y' by (rule rnd53_id)
  have xy: "x + y = a + b - s" unfolding 1 2 3 by simp
  then have "F53 (x + y)" using e by (simp only:)
  then have "rnd53 (x + y) = x + y" by (rule rnd53_id)
  then have 4: "rnd53 (x + y) = a + b - s" using xy by (simp only:)
  show ?thesis using 1 2 3 4 by simp
qed

lemma round_units_0: "round_units 0 n = round53 n"
  by (simp add: round_units_def round53_def)

lemma sval_abs: "\<bar>sval s k\<bar> = int k"
  by (simp add: sval_def)

lemma sval_neg: "sval (\<not> s) k = - sval s k"
  by (simp add: sval_def)

lemma sval_rnd53: "i \<noteq> 0 \<Longrightarrow> sval (i < 0) (round53 (nat \<bar>i\<bar>)) = rnd53 i"
  by (simp add: sval_def rnd53_def sgn_if)

lemma finite64_D: "finite64 a \<Longrightarrow> \<exists>s k. a = DFin s k \<and> representable k"
  by (cases a) simp_all

lemma finite64_F53: "finite64 a \<Longrightarrow> F53 (units a)"
  by (cases a) (simp_all add: representable_def F53_def sval_abs)

lemma top_facts:
  "0 < top_ulp" "top_ulp < top_units" "top_units = 2 ^ (2045 + 53)" "top_ulp = 2 ^ 2045"
  "(2::int) ^ 2097 + top_ulp \<le> top_units" "top_units = 2 ^ 2098" "0 < top_units"
  "top_ulp = 2 * 2 ^ 2044"
  by (simp_all add: top_ulp_def top_units_def)

lemma finite64_less: "finite64 a \<Longrightarrow> \<bar>units a\<bar> < top_units"
proof (cases a)
  case (DFin s k)
  assume "finite64 a"
  then have "k < 2 ^ 2098" using DFin by (simp add: representable_def)
  then have "int k < 2 ^ 2098" by (metis of_nat_less_iff of_nat_numeral of_nat_power)
  then show ?thesis unfolding DFin top_units_def units.simps sval_abs .
qed (simp_all add: top_facts)

lemma units_dneg: "units (dneg a) = - units a"
  by (cases a) (simp_all add: sval_neg)

lemma finite64_dneg: "finite64 (dneg a) = finite64 a"
  by (cases a) simp_all

lemma dadd_DFin:
  "dadd (DFin s m) (DFin t n) =
     (let i = sval s m + sval t n
      in if i = 0 then DFin (s \<and> t) 0
         else if 2 ^ 2098 \<le> round53 (nat \<bar>i\<bar>) then DInf (i < 0)
         else DFin (i < 0) (round53 (nat \<bar>i\<bar>)))"
  by (simp add: of_exact_def mk_def round_units_0 Let_def)

lemma representable_0: "representable 0"
  by (simp add: representable_def fp53_small)

lemma top_le_round53: "(2::nat) ^ 2098 \<le> round53 (nat \<bar>i\<bar>) \<longleftrightarrow> top_units \<le> \<bar>rnd53 i\<bar>"
  unfolding abs_rnd53 top_units_def by (metis of_nat_le_iff of_nat_numeral of_nat_power)

lemma dadd_units:
  assumes "finite64 a" "finite64 b" "\<bar>rnd53 (units a + units b)\<bar> < top_units"
  shows "finite64 (dadd a b) \<and> units (dadd a b) = rnd53 (units a + units b)"
proof -
  obtain s m where a: "a = DFin s m" using finite64_D [OF assms(1)] by blast
  obtain t n where b: "b = DFin t n" using finite64_D [OF assms(2)] by blast
  define i where "i = sval s m + sval t n"
  show ?thesis
  proof (cases "i = 0")
    case True
    then show ?thesis unfolding a b dadd_DFin units.simps i_def [symmetric]
      by (simp add: representable_0 sval_def)
  next
    case False
    have nov: "\<not> (2::nat) ^ 2098 \<le> round53 (nat \<bar>i\<bar>)"
      using assms(3) unfolding a b units.simps i_def [symmetric] top_le_round53 by simp
    then have "representable (round53 (nat \<bar>i\<bar>))"
      unfolding representable_def using fp53_round53 by simp
    then show ?thesis unfolding a b dadd_DFin units.simps i_def [symmetric] Let_def
      using False nov by (simp only: if_False finite64.simps units.simps sval_rnd53 simp_thms)
  qed
qed

lemma dadd_overflow:
  assumes "finite64 a" "finite64 b" "top_units \<le> \<bar>rnd53 (units a + units b)\<bar>"
  shows "dadd a b = DInf (units a + units b < 0)"
proof -
  obtain s m where a: "a = DFin s m" using finite64_D [OF assms(1)] by blast
  obtain t n where b: "b = DFin t n" using finite64_D [OF assms(2)] by blast
  define i where "i = sval s m + sval t n"
  have "i \<noteq> 0" using assms(3) top_facts(7) unfolding a b units.simps i_def [symmetric] by auto
  moreover have "(2::nat) ^ 2098 \<le> round53 (nat \<bar>i\<bar>)"
    using assms(3) unfolding a b units.simps i_def [symmetric] top_le_round53 .
  ultimately show ?thesis unfolding a b dadd_DFin units.simps i_def [symmetric] Let_def
    by (simp only: if_False if_True)
qed

lemma dadd_finite_iff:
  assumes "finite64 a" "finite64 b"
  shows "finite64 (dadd a b) \<longleftrightarrow> \<bar>rnd53 (units a + units b)\<bar> < top_units"
proof (cases "\<bar>rnd53 (units a + units b)\<bar> < top_units")
  case True
  then show ?thesis using dadd_units [OF assms] by simp
next
  case False
  then have "top_units \<le> \<bar>rnd53 (units a + units b)\<bar>" by simp
  then show ?thesis using dadd_overflow [OF assms] False by simp
qed

lemma dsub_units:
  assumes "finite64 a" "finite64 b" "\<bar>rnd53 (units a - units b)\<bar> < top_units"
  shows "finite64 (dsub a b) \<and> units (dsub a b) = rnd53 (units a - units b)"
  unfolding dsub_def using dadd_units [of a "dneg b"] assms
  by (simp add: finite64_dneg units_dneg)

lemma dsub_finite_iff:
  assumes "finite64 a" "finite64 b"
  shows "finite64 (dsub a b) \<longleftrightarrow> \<bar>rnd53 (units a - units b)\<bar> < top_units"
  unfolding dsub_def using dadd_finite_iff [of a "dneg b"] assms
  by (simp add: finite64_dneg units_dneg)

lemma dvd_abs_gap:
  fixes z :: int
  assumes "2 ^ k dvd z" "\<bar>z\<bar> < 2 ^ n" "k \<le> n"
  shows "\<bar>z\<bar> + 2 ^ k \<le> 2 ^ n"
proof -
  have "(2::int) ^ k dvd 2 ^ n" using assms(3) by (simp add: le_imp_power_dvd)
  then have "2 ^ k dvd (2 ^ n - \<bar>z\<bar>)" using assms(1) by (simp add: dvd_diff)
  moreover have "0 < 2 ^ n - \<bar>z\<bar>" using assms(2) by simp
  ultimately have "2 ^ k \<le> 2 ^ n - \<bar>z\<bar>" by (rule zdvd_imp_le)
  then show ?thesis by simp
qed

lemma finite64_max:
  assumes "finite64 a"
  shows "\<bar>units a\<bar> + top_ulp \<le> top_units"
proof (cases "2 ^ (2045 + 52) \<le> \<bar>units a\<bar>")
  case True
  then have "2 ^ 2045 dvd units a" using finite64_F53 [OF assms] by (intro F53_grid)
  moreover have "\<bar>units a\<bar> < 2 ^ 2098" using finite64_less [OF assms] unfolding top_facts(6) .
  ultimately have "\<bar>units a\<bar> + 2 ^ 2045 \<le> 2 ^ 2098" by (rule dvd_abs_gap) simp
  then show ?thesis unfolding top_units_def top_ulp_def .
next
  case False
  then have "\<bar>units a\<bar> < 2 ^ 2097" by simp
  then show ?thesis using top_facts(5) by linarith
qed

lemma rnd53_err_top:
  assumes "\<bar>rnd53 x\<bar> < top_units"
  shows "\<bar>x\<bar> < top_units" "\<bar>rnd53 x - x\<bar> \<le> 2 ^ 2044"
proof -
  show 1: "\<bar>x\<bar> < top_units" using rnd53_abs_ge [of 2098 x] assms unfolding top_facts(6) by linarith
  then have "\<bar>x\<bar> \<le> 2 ^ (Suc 2044 + 53)" unfolding top_facts(3) by simp
  then have "2 * \<bar>rnd53 x - x\<bar> \<le> 2 ^ Suc 2044" by (rule rnd53_half)
  then show "\<bar>rnd53 x - x\<bar> \<le> 2 ^ 2044" by (simp only: power_Suc) simp
qed

lemma two_sum_eq: "two_sum a b =
  \<lparr>hi = dadd a b,
   lo = dadd (dsub a (dsub (dadd a b) (dsub (dadd a b) a))) (dsub b (dsub (dadd a b) a))\<rparr>"
  by (simp add: two_sum_def Let_def)

lemma two_sum_bounds:
  fixes A B S V H T :: int
  assumes "\<bar>S - (A + B)\<bar> \<le> H" "\<bar>V - (S - A)\<bar> \<le> H" "\<bar>A\<bar> + 2 * H \<le> T" "0 < H" "2 * H < T"
  shows "\<bar>S - V\<bar> < T" "\<bar>A - (S - V)\<bar> < T" "\<bar>B - V\<bar> < T" "\<bar>A + B - S\<bar> < T"
proof -
  have 1: "\<bar>S - V\<bar> \<le> \<bar>A\<bar> + \<bar>V - (S - A)\<bar>"
    using abs_triangle_ineq4 [of A "V - (S - A)"] by simp
  have 2: "\<bar>A - (S - V)\<bar> = \<bar>V - (S - A)\<bar>"
    by (rule arg_cong [of _ _ abs]) simp
  have 3: "\<bar>B - V\<bar> \<le> \<bar>S - (A + B)\<bar> + \<bar>V - (S - A)\<bar>"
    using abs_triangle_ineq [of "- (S - (A + B))" "- (V - (S - A))"] by simp
  have 4: "\<bar>A + B - S\<bar> = \<bar>S - (A + B)\<bar>"
    by (rule abs_minus_commute)
  show "\<bar>S - V\<bar> < T" using 1 assms(2,3,4) by linarith
  show "\<bar>A - (S - V)\<bar> < T" using 2 assms(2,4,5) by linarith
  show "\<bar>B - V\<bar> < T" using 3 assms(1,2,4,5) by linarith
  show "\<bar>A + B - S\<bar> < T" using 4 assms(1,4,5) by linarith
qed

lemma two_sum_units:
  assumes "finite64 a" "finite64 b" "finite64 (dadd a b)" "finite64 (dsub (dadd a b) a)"
  shows "finite64 (lo (two_sum a b)) \<and>
         units (lo (two_sum a b)) = units a + units b - units (dadd a b) \<and>
         units (dadd a b) = rnd53 (units a + units b)"
proof -
  define A B where "A = units a" and "B = units b"
  define S where "S = rnd53 (A + B)"
  define V where "V = rnd53 (S - A)"
  define W where "W = rnd53 (S - V)"
  define X where "X = rnd53 (A - W)"
  define Y where "Y = rnd53 (B - V)"
  define s where "s = dadd a b"
  define v where "v = dsub s a"
  define w where "w = dsub s v"
  define x where "x = dsub a w"
  define y where "y = dsub b v"
  have FA: "F53 A" and FB: "F53 B" unfolding A_def B_def using assms(1,2) by (simp_all add: finite64_F53)
  have exact: "W = S - V \<and> X = A - W \<and> Y = B - V \<and> rnd53 (X + Y) = A + B - S"
    unfolding S_def V_def W_def X_def Y_def using FA FB by (rule two_sum_int)
  have fs: "finite64 s" using assms(3) by (simp add: s_def)
  have Sb: "\<bar>S\<bar> < top_units"
    using dadd_finite_iff [OF assms(1,2)] assms(3) by (simp add: S_def A_def B_def)
  have us: "units s = S"
    using dadd_units [OF assms(1,2)] Sb by (simp add: S_def A_def B_def s_def)
  have fv: "finite64 v" using assms(4) by (simp add: v_def s_def)
  have Vb: "\<bar>V\<bar> < top_units"
    using dsub_finite_iff [OF fs assms(1)] fv by (simp add: V_def us A_def v_def)
  have uv: "units v = V"
    using dsub_units [OF fs assms(1)] Vb by (simp add: V_def us A_def v_def)
  have err: "\<bar>S - (A + B)\<bar> \<le> 2 ^ 2044" unfolding S_def using Sb unfolding S_def by (rule rnd53_err_top(2))
  have eta: "\<bar>V - (S - A)\<bar> \<le> 2 ^ 2044" unfolding V_def using Vb unfolding V_def by (rule rnd53_err_top(2))
  have Amax: "\<bar>A\<bar> + 2 * 2 ^ 2044 \<le> top_units"
    unfolding A_def top_facts(8) [symmetric] using assms(1) by (rule finite64_max)
  have "(0::int) < 2 ^ 2044" by simp
  moreover have "2 * 2 ^ 2044 < top_units" using top_facts(2) unfolding top_facts(8) .
  ultimately have bounds: "\<bar>S - V\<bar> < top_units" "\<bar>A - (S - V)\<bar> < top_units"
    "\<bar>B - V\<bar> < top_units" "\<bar>A + B - S\<bar> < top_units"
    using two_sum_bounds [OF err eta Amax] by blast+
  have W2: "W = S - V" and X2: "X = A - (S - V)" and Y2: "Y = B - V"
    and E2: "rnd53 (X + Y) = A + B - S" using exact by blast+
  have Wb: "\<bar>W\<bar> < top_units" unfolding W2 by (rule bounds(1))
  have Xb: "\<bar>X\<bar> < top_units" unfolding X2 by (rule bounds(2))
  have Yb: "\<bar>Y\<bar> < top_units" unfolding Y2 by (rule bounds(3))
  have Eb: "\<bar>rnd53 (X + Y)\<bar> < top_units" unfolding E2 by (rule bounds(4))
  have w: "finite64 w \<and> units w = W"
    unfolding w_def W_def using dsub_units [OF fs fv] Wb unfolding W_def us uv .
  have x: "finite64 x \<and> units x = X"
    unfolding x_def X_def using dsub_units [OF assms(1) conjunct1 [OF w]] Xb
    unfolding X_def conjunct2 [OF w] A_def .
  have y: "finite64 y \<and> units y = Y"
    unfolding y_def Y_def using dsub_units [OF assms(2) fv] Yb unfolding Y_def uv B_def .
  have e: "finite64 (dadd x y) \<and> units (dadd x y) = A + B - S"
    using dadd_units [OF conjunct1 [OF x] conjunct1 [OF y]] Eb
    unfolding conjunct2 [OF x] conjunct2 [OF y] E2 .
  have "lo (two_sum a b) = dadd x y"
    by (simp add: two_sum_eq x_def y_def w_def v_def s_def)
  then show ?thesis using e us unfolding s_def S_def A_def B_def by simp
qed

lemma bitlen_eqI: "2 ^ k \<le> n \<Longrightarrow> n < 2 ^ Suc k \<Longrightarrow> bitlen n = Suc k"
  using bitlen_gt_iff [of k n] bitlen_le_iff [of n "Suc k"] by linarith

lemma round53_eval:
  assumes "n = q * 2 ^ d + r" "r < 2 ^ d" "2 ^ 52 \<le> q" "q < 2 ^ 53"
  shows "round53 n = (if 2 * r < 2 ^ d \<or> (2 * r = 2 ^ d \<and> even q) then q else q + 1) * 2 ^ d"
proof -
  have "2 ^ 52 * 2 ^ d \<le> q * 2 ^ d" using assms(3) by (rule mult_le_mono1)
  moreover have "(2::nat) ^ (d + 52) = 2 ^ 52 * 2 ^ d" by (simp only: power_add mult.commute)
  ultimately have lo: "2 ^ (d + 52) \<le> n" unfolding assms(1) by linarith
  have "q + 1 \<le> 2 ^ 53" using assms(4) by simp
  then have "(q + 1) * 2 ^ d \<le> 2 ^ 53 * 2 ^ d" by (rule mult_le_mono1)
  moreover have "(2::nat) ^ Suc (d + 52) = 2 ^ 53 * 2 ^ d" by (simp add: power_add)
  moreover have "(q + 1) * 2 ^ d = q * 2 ^ d + 2 ^ d" by (simp add: algebra_simps)
  ultimately have hi: "n < 2 ^ Suc (d + 52)" unfolding assms(1) using assms(2) by linarith
  have "bitlen n = Suc (d + 52)" using lo hi by (rule bitlen_eqI)
  then have d: "bitlen n - 53 = d" by simp
  have q: "n div 2 ^ d = q" unfolding assms(1) using assms(2) by simp
  have r: "n mod 2 ^ d = r" unfolding assms(1) using assms(2) by simp
  show ?thesis unfolding round53_def d rne_def q r Let_def ..
qed

lemma dadd_eval:
  assumes "nat \<bar>sval s m + sval t n\<bar> = q * 2 ^ d + r" "r < 2 ^ d" "2 ^ 52 \<le> q" "q < 2 ^ 53"
  shows "dadd (DFin s m) (DFin t n) =
    (let k = (if 2 * r < 2 ^ d \<or> (2 * r = 2 ^ d \<and> even q) then q else q + 1) * 2 ^ d
     in if 2 ^ 2098 \<le> k then DInf (sval s m + sval t n < 0) else DFin (sval s m + sval t n < 0) k)"
proof -
  have "q \<noteq> 0" using assms(3) by auto
  then have "sval s m + sval t n \<noteq> 0" using assms(1) by auto
  then show ?thesis unfolding dadd_DFin Let_def round53_eval [OF assms] by simp
qed

lemma dadd_eval_small:
  assumes "\<bar>sval s m + sval t n\<bar> < 2 ^ 53"
  shows "dadd (DFin s m) (DFin t n) =
    (if sval s m + sval t n = 0 then DFin (s \<and> t) 0
     else DFin (sval s m + sval t n < 0) (nat \<bar>sval s m + sval t n\<bar>))"
proof -
  define i where "i = sval s m + sval t n"
  have "nat \<bar>i\<bar> < 2 ^ 53" using assms unfolding i_def [symmetric] by (simp add: nat_less_pow2)
  then have 1: "round53 (nat \<bar>i\<bar>) = nat \<bar>i\<bar>" by (intro round53_id fp53_small)
  have "nat \<bar>i\<bar> < 2 ^ 2098" using \<open>nat \<bar>i\<bar> < 2 ^ 53\<close> by simp
  then show ?thesis unfolding dadd_DFin Let_def i_def [symmetric] 1 by simp
qed

lemma representableI: "2 ^ k dvd n \<Longrightarrow> n \<le> 2 ^ (k + 53) \<Longrightarrow> n < 2 ^ 2098 \<Longrightarrow> representable n"
  unfolding representable_def using fp53_intro by blast

lemma finite64_DBL_MAX: "finite64 DBL_MAX"
  unfolding DBL_MAX_def finite64.simps by (rule representableI [of 2045]) simp_all

lemma finite64_big_a: "finite64 big_a"
  unfolding big_a_def finite64.simps by (rule representableI [of 2044]) simp_all

lemma finite64_big_s: "finite64 big_s"
  unfolding big_s_def finite64.simps by (rule representableI [of 2045]) simp_all


lemma big_a_plus_MAX: "dadd big_a DBL_MAX = big_s"
  unfolding DBL_MAX_def big_a_def big_s_def
  by (rule trans [OF dadd_eval [where q="2 ^ 53 - 3" and d=2045 and r="2 ^ 2044"]])
     (simp_all add: sval_def)

lemma big_s_minus_big_a: "dsub big_s big_a = DInf False"
  unfolding dsub_def big_s_def big_a_def dneg.simps
  by (rule trans [OF dadd_eval [where q="2 ^ 53 - 1" and d=2045 and r="2 ^ 2044"]])
     (simp_all add: sval_def)

lemma dadd_fin_inf: "finite64 a \<Longrightarrow> dadd a (DInf g) = DInf g" "finite64 a \<Longrightarrow> dadd (DInf g) a = DInf g"
  by (cases a; simp)+

lemma dsub_fin_inf: "finite64 a \<Longrightarrow> dsub a (DInf g) = DInf (\<not> g)" "finite64 a \<Longrightarrow> dsub (DInf g) a = DInf g"
  unfolding dsub_def by (cases a; simp)+

lemma two_sum_big_a_MAX: "two_sum big_a DBL_MAX = \<lparr>hi = big_s, lo = DNaN\<rparr>"
  unfolding two_sum_eq big_a_plus_MAX big_s_minus_big_a
  by (simp add: dsub_fin_inf finite64_big_s finite64_big_a finite64_DBL_MAX)

subsection \<open>Signed zeros and commutativity\<close>

lemma dadd_commute: "dadd a b = dadd b a"
proof (cases a; cases b)
  fix s m t n
  assume "a = DFin s m" "b = DFin t n"
  then show ?thesis by (simp add: add.commute conj_commute)
qed simp_all

lemma mk_not_neg_zero: "n \<noteq> 0 \<Longrightarrow> mk s 0 n \<noteq> DFin t 0"
  unfolding mk_def Let_def round_units_0 using round53_pos [of n] by simp

lemma dadd_neg_zero_iff: "dadd x y = neg_zero \<longleftrightarrow> x = neg_zero \<and> y = neg_zero"
proof (cases x; cases y)
  fix s m t n
  assume xy: "x = DFin s m" "y = DFin t n"
  show ?thesis
  proof (cases "sval s m + sval t n = 0")
    case True
    then show ?thesis unfolding xy neg_zero_def by (auto simp: of_exact_def sval_def split: if_splits)
  next
    case False
    then have "nat \<bar>sval s m + sval t n\<bar> \<noteq> 0" by simp
    then have "mk (sval s m + sval t n < 0) 0 (nat \<bar>sval s m + sval t n\<bar>) \<noteq> DFin True 0"
      by (rule mk_not_neg_zero)
    then show ?thesis unfolding xy neg_zero_def using False by (auto simp: of_exact_def sval_def)
  qed
qed (simp_all add: neg_zero_def)

lemma dsub_neg_zero_iff: "dsub x y = neg_zero \<longleftrightarrow> x = neg_zero \<and> y = d_zero"
  unfolding dsub_def dadd_neg_zero_iff by (cases y) (auto simp: neg_zero_def d_zero_def)

lemma two_sum_lo_not_neg_zero: "lo (two_sum a b) \<noteq> neg_zero"
proof
  assume "lo (two_sum a b) = neg_zero"
  then have "dadd (dsub a (dsub (dadd a b) (dsub (dadd a b) a))) (dsub b (dsub (dadd a b) a)) =
      neg_zero"
    unfolding two_sum_eq by simp
  then have *: "a = neg_zero \<and> b = neg_zero \<and> dsub (dadd a b) (dsub (dadd a b) a) = d_zero"
    unfolding dadd_neg_zero_iff dsub_neg_zero_iff by blast
  then have a: "a = neg_zero" and b: "b = neg_zero" by blast+
  have "dsub (dadd neg_zero neg_zero) (dsub (dadd neg_zero neg_zero) neg_zero) = d_zero"
    using * unfolding a b by blast
  then show False by (simp add: neg_zero_def d_zero_def dsub_def of_exact_def sval_def)
qed

lemma dadd_zero_right:
  assumes "is_double x"
  shows "dadd x d_zero = (if x = neg_zero then d_zero else x)"
proof (cases x)
  case (DFin s m)
  then have r: "representable m" using assms by simp
  show ?thesis
  proof (cases "m = 0")
    case True
    then show ?thesis unfolding DFin d_zero_def neg_zero_def by (simp add: of_exact_def sval_def)
  next
    case False
    have "round53 m = m" using r unfolding representable_def by (simp add: round53_id)
    moreover have "\<not> 2 ^ 2098 \<le> m" using r unfolding representable_def by simp
    ultimately show ?thesis unfolding DFin d_zero_def neg_zero_def using False
      by (simp add: of_exact_def sval_def mk_def round_units_0)
  qed
qed (simp_all add: d_zero_def neg_zero_def)

lemma dadd_zero_left:
  assumes "is_double x"
  shows "dadd d_zero x = (if x = neg_zero then d_zero else x)"
  using dadd_zero_right [OF assms] by (simp add: dadd_commute)

lemma dadd_neg_zero_right:
  assumes "is_double x"
  shows "dadd x neg_zero = x"
proof (cases x)
  case (DFin s m)
  then have r: "representable m" using assms by simp
  show ?thesis
  proof (cases "m = 0")
    case True
    then show ?thesis unfolding DFin neg_zero_def by (simp add: of_exact_def sval_def)
  next
    case False
    have "round53 m = m" using r unfolding representable_def by (simp add: round53_id)
    moreover have "\<not> 2 ^ 2098 \<le> m" using r unfolding representable_def by simp
    ultimately show ?thesis unfolding DFin neg_zero_def using False
      by (simp add: of_exact_def sval_def mk_def round_units_0)
  qed
qed (simp_all add: neg_zero_def)

lemma dadd_neg_zero_left:
  assumes "e \<noteq> neg_zero"
  shows "dadd neg_zero e = dadd d_zero e"
proof (cases e)
  case (DFin t n)
  then show ?thesis using assms unfolding neg_zero_def d_zero_def
    by (cases "n = 0") (auto simp: of_exact_def sval_def)
qed (simp_all add: neg_zero_def d_zero_def)

lemma dsub_zero_right:
  assumes "is_double x"
  shows "dsub x d_zero = x"
  using dadd_neg_zero_right [OF assms] by (simp add: dsub_def d_zero_def neg_zero_def)

lemma dsub_self:
  assumes "finite64 x"
  shows "dsub x x = d_zero"
proof -
  obtain s m where x: "x = DFin s m" using finite64_D [OF assms] by blast
  show ?thesis unfolding x dsub_def d_zero_def by (simp add: of_exact_def sval_def)
qed

lemma finite64_is_double: "finite64 x \<Longrightarrow> is_double x"
  by (cases x) simp_all

lemma units_inj:
  assumes "finite64 x" "finite64 y" "units x = units y" "units x \<noteq> 0"
  shows "x = y"
proof -
  obtain s m where x: "x = DFin s m" using finite64_D [OF assms(1)] by blast
  obtain t n where y: "y = DFin t n" using finite64_D [OF assms(2)] by blast
  show ?thesis using assms(3,4) unfolding x y by (auto simp: sval_def split: if_splits)
qed

lemma units_zero:
  assumes "finite64 x" "units x = 0" "x \<noteq> neg_zero"
  shows "x = d_zero"
proof -
  obtain s m where x: "x = DFin s m" using finite64_D [OF assms(1)] by blast
  show ?thesis using assms(2,3) unfolding x neg_zero_def d_zero_def
    by (auto simp: sval_def split: if_splits)
qed

lemma finite64_zero [simp]: "finite64 d_zero" "finite64 neg_zero"
  by (simp_all add: d_zero_def neg_zero_def representable_0)

lemma units_zero_simps [simp]: "units d_zero = 0" "units neg_zero = 0"
  by (simp_all add: d_zero_def neg_zero_def sval_def)

subsection \<open>The ordered variant and renormalisation\<close>

lemma valof_sum: "valof x + valof y = real_of_int (units x + units y) / 2 ^ 1074"
  by (simp add: valof_def add_divide_distrib)

lemma valof_abs_le: "\<bar>valof b\<bar> \<le> \<bar>valof a\<bar> \<longleftrightarrow> \<bar>units b\<bar> \<le> \<bar>units a\<bar>"
proof -
  have "\<bar>valof b\<bar> \<le> \<bar>valof a\<bar> \<longleftrightarrow> real_of_int \<bar>units b\<bar> \<le> real_of_int \<bar>units a\<bar>"
    by (simp add: valof_def divide_le_cancel)
  then show ?thesis by (simp only: of_int_le_iff)
qed

lemma finite64_small: "n < 2 ^ 53 \<Longrightarrow> finite64 (DFin s n)"
  by (simp add: representable_def fp53_small)

lemma quick_two_sum_eq:
  "quick_two_sum a b = \<lparr>hi = dadd a b, lo = dsub b (dsub (dadd a b) a)\<rparr>"
  by (simp add: quick_two_sum_def Let_def)

lemma fin_or_inf:
  assumes "finite64 a" "finite64 b"
  shows "finite64 (dadd a b) \<or> (\<exists>g. dadd a b = DInf g)"
proof (cases "\<bar>rnd53 (units a + units b)\<bar> < top_units")
  case True
  then show ?thesis using dadd_units [OF assms] by simp
next
  case False
  then have "top_units \<le> \<bar>rnd53 (units a + units b)\<bar>" by simp
  then show ?thesis using dadd_overflow [OF assms] by blast
qed

lemma fin_or_inf_sub:
  assumes "finite64 a" "finite64 b"
  shows "finite64 (dsub a b) \<or> (\<exists>g. dsub a b = DInf g)"
  unfolding dsub_def using assms by (intro fin_or_inf) (simp_all add: finite64_dneg)

lemma dadd_nan [simp]: "dadd a DNaN = DNaN" "dadd DNaN a = DNaN"
  by (cases a; simp)+

lemma dsub_nan [simp]: "dsub a DNaN = DNaN" "dsub DNaN a = DNaN"
  by (simp_all add: dsub_def)



lemma fast_bounds:
  fixes A B S H T :: int
  assumes "\<bar>S - (A + B)\<bar> \<le> H" "\<bar>B\<bar> + 2 * H \<le> T" "0 < H" "2 * H < T"
  shows "\<bar>S - A\<bar> < T" "\<bar>A + B - S\<bar> < T"
proof -
  have 1: "\<bar>S - A\<bar> \<le> \<bar>B\<bar> + \<bar>S - (A + B)\<bar>"
    using abs_triangle_ineq [of B "S - (A + B)"] by simp
  have 2: "\<bar>A + B - S\<bar> = \<bar>S - (A + B)\<bar>" by (rule abs_minus_commute)
  show "\<bar>S - A\<bar> < T" using 1 assms by linarith
  show "\<bar>A + B - S\<bar> < T" using 2 assms by linarith
qed

lemma quick_two_sum_units:
  assumes "finite64 a" "finite64 b" "\<bar>units b\<bar> \<le> \<bar>units a\<bar>" "finite64 (dadd a b)"
  shows "finite64 (lo (quick_two_sum a b)) \<and>
         units (lo (quick_two_sum a b)) = units a + units b - units (dadd a b) \<and>
         units (dadd a b) = rnd53 (units a + units b)"
proof -
  define A B where "A = units a" and "B = units b"
  define S where "S = rnd53 (A + B)"
  define s where "s = dadd a b"
  define v where "v = dsub s a"
  have FA: "F53 A" and FB: "F53 B" unfolding A_def B_def using assms(1,2) by (simp_all add: finite64_F53)
  have fs: "finite64 s" using assms(4) by (simp add: s_def)
  have Sb: "\<bar>S\<bar> < top_units"
    using dadd_finite_iff [OF assms(1,2)] assms(4) by (simp add: S_def A_def B_def)
  have us: "units s = S"
    using dadd_units [OF assms(1,2)] Sb by (simp add: S_def A_def B_def s_def)
  have "F53 (S - A)" unfolding S_def using FA FB assms(3) unfolding A_def B_def
    by (intro fast2sum_F53)
  then have V: "rnd53 (S - A) = S - A" by (rule rnd53_id)
  have "F53 (A + B - S)" unfolding S_def using FA FB by (rule add_err_F53)
  then have E: "rnd53 (A + B - S) = A + B - S" by (rule rnd53_id)
  have err: "\<bar>S - (A + B)\<bar> \<le> 2 ^ 2044" unfolding S_def using Sb unfolding S_def by (rule rnd53_err_top(2))
  have Bmax: "\<bar>B\<bar> + 2 * 2 ^ 2044 \<le> top_units"
    unfolding B_def top_facts(8) [symmetric] using assms(2) by (rule finite64_max)
  have "(0::int) < 2 ^ 2044" by simp
  moreover have "2 * 2 ^ 2044 < top_units" using top_facts(2) unfolding top_facts(8) .
  ultimately have bounds: "\<bar>S - A\<bar> < top_units" "\<bar>A + B - S\<bar> < top_units"
    using fast_bounds [OF err Bmax] by blast+
  have v: "finite64 v \<and> units v = S - A"
    unfolding v_def using dsub_units [OF fs assms(1)] bounds(1) unfolding us A_def [symmetric] V .
  have eq: "B - (S - A) = A + B - S" by simp
  have "\<bar>rnd53 (B - (S - A))\<bar> < top_units" "rnd53 (B - (S - A)) = A + B - S"
    unfolding eq E using bounds(2) by simp_all
  then have e: "finite64 (dsub b v) \<and> units (dsub b v) = A + B - S"
    using dsub_units [OF assms(2) conjunct1 [OF v]] unfolding conjunct2 [OF v] B_def [symmetric]
    by simp
  have "lo (quick_two_sum a b) = dsub b v" by (simp add: quick_two_sum_eq v_def s_def)
  then show ?thesis using e us unfolding s_def S_def A_def B_def by simp
qed

lemma quick_two_sum_finite:
  assumes "finite64 a" "finite64 b" "finite64 (dadd a b)" "finite64 (dsub (dadd a b) a)"
  shows "finite64 (lo (quick_two_sum a b))"
proof -
  define A B where "A = units a" and "B = units b"
  define S where "S = rnd53 (A + B)"
  define V where "V = rnd53 (S - A)"
  define s where "s = dadd a b"
  define v where "v = dsub s a"
  have fs: "finite64 s" using assms(3) by (simp add: s_def)
  have Sb: "\<bar>S\<bar> < top_units"
    using dadd_finite_iff [OF assms(1,2)] assms(3) by (simp add: S_def A_def B_def)
  have us: "units s = S"
    using dadd_units [OF assms(1,2)] Sb by (simp add: S_def A_def B_def s_def)
  have fv: "finite64 v" using assms(4) by (simp add: v_def s_def)
  have Vb: "\<bar>V\<bar> < top_units"
    using dsub_finite_iff [OF fs assms(1)] fv by (simp add: V_def us A_def v_def)
  have uv: "units v = V"
    using dsub_units [OF fs assms(1)] Vb by (simp add: V_def us A_def v_def)
  have err: "\<bar>S - (A + B)\<bar> \<le> 2 ^ 2044" unfolding S_def using Sb unfolding S_def by (rule rnd53_err_top(2))
  have eta: "\<bar>V - (S - A)\<bar> \<le> 2 ^ 2044" unfolding V_def using Vb unfolding V_def by (rule rnd53_err_top(2))
  have "\<bar>B - V\<bar> \<le> \<bar>S - (A + B)\<bar> + \<bar>V - (S - A)\<bar>"
    using abs_triangle_ineq [of "- (S - (A + B))" "- (V - (S - A))"] by simp
  then have "\<bar>B - V\<bar> \<le> 2 * 2 ^ 2044" using err eta by linarith
  then have "\<bar>B - V\<bar> \<le> 2 ^ 2045" by simp
  then have "\<bar>rnd53 (B - V)\<bar> \<le> 2 ^ 2045" by (rule rnd53_abs_le)
  then have "\<bar>rnd53 (B - V)\<bar> < top_units" using top_facts(2) unfolding top_facts(4) by linarith
  then have "finite64 (dsub b v)"
    using dsub_units [OF assms(2) fv] unfolding uv B_def [symmetric] by simp
  then show ?thesis by (simp add: quick_two_sum_eq v_def s_def)
qed

lemma bitlen_round53_ge: "bitlen n \<le> bitlen (round53 n)"
proof (cases "n = 0")
  case True
  then show ?thesis by simp
next
  case False
  have "2 ^ (bitlen n - 1) \<le> round53 n" using bitlen_ge [OF False] by (rule round53_ge_pow2)
  then have "bitlen n - 1 < bitlen (round53 n)" by (simp add: bitlen_gt_iff)
  then show ?thesis by linarith
qed

lemma rnd53_err_ulp: "2 * \<bar>rnd53 x - x\<bar> \<le> 2 ^ ex53 (rnd53 x)"
proof -
  define n where "n = nat \<bar>x\<bar>"
  have 1: "2 * \<bar>int (round53 n) - int n\<bar> \<le> 2 ^ (bitlen n - 53)"
    unfolding round53_def by (rule rne_half)
  have 2: "\<bar>rnd53 x - x\<bar> = \<bar>int (round53 n) - int n\<bar>"
    unfolding n_def rnd53_def by (cases "0 \<le> x") (auto simp: sgn_if)
  have "bitlen n - 53 \<le> bitlen (round53 n) - 53" using bitlen_round53_ge [of n] by simp
  then have "bitlen n - 53 \<le> ex53 (rnd53 x)" unfolding ex53_def abs_rnd53 n_def by simp
  then have 3: "(2::int) ^ (bitlen n - 53) \<le> 2 ^ ex53 (rnd53 x)" by simp
  show ?thesis unfolding 2 using 1 3 by (rule order_trans)
qed

lemma quick_two_sum_normalized:
  assumes "finite64 a" "finite64 b" "\<bar>units b\<bar> \<le> \<bar>units a\<bar>" "finite64 (dadd a b)"
  shows "finite64 (lo (quick_two_sum a b)) \<and>
         2 * \<bar>units (lo (quick_two_sum a b))\<bar> \<le> ulp_units (hi (quick_two_sum a b))"
proof -
  have u: "finite64 (lo (quick_two_sum a b)) \<and>
         units (lo (quick_two_sum a b)) = units a + units b - units (dadd a b) \<and>
         units (dadd a b) = rnd53 (units a + units b)"
    using assms by (rule quick_two_sum_units)
  have "2 * \<bar>rnd53 (units a + units b) - (units a + units b)\<bar>
      \<le> 2 ^ ex53 (rnd53 (units a + units b))" by (rule rnd53_err_ulp)
  then have "2 * \<bar>units (lo (quick_two_sum a b))\<bar> \<le> 2 ^ ex53 (units (dadd a b))"
    using u by (simp add: abs_minus_commute)
  then show ?thesis using u by (simp add: ulp_units_def quick_two_sum_eq)
qed

section \<open>Error-free addition\<close>

text \<open>
  Claim C1 (amended). For finite doubles \<open>a\<close> and \<open>b\<close> such that neither the sum
  \<open>a + b\<close> nor the intermediate difference \<open>s - a\<close> computed by \<open>two_sum\<close> overflows,
  \<open>two_sum a b\<close> returns \<open>(s, e)\<close> where \<open>s\<close> is the correctly rounded sum, \<open>e\<close> is
  finite, and \<open>s + e = a + b\<close> holds exactly in the real numbers.
\<close>

theorem two_sum_exact:
  assumes "finite64 a" "finite64 b" "finite64 (dadd a b)" "finite64 (dsub (dadd a b) a)"
  shows "hi (two_sum a b) = dadd a b \<and>
         units (dadd a b) = rnd53 (units a + units b) \<and>
         finite64 (lo (two_sum a b)) \<and>
         valof (hi (two_sum a b)) + valof (lo (two_sum a b)) = valof a + valof b"
proof -
  have h: "hi (two_sum a b) = dadd a b" by (simp add: two_sum_eq)
  have u: "finite64 (lo (two_sum a b)) \<and>
         units (lo (two_sum a b)) = units a + units b - units (dadd a b) \<and>
         units (dadd a b) = rnd53 (units a + units b)"
    using assms by (rule two_sum_units)
  then have "units (hi (two_sum a b)) + units (lo (two_sum a b)) = units a + units b"
    unfolding h by simp
  then have "valof (hi (two_sum a b)) + valof (lo (two_sum a b)) = valof a + valof b"
    unfolding valof_sum by simp
  then show ?thesis using h u by simp
qed

theorem two_sum_exact_witness:
  "finite64 (DFin False (2 ^ 53)) \<and> finite64 (DFin False 1) \<and>
   finite64 (dadd (DFin False (2 ^ 53)) (DFin False 1)) \<and>
   finite64 (dsub (dadd (DFin False (2 ^ 53)) (DFin False 1)) (DFin False (2 ^ 53))) \<and>
   hi (two_sum (DFin False (2 ^ 53)) (DFin False 1)) = dadd (DFin False (2 ^ 53)) (DFin False 1) \<and>
   units (dadd (DFin False (2 ^ 53)) (DFin False 1)) = rnd53 (units (DFin False (2 ^ 53)) + units (DFin False 1)) \<and>
   finite64 (lo (two_sum (DFin False (2 ^ 53)) (DFin False 1))) \<and>
   valof (hi (two_sum (DFin False (2 ^ 53)) (DFin False 1))) +
     valof (lo (two_sum (DFin False (2 ^ 53)) (DFin False 1))) =
   valof (DFin False (2 ^ 53)) + valof (DFin False 1)"
proof -
  have h1: "finite64 (DFin False (2 ^ 53))"
    unfolding finite64.simps by (rule representableI [of 1]) simp_all
  have h2: "finite64 (DFin False 1)"
    unfolding finite64.simps by (rule representableI [of 0]) simp_all
  have s: "dadd (DFin False (2 ^ 53)) (DFin False 1) = DFin False (2 ^ 53)"
    by (rule trans [OF dadd_eval [where q="2 ^ 52" and d=1 and r=1]]) (simp_all add: sval_def)
  have h3: "finite64 (dadd (DFin False (2 ^ 53)) (DFin False 1))"
    unfolding s by (rule h1)
  have v: "dsub (DFin False (2 ^ 53)) (DFin False (2 ^ 53)) = DFin False 0"
    unfolding dsub_def dneg.simps by (rule trans [OF dadd_eval_small]) (simp_all add: sval_def)
  have h4: "finite64 (dsub (dadd (DFin False (2 ^ 53)) (DFin False 1)) (DFin False (2 ^ 53)))"
    unfolding s v finite64.simps by (rule representable_0)
  show ?thesis using two_sum_exact [OF h1 h2 h3 h4] h1 h2 h3 h4 by blast
qed

theorem two_sum_exact_counterexample:
  "finite64 big_a \<and> finite64 DBL_MAX \<and> finite64 (dadd big_a DBL_MAX) \<and>
   lo (two_sum big_a DBL_MAX) = DNaN \<and>
   units (hi (two_sum big_a DBL_MAX)) + units (lo (two_sum big_a DBL_MAX)) \<noteq>
   units big_a + units DBL_MAX"
proof -
  have "units big_s + units DNaN \<noteq> units big_a + units DBL_MAX"
    by (simp add: DBL_MAX_def big_a_def big_s_def sval_def)
  then show ?thesis
    using finite64_big_a finite64_DBL_MAX finite64_big_s
    unfolding two_sum_big_a_MAX big_a_plus_MAX by simp
qed

section \<open>Conversions\<close>

lemma to_from_double: "dd_to_double (dd_from_double x) = dadd x d_zero"
  by (simp add: dd_to_double_def dd_from_double_def)

lemma finite64_d_one: "finite64 d_one"
  unfolding d_one_def finite64.simps by (rule representableI [of 1074]) simp_all

text \<open>
  Claim C5 (amended). For every finite double \<open>x\<close>, \<open>dd_to_double (dd_from_double x)\<close>
  has exactly the value of \<open>x\<close>; it is \<open>x\<close> itself unless \<open>x\<close> is \<open>-0.0\<close>, for which the
  result is \<open>+0.0\<close>.
\<close>

theorem round_trip:
  assumes "finite64 x"
  shows "valof (dd_to_double (dd_from_double x)) = valof x \<and>
         (x \<noteq> neg_zero \<longrightarrow> dd_to_double (dd_from_double x) = x) \<and>
         (x = neg_zero \<longrightarrow> dd_to_double (dd_from_double x) = d_zero)"
proof -
  have *: "dadd x d_zero = (if x = neg_zero then d_zero else x)"
    using assms by (intro dadd_zero_right finite64_is_double)
  show ?thesis
  proof (cases "x = neg_zero")
    case True
    then show ?thesis using * unfolding to_from_double by (simp add: valof_def)
  next
    case False
    then show ?thesis using * unfolding to_from_double by simp
  qed
qed

theorem round_trip_witness:
  "finite64 d_one \<and> d_one \<noteq> neg_zero \<and> dd_to_double (dd_from_double d_one) = d_one \<and>
   finite64 neg_zero \<and> dd_to_double (dd_from_double neg_zero) = d_zero \<and>
   valof (dd_to_double (dd_from_double neg_zero)) = valof neg_zero"
proof -
  have ne: "d_one \<noteq> neg_zero" by (simp add: d_one_def neg_zero_def)
  show ?thesis
    using round_trip [OF finite64_d_one] round_trip [OF finite64_zero(2)] ne finite64_d_one
    by (simp add: valof_def)
qed

theorem round_trip_counterexample:
  "finite64 neg_zero \<and> dd_to_double (dd_from_double neg_zero) \<noteq> neg_zero"
  unfolding to_from_double
  by (simp add: neg_zero_def d_zero_def of_exact_def sval_def representable_0)

section \<open>Adding a scalar\<close>

text \<open>
  Claim C8. For every double-double \<open>A\<close> and every double \<open>b\<close>, \<open>dd_add_d A b\<close> returns
  the same pair as \<open>dd_add A (dd_from_double b)\<close>. (\<open>A\<close> is a pair of doubles: its low
  word is a well-formed double.)
\<close>

theorem dd_add_d_eq_dd_add:
  assumes "is_double (lo A)"
  shows "dd_add_d A b = dd_add A (dd_from_double b)"
proof -
  define e where "e = lo (two_sum (hi A) b)"
  have ne: "e \<noteq> neg_zero" unfolding e_def by (rule two_sum_lo_not_neg_zero)
  have "dadd (dadd (lo A) d_zero) e = dadd (lo A) e"
  proof (cases "lo A = neg_zero")
    case True
    then show ?thesis using dadd_zero_right [OF assms] dadd_neg_zero_left [OF ne] by simp
  next
    case False
    then show ?thesis using dadd_zero_right [OF assms] by simp
  qed
  then show ?thesis
    unfolding dd_add_d_def dd_add_def Let_def e_def by (simp add: dd_from_double_def)
qed

theorem dd_add_d_eq_dd_add_witness:
  "is_double (lo \<lparr>hi = d_one, lo = neg_zero\<rparr>) \<and>
   dd_add_d \<lparr>hi = d_one, lo = neg_zero\<rparr> d_one =
   dd_add \<lparr>hi = d_one, lo = neg_zero\<rparr> (dd_from_double d_one)"
proof -
  have h: "is_double (lo \<lparr>hi = d_one, lo = neg_zero\<rparr>)"
    by (simp add: neg_zero_def representable_0)
  show ?thesis using dd_add_d_eq_dd_add [OF h] h by blast
qed

section \<open>Commutativity of addition\<close>


lemma dd_add_eq: "dd_add A B =
  quick_two_sum (dadd (hi A) (hi B)) (dadd (dadd (lo A) (lo B)) (lo (two_sum (hi A) (hi B))))"
  by (simp add: dd_add_def Let_def two_sum_eq)



section \<open>An intermediate overflow\<close>








lemma zero_plus_zero: "dadd d_zero d_zero = d_zero"
  by (simp add: d_zero_def of_exact_def sval_def)


lemma dd_add_big_a_MAX:
  "dd_add \<lparr>hi = big_a, lo = d_zero\<rparr> \<lparr>hi = DBL_MAX, lo = d_zero\<rparr> = \<lparr>hi = DNaN, lo = DNaN\<rparr>"
  unfolding dd_add_eq dd_real.select_convs two_sum_big_a_MAX quick_two_sum_eq dadd_nan dsub_nan ..


lemma quick_two_sum_big_a_MAX: "quick_two_sum big_a DBL_MAX = \<lparr>hi = big_s, lo = DInf True\<rparr>"
  unfolding quick_two_sum_eq big_a_plus_MAX big_s_minus_big_a
  by (simp add: dsub_fin_inf finite64_DBL_MAX)


section \<open>The ordered error-free addition\<close>

text \<open>
  Claim C7 (amended). For finite doubles \<open>a\<close>, \<open>b\<close> whose sum does not overflow,
  \<open>quick_two_sum a b\<close> returns \<open>(s, e)\<close> with \<open>s\<close> the correctly rounded sum; if
  \<open>|a| \<ge> |b|\<close> then \<open>e\<close> is finite and \<open>s + e = a + b\<close> exactly. Without the
  precondition the function still returns a pair (it is total), and \<open>e\<close> is finite
  provided the intermediate difference \<open>s - a\<close> does not overflow; \<open>e\<close> may then be
  wrong. If \<open>s - a\<close> overflows, \<open>e\<close> is the infinity of the opposite sign.
\<close>

theorem quick_two_sum_contract:
  assumes "finite64 a" "finite64 b" "finite64 (dadd a b)"
  shows "hi (quick_two_sum a b) = dadd a b \<and>
         units (dadd a b) = rnd53 (units a + units b) \<and>
         (\<bar>valof b\<bar> \<le> \<bar>valof a\<bar> \<longrightarrow>
            finite64 (lo (quick_two_sum a b)) \<and>
            valof (hi (quick_two_sum a b)) + valof (lo (quick_two_sum a b)) = valof a + valof b) \<and>
         (finite64 (dsub (dadd a b) a) \<longrightarrow> finite64 (lo (quick_two_sum a b))) \<and>
         (\<not> finite64 (dsub (dadd a b) a) \<longrightarrow>
            lo (quick_two_sum a b) = DInf (\<not> sign_of (dsub (dadd a b) a)))"
proof -
  have h: "hi (quick_two_sum a b) = dadd a b" by (simp add: quick_two_sum_eq)
  have "\<bar>rnd53 (units a + units b)\<bar> < top_units"
    using dadd_finite_iff [OF assms(1,2)] assms(3) by simp
  then have r: "units (dadd a b) = rnd53 (units a + units b)"
    using dadd_units [OF assms(1,2)] by simp
  have 1: "finite64 (lo (quick_two_sum a b)) \<and>
      valof (hi (quick_two_sum a b)) + valof (lo (quick_two_sum a b)) = valof a + valof b"
    if "\<bar>valof b\<bar> \<le> \<bar>valof a\<bar>"
  proof -
    have "\<bar>units b\<bar> \<le> \<bar>units a\<bar>" using that by (simp only: valof_abs_le)
    with assms(1,2) have u: "finite64 (lo (quick_two_sum a b)) \<and>
         units (lo (quick_two_sum a b)) = units a + units b - units (dadd a b) \<and>
         units (dadd a b) = rnd53 (units a + units b)"
      using assms(3) by (rule quick_two_sum_units)
    then have "units (hi (quick_two_sum a b)) + units (lo (quick_two_sum a b)) = units a + units b"
      unfolding h by simp
    then show ?thesis using u unfolding valof_sum by simp
  qed
  have 2: "finite64 (lo (quick_two_sum a b))" if "finite64 (dsub (dadd a b) a)"
    using assms that by (rule quick_two_sum_finite)
  have 3: "lo (quick_two_sum a b) = DInf (\<not> sign_of (dsub (dadd a b) a))"
    if nf: "\<not> finite64 (dsub (dadd a b) a)"
  proof -
    obtain g where g: "dsub (dadd a b) a = DInf g"
      using fin_or_inf_sub [OF assms(3) assms(1)] nf by blast
    show ?thesis unfolding quick_two_sum_eq dd_real.select_convs g sign_of.simps
      using assms(2) by (rule dsub_fin_inf(1))
  qed
  show ?thesis using h r 1 2 3 by blast
qed

lemma quick_two_sum_unordered:
  "quick_two_sum (DFin False 1) (DFin False (2 ^ 53 + 2)) =
   \<lparr>hi = DFin False (2 ^ 53 + 4), lo = DFin True 2\<rparr>"
proof -
  have s: "dadd (DFin False 1) (DFin False (2 ^ 53 + 2)) = DFin False (2 ^ 53 + 4)"
    by (rule trans [OF dadd_eval [where q="2 ^ 52 + 1" and d=1 and r=1]]) (simp_all add: sval_def)
  have v: "dsub (DFin False (2 ^ 53 + 4)) (DFin False 1) = DFin False (2 ^ 53 + 4)"
    unfolding dsub_def dneg.simps
    by (rule trans [OF dadd_eval [where q="2 ^ 52 + 1" and d=1 and r=1]]) (simp_all add: sval_def)
  have e: "dsub (DFin False (2 ^ 53 + 2)) (DFin False (2 ^ 53 + 4)) = DFin True 2"
    unfolding dsub_def dneg.simps
    by (rule trans [OF dadd_eval_small]) (simp_all add: sval_def)
  show ?thesis unfolding quick_two_sum_eq s v e ..
qed

lemma quick_two_sum_ordered:
  "quick_two_sum (DFin False (2 ^ 53)) (DFin False 1) = \<lparr>hi = DFin False (2 ^ 53), lo = DFin False 1\<rparr>"
proof -
  have s: "dadd (DFin False (2 ^ 53)) (DFin False 1) = DFin False (2 ^ 53)"
    by (rule trans [OF dadd_eval [where q="2 ^ 52" and d=1 and r=1]]) (simp_all add: sval_def)
  have v: "dsub (DFin False (2 ^ 53)) (DFin False (2 ^ 53)) = DFin False 0"
    unfolding dsub_def dneg.simps by (rule trans [OF dadd_eval_small]) (simp_all add: sval_def)
  have e: "dsub (DFin False 1) (DFin False 0) = DFin False 1"
    unfolding dsub_def dneg.simps by (rule trans [OF dadd_eval_small]) (simp_all add: sval_def)
  show ?thesis unfolding quick_two_sum_eq s v e ..
qed

theorem quick_two_sum_contract_witness:
  "finite64 (DFin False (2 ^ 53)) \<and> finite64 (DFin False 1) \<and>
   finite64 (dadd (DFin False (2 ^ 53)) (DFin False 1)) \<and>
   \<bar>valof (DFin False 1)\<bar> \<le> \<bar>valof (DFin False (2 ^ 53))\<bar> \<and>
   finite64 (lo (quick_two_sum (DFin False (2 ^ 53)) (DFin False 1))) \<and>
   valof (hi (quick_two_sum (DFin False (2 ^ 53)) (DFin False 1))) +
     valof (lo (quick_two_sum (DFin False (2 ^ 53)) (DFin False 1))) =
   valof (DFin False (2 ^ 53)) + valof (DFin False 1) \<and>
   finite64 (DFin False (2 ^ 53 + 2)) \<and>
   finite64 (dadd (DFin False 1) (DFin False (2 ^ 53 + 2))) \<and>
   \<not> \<bar>valof (DFin False (2 ^ 53 + 2))\<bar> \<le> \<bar>valof (DFin False 1)\<bar> \<and>
   finite64 (dsub (dadd (DFin False 1) (DFin False (2 ^ 53 + 2))) (DFin False 1)) \<and>
   finite64 (lo (quick_two_sum (DFin False 1) (DFin False (2 ^ 53 + 2)))) \<and>
   units (hi (quick_two_sum (DFin False 1) (DFin False (2 ^ 53 + 2)))) +
     units (lo (quick_two_sum (DFin False 1) (DFin False (2 ^ 53 + 2)))) \<noteq>
   units (DFin False 1) + units (DFin False (2 ^ 53 + 2)) \<and>
   finite64 big_a \<and> finite64 DBL_MAX \<and> finite64 (dadd big_a DBL_MAX) \<and>
   \<not> finite64 (dsub (dadd big_a DBL_MAX) big_a) \<and>
   lo (quick_two_sum big_a DBL_MAX) = DInf (\<not> sign_of (dsub (dadd big_a DBL_MAX) big_a))"
proof -
  have a: "finite64 (DFin False (2 ^ 53))"
    unfolding finite64.simps by (rule representableI [of 1]) simp_all
  have b: "finite64 (DFin False 1)" by (rule finite64_small) simp
  have c: "finite64 (DFin False (2 ^ 53 + 2))"
    unfolding finite64.simps by (rule representableI [of 1]) simp_all
  have c4: "finite64 (DFin False (2 ^ 53 + 4))"
    unfolding finite64.simps by (rule representableI [of 1]) simp_all
  have s1: "dadd (DFin False (2 ^ 53)) (DFin False 1) = DFin False (2 ^ 53)"
    using quick_two_sum_ordered unfolding quick_two_sum_eq by simp
  have s2: "dadd (DFin False 1) (DFin False (2 ^ 53 + 2)) = DFin False (2 ^ 53 + 4)"
    and v2: "dsub (dadd (DFin False 1) (DFin False (2 ^ 53 + 2))) (DFin False 1) = DFin False (2 ^ 53 + 4)"
    using quick_two_sum_unordered unfolding quick_two_sum_eq
    by (simp_all add: dsub_def of_exact_def mk_def Let_def sval_def split: if_splits)
  have f1: "finite64 (dadd (DFin False (2 ^ 53)) (DFin False 1))" unfolding s1 by (rule a)
  have f2: "finite64 (dadd (DFin False 1) (DFin False (2 ^ 53 + 2)))" unfolding s2 by (rule c4)
  have f3: "finite64 (dsub (dadd (DFin False 1) (DFin False (2 ^ 53 + 2))) (DFin False 1))"
    unfolding v2 by (rule c4)
  have o1: "\<bar>valof (DFin False 1)\<bar> \<le> \<bar>valof (DFin False (2 ^ 53))\<bar>"
    unfolding valof_abs_le by (simp add: sval_def)
  have o2: "\<not> \<bar>valof (DFin False (2 ^ 53 + 2))\<bar> \<le> \<bar>valof (DFin False 1)\<bar>"
    unfolding valof_abs_le by (simp add: sval_def)
  have w: "units (hi (quick_two_sum (DFin False 1) (DFin False (2 ^ 53 + 2)))) +
     units (lo (quick_two_sum (DFin False 1) (DFin False (2 ^ 53 + 2)))) \<noteq>
     units (DFin False 1) + units (DFin False (2 ^ 53 + 2))"
    unfolding quick_two_sum_unordered by (simp add: sval_def)
  have f4: "finite64 (dadd big_a DBL_MAX)" unfolding big_a_plus_MAX by (rule finite64_big_s)
  have n4: "\<not> finite64 (dsub (dadd big_a DBL_MAX) big_a)"
    unfolding big_a_plus_MAX big_s_minus_big_a by simp
  show ?thesis
    using quick_two_sum_contract [OF a b f1] quick_two_sum_contract [OF b c f2]
      quick_two_sum_contract [OF finite64_big_a finite64_DBL_MAX f4]
      a b c f1 f2 f3 o1 o2 w finite64_big_a finite64_DBL_MAX f4 n4 by blast
qed

theorem quick_two_sum_contract_counterexample:
  "finite64 big_a \<and> finite64 DBL_MAX \<and> finite64 (dadd big_a DBL_MAX) \<and>
   \<not> \<bar>valof DBL_MAX\<bar> \<le> \<bar>valof big_a\<bar> \<and>
   quick_two_sum big_a DBL_MAX = \<lparr>hi = big_s, lo = DInf True\<rparr> \<and>
   \<not> finite64 (lo (quick_two_sum big_a DBL_MAX))"
proof -
  have "\<not> \<bar>valof DBL_MAX\<bar> \<le> \<bar>valof big_a\<bar>"
    unfolding valof_abs_le by (simp add: DBL_MAX_def big_a_def sval_def)
  then show ?thesis
    unfolding quick_two_sum_big_a_MAX big_a_plus_MAX
    using finite64_big_a finite64_DBL_MAX finite64_big_s by simp
qed

section \<open>Adding two embedded scalars\<close>

lemma dd_add_neg_zeros:
  "dd_add (dd_from_double neg_zero) (dd_from_double neg_zero) = \<lparr>hi = d_zero, lo = d_zero\<rparr>"
  "two_sum neg_zero neg_zero = \<lparr>hi = neg_zero, lo = d_zero\<rparr>"
  by (simp_all add: dd_add_def two_sum_def quick_two_sum_def dd_from_double_def neg_zero_def
      d_zero_def dsub_def of_exact_def sval_def Let_def)

lemma dd_add_from_double_eq:
  assumes "finite64 a" "finite64 b" "finite64 (dadd a b)" "finite64 (dsub (dadd a b) a)"
    and "\<not> (a = neg_zero \<and> b = neg_zero)"
  shows "dd_add (dd_from_double a) (dd_from_double b) = two_sum a b"
proof -
  define s where "s = dadd a b"
  define e where "e = lo (two_sum a b)"
  have u: "finite64 e \<and> units e = units a + units b - units s \<and>
      units s = rnd53 (units a + units b)"
    unfolding e_def s_def using assms(1-4) by (rule two_sum_units)
  have fs: "finite64 s" using assms(3) by (simp add: s_def)
  have fe: "finite64 e" using u by simp
  have ne: "e \<noteq> neg_zero" unfolding e_def by (rule two_sum_lo_not_neg_zero)
  have ts: "two_sum a b = \<lparr>hi = s, lo = e\<rparr>" unfolding s_def e_def by (simp add: two_sum_eq)
  have l: "dadd (dadd d_zero d_zero) e = e"
    using dadd_zero_left [OF finite64_is_double [OF fe]] ne by (simp add: zero_plus_zero)
  have se: "units s + units e = units a + units b" using u by simp
  have "\<bar>rnd53 (units s + units e)\<bar> < top_units"
    unfolding se using u finite64_less [OF fs] by simp
  then have d: "finite64 (dadd s e) \<and> units (dadd s e) = units s"
    using dadd_units [OF fs fe] u unfolding se by simp
  have hs: "dadd s e = s"
  proof (cases "units s = 0")
    case False
    then show ?thesis using d fs by (intro units_inj) simp_all
  next
    case True
    then have "units a + units b = 0" using u by (simp add: rnd53_eq_0_iff)
    then have "units e = 0" using u True by simp
    then have e0: "e = d_zero" using fe ne by (intro units_zero)
    have "s \<noteq> neg_zero" unfolding s_def dadd_neg_zero_iff using assms(5) .
    then show ?thesis unfolding e0 using dadd_zero_right [OF finite64_is_double [OF fs]] by simp
  qed
  have "quick_two_sum s e = \<lparr>hi = s, lo = e\<rparr>"
    unfolding quick_two_sum_eq hs dsub_self [OF fs] dsub_zero_right [OF finite64_is_double [OF fe]] ..
  then show ?thesis
    unfolding dd_add_eq dd_from_double_def dd_real.select_convs s_def [symmetric]
      e_def [symmetric] l ts .
qed

text \<open>
  Claim C10 (amended). For finite doubles \<open>a\<close>, \<open>b\<close> such that neither \<open>a + b\<close> nor the
  intermediate \<open>s - a\<close> of \<open>two_sum\<close> overflows, \<open>dd_add (dd_from_double a)
  (dd_from_double b)\<close> is exactly the pair \<open>two_sum a b\<close>, except that for
  \<open>a = b = -0.0\<close> it is \<open>(+0.0, +0.0)\<close> where \<open>two_sum\<close> gives \<open>(-0.0, +0.0)\<close>; in every
  case its \<open>hi + lo\<close> equals \<open>a + b\<close> exactly.
\<close>

theorem dd_add_from_double:
  assumes "finite64 a" "finite64 b" "finite64 (dadd a b)" "finite64 (dsub (dadd a b) a)"
  shows "dd_add (dd_from_double a) (dd_from_double b) =
           (if a = neg_zero \<and> b = neg_zero then \<lparr>hi = d_zero, lo = d_zero\<rparr> else two_sum a b) \<and>
         valof (hi (dd_add (dd_from_double a) (dd_from_double b))) +
           valof (lo (dd_add (dd_from_double a) (dd_from_double b))) = valof a + valof b"
proof (cases "a = neg_zero \<and> b = neg_zero")
  case True
  then show ?thesis by (simp add: dd_add_neg_zeros valof_def)
next
  case False
  with assms have eq: "dd_add (dd_from_double a) (dd_from_double b) = two_sum a b"
    by (rule dd_add_from_double_eq)
  have u: "finite64 (lo (two_sum a b)) \<and>
      units (lo (two_sum a b)) = units a + units b - units (dadd a b) \<and>
      units (dadd a b) = rnd53 (units a + units b)"
    using assms by (rule two_sum_units)
  have "hi (two_sum a b) = dadd a b" by (simp add: two_sum_eq)
  then have "units (hi (two_sum a b)) + units (lo (two_sum a b)) = units a + units b"
    using u by simp
  then have v: "valof (hi (two_sum a b)) + valof (lo (two_sum a b)) = valof a + valof b"
    unfolding valof_sum by simp
  show ?thesis unfolding eq if_not_P [OF False] using v by simp
qed

theorem dd_add_from_double_witness:
  "finite64 (DFin False (2 ^ 53)) \<and> finite64 (DFin False 1) \<and>
   finite64 (dadd (DFin False (2 ^ 53)) (DFin False 1)) \<and>
   finite64 (dsub (dadd (DFin False (2 ^ 53)) (DFin False 1)) (DFin False (2 ^ 53))) \<and>
   \<not> (DFin False (2 ^ 53) = neg_zero \<and> DFin False 1 = neg_zero) \<and>
   dd_add (dd_from_double (DFin False (2 ^ 53))) (dd_from_double (DFin False 1)) =
     two_sum (DFin False (2 ^ 53)) (DFin False 1) \<and>
   valof (hi (dd_add (dd_from_double (DFin False (2 ^ 53))) (dd_from_double (DFin False 1)))) +
     valof (lo (dd_add (dd_from_double (DFin False (2 ^ 53))) (dd_from_double (DFin False 1)))) =
   valof (DFin False (2 ^ 53)) + valof (DFin False 1)"
proof -
  have h1: "finite64 (DFin False (2 ^ 53))"
    unfolding finite64.simps by (rule representableI [of 1]) simp_all
  have h2: "finite64 (DFin False 1)" by (rule finite64_small) simp
  have s: "dadd (DFin False (2 ^ 53)) (DFin False 1) = DFin False (2 ^ 53)"
    by (rule trans [OF dadd_eval [where q="2 ^ 52" and d=1 and r=1]]) (simp_all add: sval_def)
  have h3: "finite64 (dadd (DFin False (2 ^ 53)) (DFin False 1))"
    unfolding s by (rule h1)
  have h4: "finite64 (dsub (dadd (DFin False (2 ^ 53)) (DFin False 1)) (DFin False (2 ^ 53)))"
    unfolding s dsub_self [OF h1] by simp
  have n: "\<not> (DFin False (2 ^ 53) = neg_zero \<and> DFin False 1 = neg_zero)"
    by (simp add: neg_zero_def)
  note t = dd_add_from_double [OF h1 h2 h3 h4, unfolded if_not_P [OF n]]
  show ?thesis using t h1 h2 h3 h4 n by blast
qed

theorem dd_add_from_double_counterexample:
  "finite64 neg_zero \<and> finite64 (dadd neg_zero neg_zero) \<and>
   dd_add (dd_from_double neg_zero) (dd_from_double neg_zero) \<noteq> two_sum neg_zero neg_zero \<and>
   finite64 big_a \<and> finite64 DBL_MAX \<and> finite64 (dadd big_a DBL_MAX) \<and>
   dd_add (dd_from_double big_a) (dd_from_double DBL_MAX) = \<lparr>hi = DNaN, lo = DNaN\<rparr> \<and>
   two_sum big_a DBL_MAX = \<lparr>hi = big_s, lo = DNaN\<rparr> \<and>
   dd_add (dd_from_double big_a) (dd_from_double DBL_MAX) \<noteq> two_sum big_a DBL_MAX"
proof -
  have 1: "dadd neg_zero neg_zero = neg_zero" by (simp add: neg_zero_def of_exact_def sval_def)
  have 2: "d_zero \<noteq> neg_zero" by (simp add: neg_zero_def d_zero_def)
  have 3: "big_s \<noteq> DNaN" by (simp add: big_s_def)
  have 4: "dd_add (dd_from_double big_a) (dd_from_double DBL_MAX) = \<lparr>hi = DNaN, lo = DNaN\<rparr>"
    unfolding dd_from_double_def by (rule dd_add_big_a_MAX)
  show ?thesis
    unfolding dd_add_neg_zeros 1 4 two_sum_big_a_MAX big_a_plus_MAX
    using 2 3 finite64_big_a finite64_DBL_MAX finite64_big_s by simp
qed

section \<open>Cancellation\<close>

lemma representableI2: "n = q * 2 ^ k \<Longrightarrow> q \<le> 2 ^ 53 \<Longrightarrow> n < 2 ^ 2098 \<Longrightarrow> representable n"
proof -
  assume n: "n = q * 2 ^ k" and q: "q \<le> 2 ^ 53" and b: "n < 2 ^ 2098"
  have "q * 2 ^ k \<le> 2 ^ 53 * 2 ^ k" using q by (rule mult_le_mono1)
  then have "n \<le> 2 ^ (k + 53)" unfolding n by (simp add: power_add mult.commute)
  moreover have "2 ^ k dvd n" unfolding n by simp
  ultimately show ?thesis using b by (intro representableI [of k])
qed

lemma finite64_lit: "finite64 lit_1e_16"
  unfolding lit_1e_16_def finite64.simps
  by (rule representableI2 [where q="4 * 2028240960365167" and k=968]) simp_all

lemma lit_not_neg_zero: "lit_1e_16 \<noteq> neg_zero"
  by (simp add: lit_1e_16_def neg_zero_def)

lemma one_plus_lit: "dadd d_one lit_1e_16 = d_one"
  unfolding d_one_def lit_1e_16_def
  by (rule trans [OF dadd_eval [where q="2 ^ 52" and d=1022 and r="2028240960365167 * 2 ^ 970"]])
     (simp_all add: sval_def)

lemma dneg_dneg: "dneg (dneg x) = x"
  by (cases x) simp_all

lemma neg_one_not_neg_zero: "dneg d_one \<noteq> neg_zero" "d_one \<noteq> neg_zero"
  by (simp_all add: d_one_def neg_zero_def)

lemma finite64_neg_one: "finite64 (dneg d_one)"
  by (simp add: finite64_dneg finite64_d_one)

lemma two_sum_one_lit: "two_sum d_one lit_1e_16 = \<lparr>hi = d_one, lo = lit_1e_16\<rparr>"
  unfolding two_sum_eq one_plus_lit dsub_self [OF finite64_d_one]
    dsub_zero_right [OF finite64_is_double [OF finite64_d_one]]
    dsub_zero_right [OF finite64_is_double [OF finite64_lit]]
  using dadd_zero_left [OF finite64_is_double [OF finite64_lit]] lit_not_neg_zero by simp

lemma dd_add_one_lit:
  "dd_add (dd_from_double d_one) (dd_from_double lit_1e_16) = \<lparr>hi = d_one, lo = lit_1e_16\<rparr>"
proof -
  have l: "dadd d_zero lit_1e_16 = lit_1e_16"
    using dadd_zero_left [OF finite64_is_double [OF finite64_lit]] lit_not_neg_zero by simp
  show ?thesis
    unfolding dd_add_eq dd_from_double_def dd_real.select_convs two_sum_one_lit zero_plus_zero l
      quick_two_sum_eq one_plus_lit dsub_self [OF finite64_d_one]
      dsub_zero_right [OF finite64_is_double [OF finite64_lit]] ..
qed

lemma two_sum_one_neg_one: "two_sum d_one (dneg d_one) = \<lparr>hi = d_zero, lo = d_zero\<rparr>"
proof -
  have s: "dadd d_one (dneg d_one) = d_zero"
    using dsub_self [OF finite64_d_one] by (simp add: dsub_def)
  have v: "dsub d_zero d_one = dneg d_one"
    unfolding dsub_def
    using dadd_zero_left [OF finite64_is_double [OF finite64_neg_one]] neg_one_not_neg_zero
    by simp
  have w: "dsub d_zero (dneg d_one) = d_one"
    unfolding dsub_def dneg_dneg
    using dadd_zero_left [OF finite64_is_double [OF finite64_d_one]] neg_one_not_neg_zero
    by simp
  show ?thesis
    unfolding two_sum_eq s v w dsub_self [OF finite64_d_one] dsub_self [OF finite64_neg_one]
      zero_plus_zero ..
qed

lemma dd_add_d_lit:
  "dd_add_d \<lparr>hi = d_one, lo = lit_1e_16\<rparr> (dneg d_one) = \<lparr>hi = lit_1e_16, lo = d_zero\<rparr>"
proof -
  have r: "dadd lit_1e_16 d_zero = lit_1e_16"
    using dadd_zero_right [OF finite64_is_double [OF finite64_lit]] lit_not_neg_zero by simp
  have l: "dadd d_zero lit_1e_16 = lit_1e_16"
    using dadd_zero_left [OF finite64_is_double [OF finite64_lit]] lit_not_neg_zero by simp
  show ?thesis
    unfolding dd_add_d_def Let_def dd_real.select_convs two_sum_one_neg_one r quick_two_sum_eq l
      dsub_zero_right [OF finite64_is_double [OF finite64_lit]] dsub_self [OF finite64_lit] ..
qed

lemma lit_1e_16_close: "\<bar>valof lit_1e_16 - 1 / 10 ^ 16\<bar> \<le> 1 / 2 ^ 107"
proof -
  have "valof lit_1e_16 = 2028240960365167 / 2 ^ 104"
    unfolding valof_def lit_1e_16_def units.simps sval_def
    by (simp add: power_diff [symmetric] field_simps)
  then show ?thesis by (simp add: field_simps)
qed

text \<open>
  Claim C9. With \<open>R1 = dd_add (dd_from_double 1.0) (dd_from_double 1e-16)\<close> and
  \<open>R2 = dd_add_d R1 (-1.0)\<close>, \<open>dd_to_double R2\<close> is exactly the double \<open>1e-16\<close>, whereas the
  plain double computation \<open>(1.0 + 1e-16) - 1.0\<close> is \<open>0.0\<close>. The double written
  \<open>1e-16\<close> is \<open>2028240960365167 * 2^-104\<close>, within half a unit in the last place of
  \<open>10^-16\<close>.
\<close>

theorem cancellation_preserved:
  "dd_to_double (dd_add_d (dd_add (dd_from_double d_one) (dd_from_double lit_1e_16)) (dneg d_one))
     = lit_1e_16 \<and>
   dsub (dadd d_one lit_1e_16) d_one = d_zero \<and>
   \<bar>valof lit_1e_16 - 1 / 10 ^ 16\<bar> \<le> 1 / 2 ^ 107"
proof -
  have r: "dadd lit_1e_16 d_zero = lit_1e_16"
    using dadd_zero_right [OF finite64_is_double [OF finite64_lit]] lit_not_neg_zero by simp
  have 1: "dd_to_double (dd_add_d (dd_add (dd_from_double d_one) (dd_from_double lit_1e_16))
      (dneg d_one)) = lit_1e_16"
    unfolding dd_add_one_lit dd_add_d_lit dd_to_double_def dd_real.select_convs r ..
  have 2: "dsub (dadd d_one lit_1e_16) d_one = d_zero"
    unfolding one_plus_lit by (rule dsub_self [OF finite64_d_one])
  show ?thesis using 1 2 lit_1e_16_close by blast
qed

subsection \<open>Rounding commutes with scaling by a power of two\<close>

lemma bitlen_double: "n \<noteq> 0 \<Longrightarrow> bitlen (2 * n) = Suc (bitlen n)"
  by (subst bitlen.simps) simp

lemma bitlen_scale: "n \<noteq> 0 \<Longrightarrow> bitlen (n * 2 ^ j) = bitlen n + j"
proof (induction j)
  case 0
  then show ?case by simp
next
  case (Suc j)
  have e: "n * 2 ^ Suc j = 2 * (n * 2 ^ j)" by simp
  have "n * 2 ^ j \<noteq> 0" using Suc.prems by simp
  then have "bitlen (2 * (n * 2 ^ j)) = Suc (bitlen (n * 2 ^ j))" by (rule bitlen_double)
  then show ?case unfolding e using Suc by simp
qed

lemma rne_scale: "rne (d + j) (n * 2 ^ j) = rne d n * 2 ^ j"
proof -
  have p: "(2::nat) ^ (d + j) = 2 ^ d * 2 ^ j" by (rule power_add)
  have q: "n * 2 ^ j div (2 ^ d * 2 ^ j) = n div 2 ^ d"
    by (rule div_mult_mult2) simp
  have r: "n * 2 ^ j mod (2 ^ d * 2 ^ j) = (n mod 2 ^ d) * 2 ^ j"
    by (rule mod_mult_mult2)
  have c1: "2 * (n mod 2 ^ d * 2 ^ j) < 2 ^ d * 2 ^ j \<longleftrightarrow> 2 * (n mod 2 ^ d) < 2 ^ d"
    using mult_less_cancel2 [of "2 * (n mod 2 ^ d)" "2 ^ j" "2 ^ d"] by (simp add: mult.assoc)
  have c2: "2 * (n mod 2 ^ d * 2 ^ j) = 2 ^ d * 2 ^ j \<longleftrightarrow> 2 * (n mod 2 ^ d) = 2 ^ d"
    using mult_cancel2 [of "2 * (n mod 2 ^ d)" "2 ^ j" "2 ^ d"] by (simp add: mult.assoc)
  show ?thesis unfolding rne_def Let_def p q r c1 c2 by (simp add: mult.assoc)
qed

lemma round53_scale: "round53 (n * 2 ^ j) = round53 n * 2 ^ j"
proof (cases "n = 0")
  case True
  then show ?thesis by simp
next
  case False
  show ?thesis
  proof (cases "53 \<le> bitlen n")
    case True
    then have "bitlen (n * 2 ^ j) - 53 = (bitlen n - 53) + j"
      using bitlen_scale [OF False, of j] by simp
    then show ?thesis unfolding round53_def by (simp add: rne_scale)
  next
    case small: False
    then have "n < 2 ^ 53" using bitlen_le_iff [of n 53] by simp
    then have 1: "round53 n = n" by (intro round53_id fp53_small)
    have "n * 2 ^ j \<le> 2 ^ 53 * 2 ^ j" using \<open>n < 2 ^ 53\<close> by (intro mult_le_mono1) simp
    moreover have "(2::nat) ^ (j + 53) = 2 ^ 53 * 2 ^ j" by (simp only: power_add mult.commute)
    ultimately have "n * 2 ^ j \<le> 2 ^ (j + 53)" by simp
    moreover have "2 ^ j dvd n * 2 ^ j" by simp
    ultimately have "fp53 (n * 2 ^ j)" by (rule fp53_intro [rotated])
    then show ?thesis using 1 by (simp add: round53_id)
  qed
qed

lemma fp53_iff: "fp53 n \<longleftrightarrow> round53 n = n"
  using round53_id [of n] fp53_round53 [of n] by auto

lemma fp53_scale: "fp53 (n * 2 ^ j) \<longleftrightarrow> fp53 n"
  unfolding fp53_iff round53_scale by simp

lemma nat_abs_scale: "nat \<bar>x * 2 ^ j\<bar> = nat \<bar>x\<bar> * 2 ^ j"
  by (simp add: abs_mult nat_mult_distrib nat_power_eq)

lemma rnd53_scale: "rnd53 (x * 2 ^ j) = rnd53 x * 2 ^ j"
  unfolding rnd53_def nat_abs_scale round53_scale by (simp add: sgn_mult)

lemma F53_scale: "F53 (x * 2 ^ j) \<longleftrightarrow> F53 x"
  unfolding F53_def nat_abs_scale by (rule fp53_scale)

lemma round_units_scaled: "round_units sh (n * 2 ^ sh) = round53 n"
proof (cases "n = 0")
  case True
  then show ?thesis by (simp add: round_units_def rne_def)
next
  case False
  have "max sh (bitlen (n * 2 ^ sh) - 53) = (bitlen n - 53) + sh"
    using bitlen_scale [OF False, of sh] by simp
  then show ?thesis unfolding round_units_def round53_def by (simp add: rne_scale)
qed

subsection \<open>Multiplication and fused multiply-add on finite doubles\<close>

lemma of_exact_scaled:
  "of_exact sh (N * 2 ^ sh) zs =
     (if N = 0 then DFin zs 0
      else if 2 ^ 2098 \<le> round53 (nat \<bar>N\<bar>) then DInf (N < 0)
      else DFin (N < 0) (round53 (nat \<bar>N\<bar>)))"
proof -
  have "(N * 2 ^ sh < 0) = (N < 0)" by (simp add: mult_less_0_iff)
  then show ?thesis
    unfolding of_exact_def mk_def Let_def nat_abs_scale round_units_scaled by simp
qed

lemma of_exact_units:
  assumes "\<bar>rnd53 N\<bar> < top_units"
  shows "finite64 (of_exact sh (N * 2 ^ sh) zs) \<and> units (of_exact sh (N * 2 ^ sh) zs) = rnd53 N"
proof (cases "N = 0")
  case True
  then show ?thesis unfolding of_exact_scaled by (simp add: representable_0 sval_def)
next
  case False
  have nov: "\<not> (2::nat) ^ 2098 \<le> round53 (nat \<bar>N\<bar>)"
    using assms unfolding top_le_round53 by simp
  then have "representable (round53 (nat \<bar>N\<bar>))"
    unfolding representable_def using fp53_round53 by simp
  then show ?thesis unfolding of_exact_scaled
    using False nov by (simp only: if_False finite64.simps units.simps sval_rnd53 simp_thms)
qed

lemma of_exact_overflow:
  assumes "top_units \<le> \<bar>rnd53 N\<bar>"
  shows "of_exact sh (N * 2 ^ sh) zs = DInf (N < 0)"
proof -
  have "N \<noteq> 0" using assms top_facts(7) by auto
  moreover have "(2::nat) ^ 2098 \<le> round53 (nat \<bar>N\<bar>)"
    using assms unfolding top_le_round53 .
  ultimately show ?thesis unfolding of_exact_scaled by (simp only: if_False if_True)
qed

lemma sval_mult: "sval s m * sval t n = sval (s \<noteq> t) (m * n)"
  by (simp add: sval_def)

lemma dmul_DFin:
  "dmul (DFin s m) (DFin t n) = of_exact 1074 (units (DFin s m) * units (DFin t n)) (s \<noteq> t)"
  by (simp add: sval_mult)

lemma dmul_units:
  assumes "finite64 a" "finite64 b" "units a * units b = N * 2 ^ 1074" "\<bar>rnd53 N\<bar> < top_units"
  shows "finite64 (dmul a b) \<and> units (dmul a b) = rnd53 N"
proof -
  obtain s m where a: "a = DFin s m" using finite64_D [OF assms(1)] by blast
  obtain t n where b: "b = DFin t n" using finite64_D [OF assms(2)] by blast
  show ?thesis unfolding a b dmul_DFin assms(3) [unfolded a b] using assms(4) by (rule of_exact_units)
qed

lemma dmul_overflow:
  assumes "finite64 a" "finite64 b" "units a * units b = N * 2 ^ 1074" "top_units \<le> \<bar>rnd53 N\<bar>"
  shows "dmul a b = DInf (N < 0)"
proof -
  obtain s m where a: "a = DFin s m" using finite64_D [OF assms(1)] by blast
  obtain t n where b: "b = DFin t n" using finite64_D [OF assms(2)] by blast
  show ?thesis unfolding a b dmul_DFin assms(3) [unfolded a b] using assms(4) by (rule of_exact_overflow)
qed

lemma dmul_finite_iff:
  assumes "finite64 a" "finite64 b" "units a * units b = N * 2 ^ 1074"
  shows "finite64 (dmul a b) \<longleftrightarrow> \<bar>rnd53 N\<bar> < top_units"
proof (cases "\<bar>rnd53 N\<bar> < top_units")
  case True
  then show ?thesis using dmul_units [OF assms] by simp
next
  case False
  then have "top_units \<le> \<bar>rnd53 N\<bar>" by simp
  then show ?thesis using dmul_overflow [OF assms] False by simp
qed

lemma fma_DFin:
  "fma (DFin s m) (DFin t n) (DFin u k) =
     of_exact 1074 (units (DFin s m) * units (DFin t n) + units (DFin u k) * 2 ^ 1074)
       (m * n = 0 \<and> (s \<noteq> t) \<and> u)"
  by (simp add: sval_mult)

lemma fma_units:
  assumes "finite64 a" "finite64 b" "finite64 c" "units a * units b = N * 2 ^ 1074"
    and "\<bar>rnd53 (N + units c)\<bar> < top_units"
  shows "finite64 (fma a b c) \<and> units (fma a b c) = rnd53 (N + units c)"
proof -
  obtain s m where a: "a = DFin s m" using finite64_D [OF assms(1)] by blast
  obtain t n where b: "b = DFin t n" using finite64_D [OF assms(2)] by blast
  obtain u k where c: "c = DFin u k" using finite64_D [OF assms(3)] by blast
  have e: "units (DFin s m) * units (DFin t n) + units (DFin u k) * 2 ^ 1074 =
      (N + units (DFin u k)) * 2 ^ 1074"
    using assms(4) unfolding a b by (simp add: algebra_simps)
  show ?thesis unfolding a b c fma_DFin e using assms(5) [unfolded c] by (rule of_exact_units)
qed

subsection \<open>The rounding error of a product is representable\<close>

lemma mult_err_F53_int:
  assumes "F53 a" "F53 b"
  shows "F53 (a * b - rnd53 (a * b))"
proof -
  define i j where "i = ex53 a" and "j = ex53 b"
  have "2 ^ i dvd a" "2 ^ j dvd b" unfolding i_def j_def using assms by (simp_all add: ex53_dvd)
  then have "2 ^ i * 2 ^ j dvd a * b" by (rule mult_dvd_mono)
  then have d: "2 ^ (i + j) dvd a * b" by (simp add: power_add)
  then have "2 ^ (i + j) dvd rnd53 (a * b)" by (rule rnd53_grid)
  then have dd: "2 ^ (i + j) dvd (a * b - rnd53 (a * b))" using d by (rule dvd_diff [rotated])
  have "\<bar>a\<bar> < 2 ^ (i + 53)" "\<bar>b\<bar> < 2 ^ (j + 53)" unfolding i_def j_def by (rule ex53_less)+
  then have "\<bar>a\<bar> * \<bar>b\<bar> \<le> 2 ^ (i + 53) * 2 ^ (j + 53)" by (intro mult_mono) simp_all
  then have "\<bar>a * b\<bar> \<le> 2 ^ ((i + j + 53) + 53)" by (simp add: abs_mult power_add mult_ac)
  then have "2 * \<bar>rnd53 (a * b) - a * b\<bar> \<le> 2 ^ (i + j + 53)" by (rule rnd53_half)
  then have "\<bar>rnd53 (a * b) - a * b\<bar> \<le> 2 ^ (i + j + 53)"
    using abs_ge_zero [of "rnd53 (a * b) - a * b"] by (simp only: mult_2)
  then have "\<bar>a * b - rnd53 (a * b)\<bar> \<le> 2 ^ (i + j + 53)" by (simp only: abs_minus_commute)
  with dd show ?thesis by (rule F53_intro)
qed

lemma mult_err_F53:
  assumes "F53 a" "F53 b" "a * b = N * 2 ^ j"
  shows "F53 (N - rnd53 N)"
proof -
  have "F53 (N * 2 ^ j - rnd53 (N * 2 ^ j))" using mult_err_F53_int [OF assms(1,2)] assms(3) by simp
  then have "F53 ((N - rnd53 N) * 2 ^ j)" by (simp add: rnd53_scale algebra_simps)
  then show ?thesis by (simp only: F53_scale)
qed

lemma rnd53_err_le_abs: "\<bar>rnd53 x - x\<bar> \<le> \<bar>x\<bar>"
  using rnd53_nearest [of 0 x] F53_small [of 0] by simp

lemma two_prod_fma_eq: "two_prod_fma a b = \<lparr>hi = dmul a b, lo = fma a b (dneg (dmul a b))\<rparr>"
  by (simp add: two_prod_fma_def Let_def)

lemma two_prod_fma_units:
  assumes "finite64 a" "finite64 b" "finite64 (dmul a b)" "units a * units b = N * 2 ^ 1074"
  shows "finite64 (lo (two_prod_fma a b)) \<and>
         units (lo (two_prod_fma a b)) = N - units (dmul a b) \<and>
         units (dmul a b) = rnd53 N"
proof -
  have Pb: "\<bar>rnd53 N\<bar> < top_units" using dmul_finite_iff [OF assms(1,2,4)] assms(3) by simp
  have up: "units (dmul a b) = rnd53 N" using dmul_units [OF assms(1,2,4) Pb] by simp
  have F: "F53 (N - rnd53 N)"
    using finite64_F53 [OF assms(1)] finite64_F53 [OF assms(2)] assms(4) by (rule mult_err_F53)
  then have id: "rnd53 (N - rnd53 N) = N - rnd53 N" by (rule rnd53_id)
  have "\<bar>N - rnd53 N\<bar> \<le> 2 ^ 2044"
    using rnd53_err_top(2) [OF Pb] by (simp add: abs_minus_commute)
  then have "\<bar>N - rnd53 N\<bar> < top_units" using top_facts(1,2,8) by linarith
  then have b: "\<bar>rnd53 (N + units (dneg (dmul a b)))\<bar> < top_units"
    unfolding units_dneg up using id by simp
  have fn: "finite64 (dneg (dmul a b))" using assms(3) by (simp add: finite64_dneg)
  have "finite64 (fma a b (dneg (dmul a b))) \<and>
      units (fma a b (dneg (dmul a b))) = rnd53 (N + units (dneg (dmul a b)))"
    using assms(1,2) fn assms(4) b by (rule fma_units)
  then show ?thesis unfolding two_prod_fma_eq units_dneg up using id by simp
qed

subsection \<open>Splitting an operand\<close>

lemma dvd_abs_next:
  fixes x :: int
  assumes "2 ^ k dvd x" "2 ^ n < \<bar>x\<bar>" "k \<le> n"
  shows "2 ^ n + 2 ^ k \<le> \<bar>x\<bar>"
proof -
  have "(2::int) ^ k dvd 2 ^ n" using assms(3) by (simp add: le_imp_power_dvd)
  then have "2 ^ k dvd (\<bar>x\<bar> - 2 ^ n)" using assms(1) by (simp add: dvd_diff)
  moreover have "0 < \<bar>x\<bar> - 2 ^ n" using assms(2) by simp
  ultimately have "2 ^ k \<le> \<bar>x\<bar> - 2 ^ n" by (rule zdvd_imp_le)
  then show ?thesis by simp
qed

lemma half_le: "2 * (a::int) \<le> 2 ^ Suc n \<Longrightarrow> a \<le> 2 ^ n"
  by simp

lemma split_normal:
  assumes d: "2 ^ k dvd x" and lo: "2 ^ (k + 52) \<le> \<bar>x\<bar>" and hi: "\<bar>x\<bar> < 2 ^ (k + 53)"
  defines "g \<equiv> rnd53 (134217729 * x)"
  defines "t \<equiv> rnd53 (g - x)"
  shows "split_hi x = g - t" "split_lo x = x - split_hi x"
    "2 ^ (k + 27) dvd split_hi x" "\<bar>split_hi x\<bar> \<le> 2 ^ (k + 53)"
    "2 ^ k dvd split_lo x" "\<bar>split_lo x\<bar> \<le> 2 ^ (k + 26)"
    "2 ^ (k + 79) \<le> \<bar>g\<bar>" "\<bar>t - (g - x)\<bar> \<le> 2 ^ (k + 26)"
proof -
  define T :: int where "T = 2 ^ k"
  have Tpos: "0 < T" by (simp add: T_def)
  have p: "(2::int) ^ (k + 26) = 67108864 * T" "(2::int) ^ (k + 27) = 134217728 * T"
    "(2::int) ^ (k + 28) = 268435456 * T"
    "(2::int) ^ (k + 52) = 4503599627370496 * T" "(2::int) ^ (k + 53) = 9007199254740992 * T"
    "(2::int) ^ (k + 79) = 604462909807314587353088 * T"
    "(2::int) ^ (k + 80) = 1208925819614629174706176 * T"
    "(2::int) ^ (k + 81) = 2417851639229258349412352 * T"
    by (simp_all add: T_def power_add)
  have xmax: "\<bar>x\<bar> + T \<le> 9007199254740992 * T"
    using dvd_abs_gap [OF d, of "k + 53"] hi unfolding p T_def [symmetric] by simp
  have xmin: "4503599627370496 * T \<le> \<bar>x\<bar>" using lo unfolding p .
  have cx: "\<bar>134217729 * x\<bar> = 134217729 * \<bar>x\<bar>" by (simp add: abs_mult)
  have "\<bar>134217729 * x\<bar> \<le> 2 ^ ((k + 28) + 53)"
    unfolding cx using xmax Tpos by (simp add: T_def power_add)
  then have "2 * \<bar>g - 134217729 * x\<bar> \<le> 2 ^ (k + 28)" unfolding g_def by (rule rnd53_half)
  then have e1: "\<bar>g - 134217729 * x\<bar> \<le> 134217728 * T" unfolding p by simp
  have "2 ^ (k + 79) \<le> \<bar>134217729 * x\<bar>" unfolding cx p using xmin Tpos by simp
  then show gmin: "2 ^ (k + 79) \<le> \<bar>g\<bar>" unfolding g_def by (rule rnd53_abs_ge)
  then have "2 ^ ((k + 27) + 52) \<le> \<bar>g\<bar>" by (simp add: add.assoc)
  then have gd: "2 ^ (k + 27) dvd g" unfolding g_def using F53_rnd53 by (intro F53_grid)
  have gx: "g - x = 134217728 * x + (g - 134217729 * x)" by simp
  have ax: "\<bar>134217728 * x\<bar> = 134217728 * \<bar>x\<bar>" by (simp add: abs_mult)
  have up: "\<bar>g - x\<bar> \<le> 1208925819614629174706176 * T"
    using abs_triangle_ineq [of "134217728 * x" "g - 134217729 * x"] e1 xmax
    unfolding gx [symmetric] ax by linarith
  have down: "604462909807314587353088 * T \<le> \<bar>g - x\<bar>"
  proof (cases "\<bar>x\<bar> = 2 ^ (k + 52)")
    case True
    have "2 ^ (k + 52) dvd 134217729 * x"
      using True by (metis abs_dvd_iff dvd_mult dvd_refl)
    moreover have "\<bar>134217729 * x\<bar> \<le> 2 ^ ((k + 52) + 53)"
      unfolding cx True by (simp add: power_add)
    ultimately have "F53 (134217729 * x)" by (rule F53_intro)
    then have "g = 134217729 * x" unfolding g_def by (rule rnd53_id)
    then have "g - x = 134217728 * x" by simp
    then show ?thesis unfolding ax using True p by simp
  next
    case False
    then have "2 ^ (k + 52) < \<bar>x\<bar>" using lo by simp
    then have "2 ^ (k + 52) + 2 ^ k \<le> \<bar>x\<bar>" using d by (intro dvd_abs_next) simp_all
    then have big: "4503599627370496 * T + T \<le> \<bar>x\<bar>" unfolding p T_def .
    have "\<bar>134217728 * x\<bar> - \<bar>g - 134217729 * x\<bar> \<le> \<bar>g - x\<bar>"
      using abs_triangle_ineq2 [of "134217728 * x" "- (g - 134217729 * x)"]
      unfolding gx by simp
    then show ?thesis unfolding ax using big e1 by linarith
  qed
  have "\<bar>g - x\<bar> \<le> 2 ^ ((k + 27) + 53)" using up unfolding p by (simp add: T_def power_add)
  then have "2 * \<bar>t - (g - x)\<bar> \<le> 2 ^ (k + 27)" unfolding t_def by (rule rnd53_half)
  then have e2': "\<bar>t - (g - x)\<bar> \<le> 67108864 * T" unfolding p by simp
  then show e2: "\<bar>t - (g - x)\<bar> \<le> 2 ^ (k + 26)" unfolding p .
  have "2 ^ (k + 79) \<le> \<bar>g - x\<bar>" using down unfolding p .
  then have "2 ^ (k + 79) \<le> \<bar>t\<bar>" unfolding t_def by (rule rnd53_abs_ge)
  then have "2 ^ ((k + 27) + 52) \<le> \<bar>t\<bar>" by (simp add: add.assoc)
  then have td: "2 ^ (k + 27) dvd t" unfolding t_def using F53_rnd53 by (intro F53_grid)
  have hd: "2 ^ (k + 27) dvd (g - t)" using gd td by (rule dvd_diff)
  have gt: "g - t = x - (t - (g - x))" by simp
  have "\<bar>g - t\<bar> \<le> \<bar>x\<bar> + \<bar>t - (g - x)\<bar>"
    unfolding gt by (rule abs_triangle_ineq4)
  then have "\<bar>g - t\<bar> < 2 ^ (k + 53) + 2 ^ (k + 27)" using hi e2' unfolding p using Tpos by linarith
  with hd have hb: "\<bar>g - t\<bar> \<le> 2 ^ (k + 53)" by (rule dvd_abs_bound) simp
  moreover have "(2::int) ^ ((k + 27) + 53) = 1208925819614629174706176 * T"
    by (simp add: T_def power_add)
  ultimately have "\<bar>g - t\<bar> \<le> 2 ^ ((k + 27) + 53)" unfolding p using Tpos by linarith
  with hd have "F53 (g - t)" by (rule F53_intro)
  then have "rnd53 (g - t) = g - t" by (rule rnd53_id)
  then show h: "split_hi x = g - t" unfolding split_hi_def Let_def g_def t_def .
  show "2 ^ (k + 27) dvd split_hi x" unfolding h by (rule hd)
  show "\<bar>split_hi x\<bar> \<le> 2 ^ (k + 53)" unfolding h by (rule hb)
  have "2 ^ k dvd (g - t)" using hd by (rule pow2_dvd_le [rotated]) simp
  then have ld: "2 ^ k dvd (x - (g - t))" using d by (rule dvd_diff [rotated])
  have xl: "x - (g - t) = t - (g - x)" by simp
  have lb: "\<bar>x - (g - t)\<bar> \<le> 2 ^ (k + 26)" unfolding xl by (rule e2)
  then have "\<bar>x - (g - t)\<bar> \<le> 2 ^ (k + 53)" unfolding p using Tpos by linarith
  with ld have "F53 (x - (g - t))" by (rule F53_intro)
  then have "rnd53 (x - (g - t)) = x - (g - t)" by (rule rnd53_id)
  then show l: "split_lo x = x - split_hi x" unfolding split_lo_def h .
  show "2 ^ k dvd split_lo x" unfolding l h by (rule ld)
  show "\<bar>split_lo x\<bar> \<le> 2 ^ (k + 26)" unfolding l h by (rule lb)
qed


lemma split_hi_scale: "split_hi (x * 2 ^ j) = split_hi x * 2 ^ j"
proof -
  have 1: "134217729 * (x * 2 ^ j) = (134217729 * x) * 2 ^ j" by simp
  have 2: "\<And>a b. a * 2 ^ j - b * 2 ^ j = (a - b) * (2::int) ^ j" by (simp add: left_diff_distrib)
  show ?thesis unfolding split_hi_def Let_def 1 rnd53_scale 2 ..
qed

lemma split_lo_scale: "split_lo (x * 2 ^ j) = split_lo x * 2 ^ j"
proof -
  have 2: "\<And>a b. a * 2 ^ j - b * 2 ^ j = (a - b) * (2::int) ^ j" by (simp add: left_diff_distrib)
  show ?thesis unfolding split_lo_def split_hi_scale 2 rnd53_scale ..
qed

lemma normalize_ex:
  assumes "x \<noteq> 0" "F53 x"
  obtains k j where "2 ^ k dvd x * 2 ^ j" "2 ^ (k + 52) \<le> \<bar>x * 2 ^ j\<bar>" "\<bar>x * 2 ^ j\<bar> < 2 ^ (k + 53)"
    "int k - int j = int (bitlen (nat \<bar>x\<bar>)) - 53"
proof -
  define n where "n = nat \<bar>x\<bar>"
  have n0: "n \<noteq> 0" using assms(1) by (simp add: n_def)
  show thesis
  proof (cases "53 \<le> bitlen n")
    case True
    define k where "k = bitlen n - 53"
    have 1: "2 ^ k dvd x * 2 ^ 0" using ex53_dvd [OF assms(2)] by (simp add: k_def ex53_def n_def)
    have "k + 52 < bitlen n" using True by (simp add: k_def)
    then have "2 ^ (k + 52) \<le> n" by (simp add: bitlen_gt_iff)
    then have 2: "2 ^ (k + 52) \<le> \<bar>x * 2 ^ 0\<bar>" by (simp add: n_def pow2_le_nat)
    have "bitlen n \<le> k + 53" by (simp add: k_def)
    then have "n < 2 ^ (k + 53)" by (simp add: bitlen_le_iff)
    then have 3: "\<bar>x * 2 ^ 0\<bar> < 2 ^ (k + 53)" by (simp add: n_def nat_less_pow2)
    have 4: "int k - int 0 = int (bitlen (nat \<bar>x\<bar>)) - 53"
      using True by (simp add: k_def n_def)
    show thesis using that [OF 1 2 3 4] .
  next
    case False
    define j where "j = 53 - bitlen n"
    have b: "bitlen (n * 2 ^ j) = 53" using bitlen_scale [OF n0, of j] False by (simp add: j_def)
    have 1: "2 ^ 0 dvd x * 2 ^ j" by simp
    have "52 < bitlen (n * 2 ^ j)" using b by simp
    then have "2 ^ 52 \<le> n * 2 ^ j" by (simp only: bitlen_gt_iff)
    then have 2: "2 ^ (0 + 52) \<le> \<bar>x * 2 ^ j\<bar>"
      using pow2_le_nat [of 52 "x * 2 ^ j"] unfolding nat_abs_scale n_def by simp
    have "bitlen (n * 2 ^ j) \<le> 53" using b by simp
    then have "n * 2 ^ j < 2 ^ 53" by (simp only: bitlen_le_iff)
    then have 3: "\<bar>x * 2 ^ j\<bar> < 2 ^ (0 + 53)"
      using nat_less_pow2 [of "x * 2 ^ j" 53] unfolding nat_abs_scale n_def by simp
    have 4: "int 0 - int j = int (bitlen (nat \<bar>x\<bar>)) - 53"
      using False by (simp add: j_def n_def)
    show thesis using that [OF 1 2 3 4] .
  qed
qed

lemma split_facts:
  assumes "x \<noteq> 0" "F53 x"
  obtains k j where "int k - int j = int (bitlen (nat \<bar>x\<bar>)) - 53"
    "2 ^ (k + 52) \<le> \<bar>x\<bar> * 2 ^ j" "\<bar>x\<bar> * 2 ^ j < 2 ^ (k + 53)"
    "split_lo x = x - split_hi x"
    "2 ^ (k + 27) dvd split_hi x * 2 ^ j" "\<bar>split_hi x\<bar> * 2 ^ j \<le> 2 ^ (k + 53)"
    "2 ^ k dvd split_lo x * 2 ^ j" "\<bar>split_lo x\<bar> * 2 ^ j \<le> 2 ^ (k + 26)"
    "2 ^ (k + 79) \<le> \<bar>rnd53 (134217729 * x)\<bar> * 2 ^ j"
proof -
  obtain k j where n: "2 ^ k dvd x * 2 ^ j" "2 ^ (k + 52) \<le> \<bar>x * 2 ^ j\<bar>"
    "\<bar>x * 2 ^ j\<bar> < 2 ^ (k + 53)" "int k - int j = int (bitlen (nat \<bar>x\<bar>)) - 53"
    using assms by (rule normalize_ex)
  note s = split_normal [OF n(1,2,3)]
  have ab: "\<And>y::int. \<bar>y * 2 ^ j\<bar> = \<bar>y\<bar> * 2 ^ j" by (simp add: abs_mult)
  have "split_lo x * 2 ^ j = (x - split_hi x) * 2 ^ j"
    using s(2) unfolding split_lo_scale split_hi_scale by (simp add: left_diff_distrib)
  then have l: "split_lo x = x - split_hi x" by simp
  have g: "rnd53 (134217729 * (x * 2 ^ j)) = rnd53 (134217729 * x) * 2 ^ j"
    using rnd53_scale [of "134217729 * x" j] by (simp add: mult.assoc)
  show thesis
    using that [OF n(4) n(2) [unfolded ab] n(3) [unfolded ab] l
        s(3) [unfolded split_hi_scale] s(4) [unfolded split_hi_scale ab]
        s(5) [unfolded split_lo_scale] s(6) [unfolded split_lo_scale ab]
        s(7) [unfolded g ab]] .
qed

subsection \<open>The four partial products\<close>

lemma dekker_sums:
  fixes N Nhh Nhl Nlh Nll :: int
  assumes sum: "N = Nhh + Nhl + Nlh + Nll"
    and d: "2 ^ (E + 54) dvd Nhh" "2 ^ (E + 27) dvd Nhl" "2 ^ (E + 27) dvd Nlh" "2 ^ E dvd Nll"
    and b: "\<bar>Nhl\<bar> \<le> 2 ^ (E + 79)" "\<bar>Nlh\<bar> \<le> 2 ^ (E + 79)" "\<bar>Nll\<bar> \<le> 2 ^ (E + 52)"
    and n: "2 ^ (E + 104) \<le> \<bar>N\<bar>" "\<bar>N\<bar> < 2 ^ (E + 106)"
  shows "F53 (Nhh - rnd53 N)" "F53 (Nhh - rnd53 N + Nhl)" "F53 (Nhh - rnd53 N + Nhl + Nlh)"
    "F53 (N - rnd53 N)"
    "\<bar>Nhh - rnd53 N\<bar> \<le> 2 ^ (E + 81)" "\<bar>Nhh - rnd53 N + Nhl\<bar> \<le> 2 ^ (E + 81)"
    "\<bar>Nhh - rnd53 N + Nhl + Nlh\<bar> \<le> 2 ^ (E + 81)" "\<bar>N - rnd53 N\<bar> \<le> 2 ^ (E + 81)"
    "2 ^ (E + 104) \<le> \<bar>rnd53 N\<bar>"
proof -
  define T :: int where "T = 2 ^ E"
  define p where "p = rnd53 N"
  have Tpos: "0 < T" by (simp add: T_def)
  have pw: "(2::int) ^ (E + 27) = 134217728 * T" "(2::int) ^ (E + 52) = 4503599627370496 * T"
    "(2::int) ^ (E + 53) = 9007199254740992 * T"
    "(2::int) ^ (E + 79) = 604462909807314587353088 * T"
    "(2::int) ^ (E + 80) = 1208925819614629174706176 * T"
    "(2::int) ^ (E + 81) = 2417851639229258349412352 * T"
    by (simp_all add: T_def power_add)
  have "\<bar>N\<bar> \<le> 2 ^ ((E + 53) + 53)" using n(2) by (simp add: add.assoc)
  then have "2 * \<bar>p - N\<bar> \<le> 2 ^ (E + 53)" unfolding p_def by (rule rnd53_half)
  then have err: "\<bar>p - N\<bar> \<le> 4503599627370496 * T" unfolding pw by simp
  show pmin: "2 ^ (E + 104) \<le> \<bar>rnd53 N\<bar>" using n(1) by (rule rnd53_abs_ge)
  then have "2 ^ ((E + 52) + 52) \<le> \<bar>p\<bar>" by (simp add: p_def add.assoc)
  then have pd: "2 ^ (E + 52) dvd p" unfolding p_def using F53_rnd53 by (intro F53_grid)
  have b': "\<bar>Nhl\<bar> \<le> 604462909807314587353088 * T" "\<bar>Nlh\<bar> \<le> 604462909807314587353088 * T"
    "\<bar>Nll\<bar> \<le> 4503599627370496 * T" using b unfolding pw by simp_all
  have t1: "Nhh - p = - (p - N) - Nhl - Nlh - Nll" unfolding sum by simp
  have t2: "Nhh - p + Nhl = - (p - N) - Nlh - Nll" unfolding sum by simp
  have t3: "Nhh - p + Nhl + Nlh = - (p - N) - Nll" unfolding sum by simp
  have t4: "N - p = - (p - N)" by simp
  have a1: "\<bar>Nhh - p\<bar> \<le> \<bar>p - N\<bar> + \<bar>Nhl\<bar> + \<bar>Nlh\<bar> + \<bar>Nll\<bar>" unfolding t1 by linarith
  have a2: "\<bar>Nhh - p + Nhl\<bar> \<le> \<bar>p - N\<bar> + \<bar>Nlh\<bar> + \<bar>Nll\<bar>" unfolding t2 by linarith
  have a3: "\<bar>Nhh - p + Nhl + Nlh\<bar> \<le> \<bar>p - N\<bar> + \<bar>Nll\<bar>" unfolding t3 by linarith
  have a4: "\<bar>N - p\<bar> = \<bar>p - N\<bar>" by (rule abs_minus_commute)
  have c1: "\<bar>Nhh - p\<bar> \<le> 2 ^ (E + 81)" unfolding pw using a1 err b' Tpos by linarith
  have c2: "\<bar>Nhh - p + Nhl\<bar> \<le> 2 ^ (E + 80)" unfolding pw using a2 err b' Tpos by linarith
  have c3: "\<bar>Nhh - p + Nhl + Nlh\<bar> \<le> 2 ^ (E + 53)" unfolding pw using a3 err b' Tpos by linarith
  have c4: "\<bar>N - p\<bar> \<le> 2 ^ (E + 52)" unfolding pw using a4 err by linarith
  show "\<bar>Nhh - rnd53 N\<bar> \<le> 2 ^ (E + 81)" using c1 unfolding p_def .
  show "\<bar>Nhh - rnd53 N + Nhl\<bar> \<le> 2 ^ (E + 81)" using c2 Tpos unfolding p_def pw by linarith
  show "\<bar>Nhh - rnd53 N + Nhl + Nlh\<bar> \<le> 2 ^ (E + 81)" using c3 Tpos unfolding p_def pw by linarith
  show "\<bar>N - rnd53 N\<bar> \<le> 2 ^ (E + 81)" using c4 Tpos unfolding p_def pw by linarith
  have hh52: "2 ^ (E + 52) dvd Nhh" using d(1) by (rule pow2_dvd_le [rotated]) simp
  have d1: "2 ^ (E + 52) dvd (Nhh - p)" using hh52 pd by (rule dvd_diff)
  have "(2::int) ^ (E + 81) \<le> 2 ^ ((E + 52) + 53)" by (rule power_increasing) simp_all
  with c1 have "\<bar>Nhh - p\<bar> \<le> 2 ^ ((E + 52) + 53)" by (rule order_trans)
  with d1 show "F53 (Nhh - rnd53 N)" unfolding p_def by (rule F53_intro)
  have "2 ^ (E + 27) dvd (Nhh - p)" using d1 by (rule pow2_dvd_le [rotated]) simp
  then have d2: "2 ^ (E + 27) dvd (Nhh - p + Nhl)" using d(2) by (rule dvd_add)
  have "(2::int) ^ (E + 80) \<le> 2 ^ ((E + 27) + 53)" by (rule power_increasing) simp_all
  with c2 have "\<bar>Nhh - p + Nhl\<bar> \<le> 2 ^ ((E + 27) + 53)" by (rule order_trans)
  with d2 show "F53 (Nhh - rnd53 N + Nhl)" unfolding p_def by (rule F53_intro)
  have d3: "2 ^ (E + 27) dvd (Nhh - p + Nhl + Nlh)" using d2 d(3) by (rule dvd_add)
  have "(2::int) ^ (E + 53) \<le> 2 ^ ((E + 27) + 53)" by (rule power_increasing) simp_all
  with c3 have "\<bar>Nhh - p + Nhl + Nlh\<bar> \<le> 2 ^ ((E + 27) + 53)" by (rule order_trans)
  with d3 show "F53 (Nhh - rnd53 N + Nhl + Nlh)" unfolding p_def by (rule F53_intro)
  have "2 ^ E dvd (Nhh - p + Nhl + Nlh)" using d3 by (rule pow2_dvd_le [rotated]) simp
  then have "2 ^ E dvd (Nhh - p + Nhl + Nlh + Nll)" using d(4) by (rule dvd_add)
  then have d4: "2 ^ E dvd (N - p)" unfolding sum by (simp add: algebra_simps)
  have "(2::int) ^ (E + 52) \<le> 2 ^ (E + 53)" by (rule power_increasing) simp_all
  with c4 have "\<bar>N - p\<bar> \<le> 2 ^ (E + 53)" by (rule order_trans)
  with d4 show "F53 (N - rnd53 N)" unfolding p_def by (rule F53_intro)
qed

lemma scaled_product:
  fixes a b :: int
  assumes "2 ^ u dvd a * 2 ^ j" "2 ^ v dvd b * 2 ^ j'" "u + v = 1074 + j + j' + g"
  obtains M where "a * b = M * 2 ^ 1074" "2 ^ g dvd M"
proof -
  have "2 ^ u * 2 ^ v dvd (a * 2 ^ j) * (b * 2 ^ j')" using assms(1,2) by (rule mult_dvd_mono)
  moreover have "(2::int) ^ u * 2 ^ v = 2 ^ (1074 + g) * 2 ^ (j + j')"
    unfolding power_add [symmetric] using assms(3) by simp
  moreover have "(a * 2 ^ j) * (b * 2 ^ j') = (a * b) * 2 ^ (j + j')"
    by (simp add: power_add mult_ac)
  ultimately have "2 ^ (1074 + g) * 2 ^ (j + j') dvd (a * b) * (2::int) ^ (j + j')" by simp
  then have "2 ^ (1074 + g) dvd a * b" by simp
  then obtain M' where "a * b = 2 ^ (1074 + g) * M'" by (auto simp: dvd_def)
  then have "a * b = (M' * 2 ^ g) * 2 ^ 1074" by (simp add: power_add mult_ac)
  moreover have "2 ^ g dvd M' * 2 ^ g" by simp
  ultimately show thesis by (rule that)
qed

lemma scaled_upper:
  fixes a b M :: int
  assumes "a * b = M * 2 ^ 1074" "\<bar>a\<bar> * 2 ^ j \<le> 2 ^ s" "\<bar>b\<bar> * 2 ^ j' \<le> 2 ^ t"
    "s + t = 1074 + j + j' + w"
  shows "\<bar>M\<bar> \<le> 2 ^ w"
proof -
  have "(\<bar>a\<bar> * 2 ^ j) * (\<bar>b\<bar> * 2 ^ j') \<le> 2 ^ s * 2 ^ t"
    using assms(2,3) by (intro mult_mono) simp_all
  moreover have "(\<bar>a\<bar> * 2 ^ j) * (\<bar>b\<bar> * 2 ^ j') = \<bar>M\<bar> * 2 ^ (1074 + j + j')"
    using arg_cong [OF assms(1), of abs] by (simp add: abs_mult power_add mult_ac)
  moreover have "(2::int) ^ s * 2 ^ t = 2 ^ w * 2 ^ (1074 + j + j')"
    unfolding power_add [symmetric] using assms(4) by (simp add: add_ac)
  ultimately have "\<bar>M\<bar> * 2 ^ (1074 + j + j') \<le> 2 ^ w * (2::int) ^ (1074 + j + j')" by simp
  then show ?thesis by simp
qed

lemma scaled_lower:
  fixes a b M :: int
  assumes "a * b = M * 2 ^ 1074" "2 ^ s \<le> \<bar>a\<bar> * 2 ^ j" "2 ^ t \<le> \<bar>b\<bar> * 2 ^ j'"
    "s + t = 1074 + j + j' + w"
  shows "2 ^ w \<le> \<bar>M\<bar>"
proof -
  have "2 ^ s * 2 ^ t \<le> (\<bar>a\<bar> * 2 ^ j) * (\<bar>b\<bar> * 2 ^ j')"
    using assms(2,3) by (intro mult_mono) simp_all
  moreover have "(\<bar>a\<bar> * 2 ^ j) * (\<bar>b\<bar> * 2 ^ j') = \<bar>M\<bar> * 2 ^ (1074 + j + j')"
    using arg_cong [OF assms(1), of abs] by (simp add: abs_mult power_add mult_ac)
  moreover have "(2::int) ^ s * 2 ^ t = 2 ^ w * 2 ^ (1074 + j + j')"
    unfolding power_add [symmetric] using assms(4) by (simp add: add_ac)
  ultimately have "2 ^ w * (2::int) ^ (1074 + j + j') \<le> \<bar>M\<bar> * 2 ^ (1074 + j + j')" by simp
  then show ?thesis by simp
qed

lemma scaled_upper_strict:
  fixes a b M :: int
  assumes "a * b = M * 2 ^ 1074" "\<bar>a\<bar> * 2 ^ j < 2 ^ s" "\<bar>b\<bar> * 2 ^ j' < 2 ^ t"
    "s + t = 1074 + j + j' + w"
  shows "\<bar>M\<bar> < 2 ^ w"
proof -
  have "(\<bar>a\<bar> * 2 ^ j) * (\<bar>b\<bar> * 2 ^ j') < 2 ^ s * 2 ^ t"
    using assms(2,3) by (intro mult_strict_mono') simp_all
  moreover have "(\<bar>a\<bar> * 2 ^ j) * (\<bar>b\<bar> * 2 ^ j') = \<bar>M\<bar> * 2 ^ (1074 + j + j')"
    using arg_cong [OF assms(1), of abs] by (simp add: abs_mult power_add mult_ac)
  moreover have "(2::int) ^ s * 2 ^ t = 2 ^ w * 2 ^ (1074 + j + j')"
    unfolding power_add [symmetric] using assms(4) by (simp add: add_ac)
  ultimately have "\<bar>M\<bar> * 2 ^ (1074 + j + j') < 2 ^ w * (2::int) ^ (1074 + j + j')" by simp
  then show ?thesis by simp
qed

subsection \<open>Monotonicity of rounding against a representable bound\<close>

lemma F53_abs: "F53 \<bar>m\<bar> = F53 m" "F53 (- \<bar>m\<bar>) = F53 m"
  by (simp_all add: F53_def)

lemma rnd53_le_F53:
  assumes "F53 m" "\<bar>z\<bar> \<le> \<bar>m\<bar>"
  shows "\<bar>rnd53 z\<bar> \<le> \<bar>m\<bar>"
proof (cases "0 \<le> z")
  case True
  have "\<bar>rnd53 z - z\<bar> \<le> \<bar>\<bar>m\<bar> - z\<bar>" using assms(1) by (intro rnd53_nearest) (simp add: F53_abs)
  then show ?thesis using True assms(2) rnd53_sign(1) [OF True] by linarith
next
  case False
  then have z: "z \<le> 0" by simp
  have "\<bar>rnd53 z - z\<bar> \<le> \<bar>- \<bar>m\<bar> - z\<bar>" using assms(1) by (intro rnd53_nearest) (simp add: F53_abs)
  then show ?thesis using z assms(2) rnd53_sign(2) [OF z] by linarith
qed

lemma rnd53_ge_F53:
  assumes "F53 m" "\<bar>m\<bar> \<le> \<bar>z\<bar>"
  shows "\<bar>m\<bar> \<le> \<bar>rnd53 z\<bar>"
proof (cases "0 \<le> z")
  case True
  have "\<bar>rnd53 z - z\<bar> \<le> \<bar>\<bar>m\<bar> - z\<bar>" using assms(1) by (intro rnd53_nearest) (simp add: F53_abs)
  then show ?thesis using True assms(2) rnd53_sign(1) [OF True] by linarith
next
  case False
  then have z: "z \<le> 0" by simp
  have "\<bar>rnd53 z - z\<bar> \<le> \<bar>- \<bar>m\<bar> - z\<bar>" using assms(1) by (intro rnd53_nearest) (simp add: F53_abs)
  then show ?thesis using z assms(2) rnd53_sign(2) [OF z] by linarith
qed

subsection \<open>The operand splitting on doubles\<close>

lemma split_bounds:
  assumes "F53 x"
  shows "\<bar>rnd53 (rnd53 (134217729 * x) - x)\<bar> \<le> \<bar>rnd53 (134217729 * x)\<bar>"
    "\<bar>split_hi x\<bar> \<le> \<bar>rnd53 (134217729 * x)\<bar>" "\<bar>split_lo x\<bar> \<le> \<bar>rnd53 (134217729 * x)\<bar>"
proof -
  define g where "g = rnd53 (134217729 * x)"
  have "\<bar>x\<bar> \<le> \<bar>134217729 * x\<bar>" by (simp add: abs_mult)
  with assms have xg: "\<bar>x\<bar> \<le> \<bar>g\<bar>" unfolding g_def by (rule rnd53_ge_F53)
  have "\<bar>g - x\<bar> \<le> \<bar>g\<bar>"
  proof (cases "0 \<le> x")
    case True
    then have "0 \<le> g" unfolding g_def by (intro rnd53_sign) simp
    then show ?thesis using True xg by linarith
  next
    case False
    then have "g \<le> 0" unfolding g_def by (intro rnd53_sign) simp
    then show ?thesis using False xg by linarith
  qed
  with F53_rnd53 [of "134217729 * x"] show "\<bar>rnd53 (rnd53 (134217729 * x) - x)\<bar> \<le> \<bar>rnd53 (134217729 * x)\<bar>"
    unfolding g_def by (rule rnd53_le_F53)
  show "\<bar>split_hi x\<bar> \<le> \<bar>rnd53 (134217729 * x)\<bar>" "\<bar>split_lo x\<bar> \<le> \<bar>rnd53 (134217729 * x)\<bar>"
  proof (atomize (full), cases "x = 0")
    case True
    then show "\<bar>split_hi x\<bar> \<le> \<bar>rnd53 (134217729 * x)\<bar> \<and> \<bar>split_lo x\<bar> \<le> \<bar>rnd53 (134217729 * x)\<bar>"
      by (simp add: split_hi_def split_lo_def)
  next
    case False
    from False assms obtain k j where "int k - int j = int (bitlen (nat \<bar>x\<bar>)) - 53"
      "2 ^ (k + 52) \<le> \<bar>x\<bar> * 2 ^ j" "\<bar>x\<bar> * 2 ^ j < 2 ^ (k + 53)"
      "split_lo x = x - split_hi x" "2 ^ (k + 27) dvd split_hi x * 2 ^ j"
      and f1: "\<bar>split_hi x\<bar> * 2 ^ j \<le> 2 ^ (k + 53)"
      and "2 ^ k dvd split_lo x * 2 ^ j"
      and f2: "\<bar>split_lo x\<bar> * 2 ^ j \<le> 2 ^ (k + 26)"
      and f3: "2 ^ (k + 79) \<le> \<bar>rnd53 (134217729 * x)\<bar> * 2 ^ j"
      by (rule split_facts)
    note f = f1 f2 f3
    have "(2::int) ^ (k + 53) \<le> 2 ^ (k + 79)" "(2::int) ^ (k + 26) \<le> 2 ^ (k + 79)"
      by (rule power_increasing; simp)+
    then have "\<bar>split_hi x\<bar> * 2 ^ j \<le> \<bar>g\<bar> * 2 ^ j" "\<bar>split_lo x\<bar> * 2 ^ j \<le> \<bar>g\<bar> * 2 ^ j"
      using f unfolding g_def by linarith+
    then show "\<bar>split_hi x\<bar> \<le> \<bar>rnd53 (134217729 * x)\<bar> \<and> \<bar>split_lo x\<bar> \<le> \<bar>rnd53 (134217729 * x)\<bar>"
      unfolding g_def by simp
  qed
qed

lemma finite64_SPLIT_CONST: "finite64 SPLIT_CONST"
  unfolding SPLIT_CONST_def finite64.simps by (rule representableI [of 1074]) simp_all

lemma split_double_eq:
  "split_double a =
     (dsub (dmul SPLIT_CONST a) (dsub (dmul SPLIT_CONST a) a),
      dsub a (dsub (dmul SPLIT_CONST a) (dsub (dmul SPLIT_CONST a) a)))"
  by (simp add: split_double_def Let_def)

lemma split_double_units:
  assumes "finite64 a" "finite64 (dmul SPLIT_CONST a)"
  shows "finite64 (fst (split_double a)) \<and> units (fst (split_double a)) = split_hi (units a) \<and>
         finite64 (snd (split_double a)) \<and> units (snd (split_double a)) = split_lo (units a)"
proof -
  define x where "x = units a"
  define g where "g = rnd53 (134217729 * x)"
  define temp where "temp = dmul SPLIT_CONST a"
  have Fx: "F53 x" unfolding x_def using assms(1) by (rule finite64_F53)
  have uc: "units SPLIT_CONST * units a = (134217729 * x) * 2 ^ 1074"
    by (simp add: SPLIT_CONST_def sval_def x_def)
  have gt: "\<bar>g\<bar> < top_units"
    using dmul_finite_iff [OF finite64_SPLIT_CONST assms(1) uc] assms(2) unfolding g_def by simp
  have ut: "units temp = g" and ft: "finite64 temp"
    using dmul_units [OF finite64_SPLIT_CONST assms(1) uc] gt unfolding g_def temp_def by simp_all
  note sb = split_bounds [OF Fx, folded g_def]
  have h: "split_hi x = rnd53 (g - rnd53 (g - x))" by (simp add: split_hi_def g_def Let_def)
  have "\<bar>rnd53 (units temp - units a)\<bar> < top_units" unfolding ut x_def [symmetric] using sb(1) gt by linarith
  with ft assms(1) have t: "finite64 (dsub temp a)" "units (dsub temp a) = rnd53 (g - x)"
    using dsub_units [of temp a] unfolding ut x_def [symmetric] by simp_all
  have "\<bar>rnd53 (units temp - units (dsub temp a))\<bar> < top_units"
    unfolding ut t(2) h [symmetric] using sb(2) gt by linarith
  with ft t(1) have hh: "finite64 (dsub temp (dsub temp a))" "units (dsub temp (dsub temp a)) = split_hi x"
    using dsub_units [of temp "dsub temp a"] unfolding ut t(2) h [symmetric] by simp_all
  have "\<bar>rnd53 (units a - units (dsub temp (dsub temp a)))\<bar> < top_units"
    unfolding hh(2) x_def [symmetric] split_lo_def [symmetric] using sb(3) gt by linarith
  with assms(1) hh(1) have ll: "finite64 (dsub a (dsub temp (dsub temp a)))"
    "units (dsub a (dsub temp (dsub temp a))) = split_lo x"
    using dsub_units [of a "dsub temp (dsub temp a)"]
    unfolding hh(2) x_def [symmetric] split_lo_def [symmetric] by simp_all
  show ?thesis unfolding split_double_eq fst_conv snd_conv temp_def [symmetric] x_def [symmetric]
    using hh ll by simp
qed

subsection \<open>Dekker's product on exact integers\<close>

lemma dekker_int:
  assumes "F53 x" "F53 y" "x \<noteq> 0" "y \<noteq> 0"
    and big: "1180 \<le> bitlen (nat \<bar>x\<bar>) + bitlen (nat \<bar>y\<bar>)"
  obtains N Nhh Nhl Nlh Nll E where
    "x * y = N * 2 ^ 1074"
    "split_hi x * split_hi y = Nhh * 2 ^ 1074" "split_hi x * split_lo y = Nhl * 2 ^ 1074"
    "split_lo x * split_hi y = Nlh * 2 ^ 1074" "split_lo x * split_lo y = Nll * 2 ^ 1074"
    "F53 Nhh" "F53 Nhl" "F53 Nlh" "F53 Nll"
    "F53 (Nhh - rnd53 N)" "F53 (Nhh - rnd53 N + Nhl)" "F53 (Nhh - rnd53 N + Nhl + Nlh)"
    "Nhh - rnd53 N + Nhl + Nlh + Nll = N - rnd53 N" "F53 (N - rnd53 N)"
    "\<bar>Nhl\<bar> \<le> 2 ^ (E + 81)" "\<bar>Nlh\<bar> \<le> 2 ^ (E + 81)" "\<bar>Nll\<bar> \<le> 2 ^ (E + 81)"
    "\<bar>Nhh - rnd53 N\<bar> \<le> 2 ^ (E + 81)" "\<bar>Nhh - rnd53 N + Nhl\<bar> \<le> 2 ^ (E + 81)"
    "\<bar>Nhh - rnd53 N + Nhl + Nlh\<bar> \<le> 2 ^ (E + 81)" "\<bar>N - rnd53 N\<bar> \<le> 2 ^ (E + 81)"
    "2 ^ (E + 104) \<le> \<bar>rnd53 N\<bar>"
proof -
  from assms(3,1) obtain k j where fx: "int k - int j = int (bitlen (nat \<bar>x\<bar>)) - 53"
    "2 ^ (k + 52) \<le> \<bar>x\<bar> * 2 ^ j" "\<bar>x\<bar> * 2 ^ j < 2 ^ (k + 53)"
    "split_lo x = x - split_hi x"
    "2 ^ (k + 27) dvd split_hi x * 2 ^ j" "\<bar>split_hi x\<bar> * 2 ^ j \<le> 2 ^ (k + 53)"
    "2 ^ k dvd split_lo x * 2 ^ j" "\<bar>split_lo x\<bar> * 2 ^ j \<le> 2 ^ (k + 26)"
    "2 ^ (k + 79) \<le> \<bar>rnd53 (134217729 * x)\<bar> * 2 ^ j"
    by (rule split_facts)
  from assms(4,2) obtain k' j' where fy: "int k' - int j' = int (bitlen (nat \<bar>y\<bar>)) - 53"
    "2 ^ (k' + 52) \<le> \<bar>y\<bar> * 2 ^ j'" "\<bar>y\<bar> * 2 ^ j' < 2 ^ (k' + 53)"
    "split_lo y = y - split_hi y"
    "2 ^ (k' + 27) dvd split_hi y * 2 ^ j'" "\<bar>split_hi y\<bar> * 2 ^ j' \<le> 2 ^ (k' + 53)"
    "2 ^ k' dvd split_lo y * 2 ^ j'" "\<bar>split_lo y\<bar> * 2 ^ j' \<le> 2 ^ (k' + 26)"
    "2 ^ (k' + 79) \<le> \<bar>rnd53 (134217729 * y)\<bar> * 2 ^ j'"
    by (rule split_facts)
  have "1074 + int j + int j' \<le> int k + int k'" using fx(1) fy(1) big by linarith
  then have "1074 + j + j' \<le> k + k'" by linarith
  then obtain E where E: "k + k' = 1074 + j + j' + E" using le_Suc_ex by blast
  obtain Nhh where hh: "split_hi x * split_hi y = Nhh * 2 ^ 1074" "2 ^ (E + 54) dvd Nhh"
    using fx(5) fy(5) by (rule scaled_product [where g = "E + 54"]) (use E in simp_all)
  obtain Nhl where hl: "split_hi x * split_lo y = Nhl * 2 ^ 1074" "2 ^ (E + 27) dvd Nhl"
    using fx(5) fy(7) by (rule scaled_product [where g = "E + 27"]) (use E in simp_all)
  obtain Nlh where lh: "split_lo x * split_hi y = Nlh * 2 ^ 1074" "2 ^ (E + 27) dvd Nlh"
    using fx(7) fy(5) by (rule scaled_product [where g = "E + 27"]) (use E in simp_all)
  obtain Nll where ll: "split_lo x * split_lo y = Nll * 2 ^ 1074" "2 ^ E dvd Nll"
    using fx(7) fy(7) by (rule scaled_product [where g = E]) (use E in simp_all)
  define N where "N = Nhh + Nhl + Nlh + Nll"
  have x: "x = split_hi x + split_lo x" using fx(4) by simp
  have y: "y = split_hi y + split_lo y" using fy(4) by simp
  have "x * y = split_hi x * split_hi y + split_hi x * split_lo y + split_lo x * split_hi y
      + split_lo x * split_lo y"
    by (subst x, subst y) (simp add: algebra_simps)
  then have xy: "x * y = N * 2 ^ 1074" unfolding hh(1) hl(1) lh(1) ll(1) N_def
    by (simp add: algebra_simps)
  have bhh: "\<bar>Nhh\<bar> \<le> 2 ^ (E + 106)"
    using hh(1) fx(6) fy(6) by (rule scaled_upper) (use E in simp)
  have bhl: "\<bar>Nhl\<bar> \<le> 2 ^ (E + 79)"
    using hl(1) fx(6) fy(8) by (rule scaled_upper) (use E in simp)
  have blh: "\<bar>Nlh\<bar> \<le> 2 ^ (E + 79)"
    using lh(1) fx(8) fy(6) by (rule scaled_upper) (use E in simp)
  have bll: "\<bar>Nll\<bar> \<le> 2 ^ (E + 52)"
    using ll(1) fx(8) fy(8) by (rule scaled_upper) (use E in simp)
  have nlo: "2 ^ (E + 104) \<le> \<bar>N\<bar>"
    using xy fx(2) fy(2) by (rule scaled_lower) (use E in simp)
  have nhi: "\<bar>N\<bar> < 2 ^ (E + 106)"
    using xy fx(3) fy(3) by (rule scaled_upper_strict) (use E in simp)
  note D = dekker_sums [OF N_def hh(2) hl(2) lh(2) ll(2) bhl blh bll nlo nhi]
  have "2 ^ (E + 53) dvd Nhh" using hh(2) by (rule pow2_dvd_le [rotated]) simp
  moreover have "\<bar>Nhh\<bar> \<le> 2 ^ ((E + 53) + 53)" using bhh by (simp add: add.assoc)
  ultimately have F1: "F53 Nhh" by (rule F53_intro)
  have "(2::int) ^ (E + 79) \<le> 2 ^ ((E + 27) + 53)" by (rule power_increasing) simp_all
  then have "\<bar>Nhl\<bar> \<le> 2 ^ ((E + 27) + 53)" "\<bar>Nlh\<bar> \<le> 2 ^ ((E + 27) + 53)"
    using bhl blh by linarith+
  then have F2: "F53 Nhl" "F53 Nlh" using hl(2) lh(2) by (auto intro: F53_intro)
  have "(2::int) ^ (E + 52) \<le> 2 ^ (E + 53)" by (rule power_increasing) simp_all
  with bll have "\<bar>Nll\<bar> \<le> 2 ^ (E + 53)" by (rule order_trans)
  with ll(2) have F3: "F53 Nll" by (rule F53_intro)
  have "(2::int) ^ (E + 79) \<le> 2 ^ (E + 81)" "(2::int) ^ (E + 52) \<le> 2 ^ (E + 81)"
    by (rule power_increasing; simp)+
  then have B: "\<bar>Nhl\<bar> \<le> 2 ^ (E + 81)" "\<bar>Nlh\<bar> \<le> 2 ^ (E + 81)" "\<bar>Nll\<bar> \<le> 2 ^ (E + 81)"
    using bhl blh bll by linarith+
  have S: "Nhh - rnd53 N + Nhl + Nlh + Nll = N - rnd53 N" unfolding N_def by simp
  show thesis
    using that [OF xy hh(1) hl(1) lh(1) ll(1) F1 F2 F3 D(1,2,3) S D(4) B D(5,6,7,8,9)] .
qed

subsection \<open>The product by operand splitting on doubles\<close>

lemma two_prod_eq:
  "two_prod a b =
     \<lparr>hi = dmul a b,
      lo = dadd (dadd (dadd (dsub (dmul (fst (split_double a)) (fst (split_double b))) (dmul a b))
                  (dmul (fst (split_double a)) (snd (split_double b))))
                (dmul (snd (split_double a)) (fst (split_double b))))
             (dmul (snd (split_double a)) (snd (split_double b)))\<rparr>"
  by (simp add: two_prod_def Let_def case_prod_beta)

lemma dmul_units_F53:
  assumes "finite64 a" "finite64 b" "units a * units b = M * 2 ^ 1074" "F53 M" "\<bar>M\<bar> < top_units"
  shows "finite64 (dmul a b)" "units (dmul a b) = M"
  using dmul_units [OF assms(1,2,3)] assms(5) rnd53_id [OF assms(4)] by simp_all

lemma dadd_units_F53:
  assumes "finite64 a" "finite64 b" "units a + units b = M" "F53 M" "\<bar>M\<bar> < top_units"
  shows "finite64 (dadd a b)" "units (dadd a b) = M"
  using dadd_units [OF assms(1,2)] assms(5) rnd53_id [OF assms(4)] unfolding assms(3) by simp_all

lemma dsub_units_F53:
  assumes "finite64 a" "finite64 b" "units a - units b = M" "F53 M" "\<bar>M\<bar> < top_units"
  shows "finite64 (dsub a b)" "units (dsub a b) = M"
  using dsub_units [OF assms(1,2)] assms(5) rnd53_id [OF assms(4)] unfolding assms(3) by simp_all

lemma fma_not_neg_zero:
  assumes "finite64 a" "finite64 b" "finite64 (dmul a b)" "units (dmul a b) \<noteq> 0"
    and "units a * units b = N * 2 ^ 1074"
  shows "lo (two_prod_fma a b) \<noteq> neg_zero"
proof -
  obtain s m where a: "a = DFin s m" using finite64_D [OF assms(1)] by blast
  obtain t n where b: "b = DFin t n" using finite64_D [OF assms(2)] by blast
  note U = two_prod_fma_units [OF assms(1,2,3,5)]
  show ?thesis
  proof (cases "N - units (dmul a b) = 0")
    case False
    then have "units (lo (two_prod_fma a b)) \<noteq> 0" using U by simp
    then show ?thesis by auto
  next
    case True
    obtain u k where p: "dmul a b = DFin u k" using finite64_D [OF assms(3)] by blast
    have k: "k \<noteq> 0" using assms(4) unfolding p by (auto simp: sval_def split: if_splits)
    have N0: "N \<noteq> 0" using True assms(4) by auto
    then have "units a * units b \<noteq> 0" unfolding assms(5) by simp
    then have "m \<noteq> 0" "n \<noteq> 0" unfolding a b by (auto simp: sval_def split: if_splits)
    then have mn: "m * n \<noteq> 0" by simp
    have nk: "sval (\<not> u) k = - N" using True unfolding p by (simp add: sval_def)
    have "sval (s \<noteq> t) (m * n) = units a * units b" unfolding a b by (simp add: sval_mult)
    also have "\<dots> = N * 2 ^ 1074" by (rule assms(5))
    finally have e: "sval (s \<noteq> t) (m * n) + sval (\<not> u) k * 2 ^ 1074 = 0"
      unfolding nk mult_minus_left by (simp only: add.right_inverse)
    have "lo (two_prod_fma a b) = DFin False 0"
      unfolding two_prod_fma_eq dd_real.select_convs p unfolding a b dneg.simps fma.simps e
        of_exact_def using mn by simp
    then show ?thesis by (simp add: neg_zero_def)
  qed
qed

subsection \<open>Evaluating a product on concrete operands\<close>

lemma round_units_norm:
  assumes "n = q * 2 ^ (sh + d) + r" "r < 2 ^ (sh + d)" "2 ^ 52 \<le> q" "q < 2 ^ 53"
  shows "round_units sh n =
    (if 2 * r < 2 ^ (sh + d) \<or> (2 * r = 2 ^ (sh + d) \<and> even q) then q else q + 1) * 2 ^ d"
proof -
  define e where "e = sh + d"
  have "2 ^ 52 * 2 ^ e \<le> q * 2 ^ e" using assms(3) by (rule mult_le_mono1)
  moreover have "(2::nat) ^ (e + 52) = 2 ^ 52 * 2 ^ e" by (simp only: power_add mult.commute)
  ultimately have lo: "2 ^ (e + 52) \<le> n" unfolding assms(1) e_def [symmetric] by linarith
  have "q + 1 \<le> 2 ^ 53" using assms(4) by simp
  then have "(q + 1) * 2 ^ e \<le> 2 ^ 53 * 2 ^ e" by (rule mult_le_mono1)
  moreover have "(2::nat) ^ Suc (e + 52) = 2 ^ 53 * 2 ^ e" by (simp add: power_add)
  moreover have "(q + 1) * 2 ^ e = q * 2 ^ e + 2 ^ e" by (simp add: algebra_simps)
  ultimately have hi: "n < 2 ^ Suc (e + 52)"
    unfolding assms(1) e_def [symmetric] using assms(2) [folded e_def] by linarith
  have "bitlen n = Suc (e + 52)" using lo hi by (rule bitlen_eqI)
  then have m: "max sh (bitlen n - 53) = e" by (simp add: e_def)
  have q: "n div 2 ^ e = q" unfolding assms(1) e_def [symmetric] using assms(2) [folded e_def] by simp
  have r: "n mod 2 ^ e = r" unfolding assms(1) e_def [symmetric] using assms(2) [folded e_def] by simp
  have "\<And>c::nat. c * 2 ^ e div 2 ^ sh = c * 2 ^ d"
    unfolding e_def by (simp add: power_add mult.assoc [symmetric])
  then show ?thesis unfolding round_units_def m rne_def q r Let_def e_def [symmetric] by simp
qed

lemma round_units_sub:
  assumes "n = q * 2 ^ sh + r" "r < 2 ^ sh" "q < 2 ^ 53"
  shows "round_units sh n =
    (if 2 * r < 2 ^ sh \<or> (2 * r = 2 ^ sh \<and> even q) then q else q + 1)"
proof -
  have "q + 1 \<le> 2 ^ 53" using assms(3) by simp
  then have "(q + 1) * 2 ^ sh \<le> 2 ^ 53 * 2 ^ sh" by (rule mult_le_mono1)
  moreover have "(2::nat) ^ (sh + 53) = 2 ^ 53 * 2 ^ sh" by (simp add: power_add)
  moreover have "(q + 1) * 2 ^ sh = q * 2 ^ sh + 2 ^ sh" by (simp add: algebra_simps)
  ultimately have "n < 2 ^ (sh + 53)" unfolding assms(1) using assms(2) by linarith
  then have "bitlen n \<le> sh + 53" by (simp add: bitlen_le_iff)
  then have m: "max sh (bitlen n - 53) = sh" by simp
  have q: "n div 2 ^ sh = q" unfolding assms(1) using assms(2) by simp
  have r: "n mod 2 ^ sh = r" unfolding assms(1) using assms(2) by simp
  show ?thesis unfolding round_units_def m rne_def q r Let_def by simp
qed

lemma of_exact_norm:
  assumes "nat \<bar>i\<bar> = q * 2 ^ (sh + d) + r" "r < 2 ^ (sh + d)" "2 ^ 52 \<le> q" "q < 2 ^ 53"
  shows "of_exact sh i zs =
    (let k = (if 2 * r < 2 ^ (sh + d) \<or> (2 * r = 2 ^ (sh + d) \<and> even q) then q else q + 1) * 2 ^ d
     in if 2 ^ 2098 \<le> k then DInf (i < 0) else DFin (i < 0) k)"
proof -
  have "q \<noteq> 0" using assms(3) by auto
  then have "i \<noteq> 0" using assms(1) by auto
  then show ?thesis unfolding of_exact_def mk_def Let_def round_units_norm [OF assms] by simp
qed

lemma of_exact_sub:
  assumes "nat \<bar>i\<bar> = q * 2 ^ sh + r" "r < 2 ^ sh" "q < 2 ^ 53" "i \<noteq> 0"
  shows "of_exact sh i zs =
    DFin (i < 0) (if 2 * r < 2 ^ sh \<or> (2 * r = 2 ^ sh \<and> even q) then q else q + 1)"
proof -
  have "q + 1 \<le> 2 ^ 53" using assms(3) by simp
  moreover have "(2::nat) ^ 53 < 2 ^ 2098" by (rule power_strict_increasing) simp_all
  ultimately have "\<not> 2 ^ 2098 \<le> q" "\<not> 2 ^ 2098 \<le> q + 1" by linarith+
  then show ?thesis
    unfolding of_exact_def mk_def Let_def round_units_sub [OF assms(1,2,3)] using assms(4)
    by (simp only: if_False split: if_split) simp
qed

lemma sval_pos: "k \<noteq> 0 \<Longrightarrow> nat \<bar>sval s k\<bar> = k" "k \<noteq> 0 \<Longrightarrow> (sval s k < 0) = s" "k \<noteq> 0 \<Longrightarrow> sval s k \<noteq> 0"
  by (simp_all add: sval_def)

lemma dmul_eval_norm:
  assumes "m * n = q * 2 ^ (1074 + d) + r" "r < 2 ^ (1074 + d)" "2 ^ 52 \<le> q" "q < 2 ^ 53"
  shows "dmul (DFin s m) (DFin t n) =
    (let k = (if 2 * r < 2 ^ (1074 + d) \<or> (2 * r = 2 ^ (1074 + d) \<and> even q) then q else q + 1) * 2 ^ d
     in if 2 ^ 2098 \<le> k then DInf (s \<noteq> t) else DFin (s \<noteq> t) k)"
proof -
  have "q \<noteq> 0" using assms(3) by auto
  then have z: "m * n \<noteq> 0" unfolding assms(1) by simp
  have a: "nat \<bar>sval (s \<noteq> t) (m * n)\<bar> = q * 2 ^ (1074 + d) + r"
    unfolding sval_pos(1) [OF z] by (rule assms(1))
  show ?thesis unfolding dmul.simps of_exact_norm [OF a assms(2,3,4)] sval_pos(2) [OF z] ..
qed

lemma dmul_eval_sub:
  assumes "m * n = q * 2 ^ 1074 + r" "r < 2 ^ 1074" "q < 2 ^ 53" "m * n \<noteq> 0"
  shows "dmul (DFin s m) (DFin t n) =
    DFin (s \<noteq> t) (if 2 * r < 2 ^ 1074 \<or> (2 * r = 2 ^ 1074 \<and> even q) then q else q + 1)"
proof -
  have a: "nat \<bar>sval (s \<noteq> t) (m * n)\<bar> = q * 2 ^ 1074 + r"
    unfolding sval_pos(1) [OF assms(4)] by (rule assms(1))
  show ?thesis
    unfolding dmul.simps of_exact_sub [OF a assms(2,3) sval_pos(3) [OF assms(4)]]
      sval_pos(2) [OF assms(4)] ..
qed

lemma dmul_eval_zero: "m * n = 0 \<Longrightarrow> dmul (DFin s m) (DFin t n) = DFin (s \<noteq> t) 0"
  by (simp add: of_exact_def sval_def)

lemma fma_eval_norm:
  assumes "nat \<bar>sval (s \<noteq> t) (m * n) + sval u k * 2 ^ 1074\<bar> = q * 2 ^ (1074 + d) + r"
    "r < 2 ^ (1074 + d)" "2 ^ 52 \<le> q" "q < 2 ^ 53"
  shows "fma (DFin s m) (DFin t n) (DFin u k) =
    (let j = (if 2 * r < 2 ^ (1074 + d) \<or> (2 * r = 2 ^ (1074 + d) \<and> even q) then q else q + 1) * 2 ^ d
     in if 2 ^ 2098 \<le> j then DInf (sval (s \<noteq> t) (m * n) + sval u k * 2 ^ 1074 < 0)
        else DFin (sval (s \<noteq> t) (m * n) + sval u k * 2 ^ 1074 < 0) j)"
  unfolding fma.simps of_exact_norm [OF assms] ..

lemma fma_eval_sub:
  assumes "nat \<bar>sval (s \<noteq> t) (m * n) + sval u k * 2 ^ 1074\<bar> = q * 2 ^ 1074 + r"
    "r < 2 ^ 1074" "q < 2 ^ 53" "sval (s \<noteq> t) (m * n) + sval u k * 2 ^ 1074 \<noteq> 0"
  shows "fma (DFin s m) (DFin t n) (DFin u k) =
    DFin (sval (s \<noteq> t) (m * n) + sval u k * 2 ^ 1074 < 0)
      (if 2 * r < 2 ^ 1074 \<or> (2 * r = 2 ^ 1074 \<and> even q) then q else q + 1)"
  unfolding fma.simps of_exact_sub [OF assms] ..

lemma fma_eval_zero:
  assumes "sval (s \<noteq> t) (m * n) + sval u k * 2 ^ 1074 = 0"
  shows "fma (DFin s m) (DFin t n) (DFin u k) = DFin (m * n = 0 \<and> (s \<noteq> t) \<and> u) 0"
  unfolding fma.simps assms by (simp add: of_exact_def)

lemma dadd_eval_zero:
  assumes "sval s m + sval t n = 0"
  shows "dadd (DFin s m) (DFin t n) = DFin (s \<and> t) 0"
  unfolding dadd.simps assms by (simp add: of_exact_def)

subsection \<open>Products with a zero operand, and the sign of a zero error term\<close>

lemma split_zero [simp]: "split_hi 0 = 0" "split_lo 0 = 0"
  by (simp_all add: split_hi_def split_lo_def)

lemma dmul_zero_units:
  assumes "finite64 x" "finite64 y" "units x * units y = 0"
  shows "finite64 (dmul x y)" "units (dmul x y) = 0"
proof -
  have "units x * units y = 0 * 2 ^ 1074" using assms(3) by simp
  moreover have "\<bar>rnd53 0\<bar> < top_units" using top_facts(7) by simp
  ultimately show "finite64 (dmul x y)" "units (dmul x y) = 0"
    using dmul_units [OF assms(1,2), of 0] by simp_all
qed

lemma dadd_zero_units:
  assumes "finite64 x" "finite64 y" "units x = 0" "units y = 0"
  shows "finite64 (dadd x y)" "units (dadd x y) = 0"
  using dadd_units [OF assms(1,2)] top_facts(7) unfolding assms(3,4) by simp_all

lemma dsub_zero_units:
  assumes "finite64 x" "finite64 y" "units x = 0" "units y = 0"
  shows "finite64 (dsub x y)" "units (dsub x y) = 0"
  using dsub_units [OF assms(1,2)] top_facts(7) unfolding assms(3,4) by simp_all

lemma two_prod_units_zero:
  assumes fa: "finite64 a" and fb: "finite64 b" and z: "units a * units b = 0"
    and sa: "finite64 (dmul SPLIT_CONST a)" and sb: "finite64 (dmul SPLIT_CONST b)"
  shows "finite64 (lo (two_prod a b)) \<and> units (lo (two_prod a b)) = 0 \<and>
         finite64 (dmul a b) \<and> units (dmul a b) = 0"
proof -
  define ah where "ah = fst (split_double a)"
  define al where "al = snd (split_double a)"
  define bh where "bh = fst (split_double b)"
  define bl where "bl = snd (split_double b)"
  define p where "p = dmul a b"
  note A = split_double_units [OF fa sa, folded ah_def al_def]
  note B = split_double_units [OF fb sb, folded bh_def bl_def]
  have fah: "finite64 ah" and fal: "finite64 al" and fbh: "finite64 bh" and fbl: "finite64 bl"
    using A B by simp_all
  have "units a = 0 \<or> units b = 0" using z by simp
  then have "(units ah = 0 \<and> units al = 0) \<or> (units bh = 0 \<and> units bl = 0)"
    using A B by auto
  then have zz: "units ah * units bh = 0" "units ah * units bl = 0" "units al * units bh = 0"
    "units al * units bl = 0" by auto
  note P = dmul_zero_units [OF fa fb z, folded p_def]
  note hh = dmul_zero_units [OF fah fbh zz(1)]
  note hl = dmul_zero_units [OF fah fbl zz(2)]
  note lh = dmul_zero_units [OF fal fbh zz(3)]
  note ll = dmul_zero_units [OF fal fbl zz(4)]
  note t1 = dsub_zero_units [OF hh(1) P(1) hh(2) P(2)]
  note t2 = dadd_zero_units [OF t1(1) hl(1) t1(2) hl(2)]
  note t3 = dadd_zero_units [OF t2(1) lh(1) t2(2) lh(2)]
  note t4 = dadd_zero_units [OF t3(1) ll(1) t3(2) ll(2)]
  show ?thesis
    unfolding two_prod_eq dd_real.select_convs ah_def [symmetric] al_def [symmetric]
      bh_def [symmetric] bl_def [symmetric] p_def [symmetric]
    using t4 P by simp
qed

text \<open>The high part of a split operand carries the sign of the operand.\<close>

lemma split_hi_sign:
  assumes "x \<noteq> 0" "F53 x"
  shows "(split_hi x < 0) = (x < 0)" "split_hi x \<noteq> 0"
proof -
  from assms obtain k j where "int k - int j = int (bitlen (nat \<bar>x\<bar>)) - 53"
    and lo: "2 ^ (k + 52) \<le> \<bar>x\<bar> * 2 ^ j" and "\<bar>x\<bar> * 2 ^ j < 2 ^ (k + 53)"
    and l: "split_lo x = x - split_hi x" and "2 ^ (k + 27) dvd split_hi x * 2 ^ j"
    and "\<bar>split_hi x\<bar> * 2 ^ j \<le> 2 ^ (k + 53)"
    and "2 ^ k dvd split_lo x * 2 ^ j"
    and b: "\<bar>split_lo x\<bar> * 2 ^ j \<le> 2 ^ (k + 26)"
    and "2 ^ (k + 79) \<le> \<bar>rnd53 (134217729 * x)\<bar> * 2 ^ j"
    by (rule split_facts)
  have "(2::int) ^ (k + 26) < 2 ^ (k + 52)" by (rule power_strict_increasing) simp_all
  then have "\<bar>split_lo x\<bar> * 2 ^ j < \<bar>x\<bar> * 2 ^ j" using lo b by linarith
  then have "\<bar>x - split_hi x\<bar> < \<bar>x\<bar>" unfolding l by simp
  then show "(split_hi x < 0) = (x < 0)" "split_hi x \<noteq> 0" by linarith+
qed

lemma sign_of_units: "finite64 x \<Longrightarrow> units x \<noteq> 0 \<Longrightarrow> sign_of x = (units x < 0)"
  by (cases x) (auto simp: sval_def split: if_splits)

lemma split_double_sign:
  assumes "finite64 a" "finite64 (dmul SPLIT_CONST a)"
  shows "sign_of (fst (split_double a)) = sign_of a"
proof (cases "units a = 0")
  case True
  obtain s m where a: "a = DFin s m" using finite64_D [OF assms(1)] by blast
  have m: "m = 0" using True unfolding a by (simp add: sval_def split: if_splits)
  have 1: "dmul SPLIT_CONST (DFin s 0) = DFin s 0"
    unfolding SPLIT_CONST_def by (rule trans [OF dmul_eval_zero]) simp_all
  have 2: "dsub (DFin s 0) (DFin s 0) = DFin False 0"
    unfolding dsub_def dneg.simps by (rule trans [OF dadd_eval_zero]) (simp_all add: sval_def)
  have 3: "dsub (DFin s 0) (DFin False 0) = DFin s 0"
    unfolding dsub_def dneg.simps by (rule trans [OF dadd_eval_zero]) (simp_all add: sval_def)
  show ?thesis unfolding a m split_double_eq fst_conv 1 2 3 by simp
next
  case False
  note A = split_double_units [OF assms]
  have F: "F53 (units a)" using assms(1) by (rule finite64_F53)
  note S = split_hi_sign [OF False F]
  have "sign_of (fst (split_double a)) = (units (fst (split_double a)) < 0)"
    using A S(2) by (intro sign_of_units) simp_all
  also have "\<dots> = (units a < 0)" using A S(1) by simp
  also have "\<dots> = sign_of a" using sign_of_units [OF assms(1) False] by simp
  finally show ?thesis .
qed

lemma dmul_zero_sign:
  assumes "finite64 x" "finite64 y" "units x * units y = 0"
  shows "dmul x y = DFin (sign_of x \<noteq> sign_of y) 0"
proof -
  obtain s m where x: "x = DFin s m" using finite64_D [OF assms(1)] by blast
  obtain t n where y: "y = DFin t n" using finite64_D [OF assms(2)] by blast
  have "m * n = 0" using assms(3) unfolding x y by (auto simp: sval_def split: if_splits)
  then show ?thesis unfolding x y sign_of.simps by (rule dmul_eval_zero)
qed

lemma two_prod_zero_sign:
  assumes fa: "finite64 a" and fb: "finite64 b" and z: "units a * units b = 0"
    and sa: "finite64 (dmul SPLIT_CONST a)" and sb: "finite64 (dmul SPLIT_CONST b)"
  shows "lo (two_prod a b) \<noteq> neg_zero"
proof -
  note A = split_double_units [OF fa sa]
  note B = split_double_units [OF fb sb]
  have "units a = 0 \<or> units b = 0" using z by simp
  then have "units (fst (split_double a)) * units (fst (split_double b)) = 0" using A B by auto
  then have "dmul (fst (split_double a)) (fst (split_double b)) =
      DFin (sign_of (fst (split_double a)) \<noteq> sign_of (fst (split_double b))) 0"
    using A B by (intro dmul_zero_sign) simp_all
  then have hh: "dmul (fst (split_double a)) (fst (split_double b)) = dmul a b"
    unfolding split_double_sign [OF fa sa] split_double_sign [OF fb sb]
      dmul_zero_sign [OF fa fb z] .
  have "\<not> (dmul a b = neg_zero \<and> dmul a b = d_zero)" by (auto simp: neg_zero_def d_zero_def)
  then have "dsub (dmul (fst (split_double a)) (fst (split_double b))) (dmul a b) \<noteq> neg_zero"
    unfolding dsub_neg_zero_iff hh .
  then show ?thesis unfolding two_prod_eq dd_real.select_convs dadd_neg_zero_iff by simp
qed

lemma two_prod_fma_zero:
  assumes "finite64 a" "finite64 b" "units a * units b = 0"
  shows "lo (two_prod_fma a b) = d_zero"
proof -
  obtain s m where a: "a = DFin s m" using finite64_D [OF assms(1)] by blast
  obtain t n where b: "b = DFin t n" using finite64_D [OF assms(2)] by blast
  have mn: "m * n = 0" using assms(3) unfolding a b by (auto simp: sval_def split: if_splits)
  have p: "dmul (DFin s m) (DFin t n) = DFin (s \<noteq> t) 0" using mn by (rule dmul_eval_zero)
  have e0: "sval (s \<noteq> t) (m * n) + sval (\<not> (s \<noteq> t)) 0 * 2 ^ 1074 = 0"
    by (simp add: mn sval_def)
  have c: "(m * n = 0 \<and> (s \<noteq> t) \<and> \<not> (s \<noteq> t)) = False" by blast
  have f: "fma (DFin s m) (DFin t n) (DFin (\<not> (s \<noteq> t)) 0) = DFin False 0"
    using fma_eval_zero [OF e0] unfolding c .
  show ?thesis unfolding two_prod_fma_eq dd_real.select_convs a b p dneg.simps f d_zero_def ..
qed

section \<open>Products of particular doubles\<close>

subsection \<open>The product of the smallest subnormal and one half\<close>

lemma tiny_1: "dmul denorm_min d_half = DFin False 0"
  unfolding d_half_def denorm_min_def
  by (rule trans [OF dmul_eval_sub [where q="0" and r="2 ^ 1073"]]) simp_all

lemma tiny_2: "dmul SPLIT_CONST denorm_min = DFin False 134217729"
  unfolding SPLIT_CONST_def denorm_min_def
  by (rule trans [OF dmul_eval_sub [where q="134217729" and r="0"]]) simp_all

lemma tiny_3: "dsub (DFin False 134217729) denorm_min = DFin False (2 ^ 27)"
  unfolding dsub_def denorm_min_def dneg.simps
  by (rule trans [OF dadd_eval_small]) (simp_all add: sval_def)

lemma tiny_4: "dsub (DFin False 134217729) (DFin False (2 ^ 27)) = denorm_min"
  unfolding dsub_def denorm_min_def dneg.simps
  by (rule trans [OF dadd_eval_small]) (simp_all add: sval_def)

lemma tiny_5: "dsub denorm_min denorm_min = DFin False 0"
  unfolding dsub_def denorm_min_def dneg.simps
  by (rule trans [OF dadd_eval_zero]) (simp_all add: sval_def)

lemma split_double_denorm_min: "split_double denorm_min = (denorm_min, DFin False 0)"
  unfolding split_double_eq tiny_2 tiny_3 tiny_4 tiny_5 ..

lemma tiny_6: "dmul SPLIT_CONST d_half = DFin False (134217729 * 2 ^ 1073)"
  unfolding SPLIT_CONST_def d_half_def
  by (rule trans [OF dmul_eval_norm [where q="134217729 * 2 ^ 25" and d=1048 and r="0"]]) simp_all

lemma tiny_7: "dsub (DFin False (134217729 * 2 ^ 1073)) d_half = DFin False (2 ^ 1100)"
  unfolding dsub_def d_half_def dneg.simps
  by (rule trans [OF dadd_eval [where q="2 ^ 52" and d=1048 and r="0"]]) (simp_all add: sval_def)

lemma tiny_8: "dsub (DFin False (134217729 * 2 ^ 1073)) (DFin False (2 ^ 1100)) = d_half"
  unfolding dsub_def d_half_def dneg.simps
  by (rule trans [OF dadd_eval [where q="2 ^ 52" and d=1021 and r="0"]]) (simp_all add: sval_def)

lemma tiny_9: "dsub d_half d_half = DFin False 0"
  unfolding dsub_def d_half_def dneg.simps
  by (rule trans [OF dadd_eval_zero]) (simp_all add: sval_def)

lemma split_double_d_half: "split_double d_half = (d_half, DFin False 0)"
  unfolding split_double_eq tiny_6 tiny_7 tiny_8 tiny_9 ..

lemma tiny_10: "dsub (DFin False 0) (DFin False 0) = DFin False 0"
  unfolding dsub_def  dneg.simps
  by (rule trans [OF dadd_eval_zero]) (simp_all add: sval_def)

lemma tiny_11: "dmul denorm_min (DFin False 0) = DFin False 0"
  unfolding denorm_min_def
  by (rule trans [OF dmul_eval_zero]) simp_all

lemma tiny_12: "dadd (DFin False 0) (DFin False 0) = DFin False 0"
  by (rule trans [OF dadd_eval_zero]) (simp_all add: sval_def)

lemma tiny_13: "dmul (DFin False 0) d_half = DFin False 0"
  unfolding d_half_def
  by (rule trans [OF dmul_eval_zero]) simp_all

lemma tiny_14: "dmul (DFin False 0) (DFin False 0) = DFin False 0"
  by (rule trans [OF dmul_eval_zero]) simp_all

lemma two_prod_tiny: "two_prod denorm_min d_half = \<lparr>hi = DFin False 0, lo = DFin False 0\<rparr>"
  unfolding two_prod_eq split_double_denorm_min split_double_d_half fst_conv snd_conv tiny_1 tiny_10 tiny_11 tiny_12 tiny_13 tiny_14 ..

lemma tiny_15: "fma denorm_min d_half (DFin True 0) = DFin False 0"
  unfolding d_half_def denorm_min_def
  by (rule trans [OF fma_eval_sub [where q="0" and r="2 ^ 1073"]]) (simp_all add: sval_def)

lemma two_prod_fma_tiny: "two_prod_fma denorm_min d_half = \<lparr>hi = DFin False 0, lo = DFin False 0\<rparr>"
  unfolding two_prod_fma_eq tiny_1  dneg.simps simp_thms tiny_15 ..

lemma tiny_finite:
  "finite64 denorm_min" "finite64 d_half" "finite64 (dmul denorm_min d_half)" "finite64 (dmul SPLIT_CONST denorm_min)" "finite64 (dmul SPLIT_CONST d_half)"
proof -
  show "finite64 denorm_min"
    unfolding denorm_min_def finite64.simps by (rule representableI [of 0]) simp_all
  show "finite64 d_half"
    unfolding d_half_def finite64.simps by (rule representableI [of 1073]) simp_all
  show "finite64 (dmul denorm_min d_half)"
    unfolding tiny_1 finite64.simps by (rule representable_0)
  show "finite64 (dmul SPLIT_CONST denorm_min)"
    unfolding tiny_2 finite64.simps by (rule representableI [of 0]) simp_all
  show "finite64 (dmul SPLIT_CONST d_half)"
    unfolding tiny_6 finite64.simps by (rule representableI [of 1073]) simp_all
qed

lemma tiny_hh: "dmul (fst (split_double denorm_min)) (fst (split_double d_half)) = DFin False 0"
  unfolding split_double_denorm_min split_double_d_half fst_conv tiny_1 ..

subsection \<open>A product that underflows\<close>

lemma small_16: "dmul small_a small_b = DFin False 33554433"
  unfolding small_a_def small_b_def
  by (rule trans [OF dmul_eval_sub [where q="2 ^ 25" and r="4503599694479361 * 2 ^ 1021"]]) simp_all

lemma small_17: "dmul SPLIT_CONST small_a = DFin False (134217731 * 2 ^ 26)"
  unfolding SPLIT_CONST_def small_a_def
  by (rule trans [OF dmul_eval_norm [where q="134217731 * 2 ^ 25" and d=1 and r="2 ^ 1074"]]) simp_all

lemma small_18: "dsub (DFin False (134217731 * 2 ^ 26)) small_a = DFin False (67108865 * 2 ^ 27)"
  unfolding dsub_def small_a_def dneg.simps
  by (rule trans [OF dadd_eval [where q="4503599694479359" and d=1 and r="1"]]) (simp_all add: sval_def)

lemma small_19: "dsub (DFin False (134217731 * 2 ^ 26)) (DFin False (67108865 * 2 ^ 27)) = DFin False (2 ^ 26)"
  unfolding dsub_def  dneg.simps
  by (rule trans [OF dadd_eval_small]) (simp_all add: sval_def)

lemma small_20: "dsub small_a (DFin False (2 ^ 26)) = denorm_min"
  unfolding dsub_def denorm_min_def small_a_def dneg.simps
  by (rule trans [OF dadd_eval_small]) (simp_all add: sval_def)

lemma split_double_small_a: "split_double small_a = (DFin False (2 ^ 26), denorm_min)"
  unfolding split_double_eq small_17 small_18 small_19 small_20 ..

lemma small_21: "dmul SPLIT_CONST small_b = DFin False (4503599660924929 * 2 ^ 1048)"
  unfolding SPLIT_CONST_def small_b_def
  by (rule trans [OF dmul_eval_norm [where q="4503599660924929" and d=1048 and r="2 ^ 2095"]]) simp_all

lemma small_22: "dsub (DFin False (4503599660924929 * 2 ^ 1048)) small_b = DFin False (4503599627370497 * 2 ^ 1048)"
  unfolding dsub_def small_b_def dneg.simps
  by (rule trans [OF dadd_eval [where q="2 ^ 52" and d=1048 and r="134217727 * 2 ^ 1021"]]) (simp_all add: sval_def)

lemma small_23: "dsub (DFin False (4503599660924929 * 2 ^ 1048)) (DFin False (4503599627370497 * 2 ^ 1048)) = d_half"
  unfolding dsub_def d_half_def dneg.simps
  by (rule trans [OF dadd_eval [where q="2 ^ 52" and d=1021 and r="0"]]) (simp_all add: sval_def)

lemma small_24: "dsub small_b d_half = DFin False (2 ^ 1021)"
  unfolding dsub_def d_half_def small_b_def dneg.simps
  by (rule trans [OF dadd_eval [where q="2 ^ 52" and d=969 and r="0"]]) (simp_all add: sval_def)

lemma split_double_small_b: "split_double small_b = (d_half, DFin False (2 ^ 1021))"
  unfolding split_double_eq small_21 small_22 small_23 small_24 ..

lemma small_25: "dmul (DFin False (2 ^ 26)) d_half = DFin False (2 ^ 25)"
  unfolding d_half_def
  by (rule trans [OF dmul_eval_sub [where q="2 ^ 25" and r="0"]]) simp_all

lemma small_26: "dsub (DFin False (2 ^ 25)) (DFin False 33554433) = DFin True 1"
  unfolding dsub_def  dneg.simps
  by (rule trans [OF dadd_eval_small]) (simp_all add: sval_def)

lemma small_27: "dmul (DFin False (2 ^ 26)) (DFin False (2 ^ 1021)) = DFin False 0"
  by (rule trans [OF dmul_eval_sub [where q="0" and r="2 ^ 1047"]]) simp_all

lemma small_28: "dadd (DFin True 1) (DFin False 0) = DFin True 1"
  by (rule trans [OF dadd_eval_small]) (simp_all add: sval_def)

lemma small_29: "dmul denorm_min d_half = DFin False 0"
  unfolding d_half_def denorm_min_def
  by (rule trans [OF dmul_eval_sub [where q="0" and r="2 ^ 1073"]]) simp_all

lemma small_30: "dmul denorm_min (DFin False (2 ^ 1021)) = DFin False 0"
  unfolding denorm_min_def
  by (rule trans [OF dmul_eval_sub [where q="0" and r="2 ^ 1021"]]) simp_all

lemma two_prod_small: "two_prod small_a small_b = \<lparr>hi = DFin False 33554433, lo = DFin True 1\<rparr>"
  unfolding two_prod_eq split_double_small_a split_double_small_b fst_conv snd_conv small_16 small_25 small_26 small_27 small_28 small_29 small_30 ..

lemma small_31: "fma small_a small_b (DFin True 33554433) = DFin True 0"
  unfolding small_a_def small_b_def
  by (rule trans [OF fma_eval_sub [where q="0" and r="4503599560261631 * 2 ^ 1021"]]) (simp_all add: sval_def)

lemma two_prod_fma_small: "two_prod_fma small_a small_b = \<lparr>hi = DFin False 33554433, lo = DFin True 0\<rparr>"
  unfolding two_prod_fma_eq small_16  dneg.simps simp_thms small_31 ..

lemma small_finite:
  "finite64 small_a" "finite64 small_b" "finite64 (dmul small_a small_b)" "finite64 (dmul SPLIT_CONST small_a)" "finite64 (dmul SPLIT_CONST small_b)"
proof -
  show "finite64 small_a"
    unfolding small_a_def finite64.simps by (rule representableI [of 0]) simp_all
  show "finite64 small_b"
    unfolding small_b_def finite64.simps by (rule representableI [of 1021]) simp_all
  show "finite64 (dmul small_a small_b)"
    unfolding small_16 finite64.simps by (rule representableI [of 0]) simp_all
  show "finite64 (dmul SPLIT_CONST small_a)"
    unfolding small_17 finite64.simps by (rule representableI [of 26]) simp_all
  show "finite64 (dmul SPLIT_CONST small_b)"
    unfolding small_21 finite64.simps by (rule representableI [of 1048]) simp_all
qed

lemma small_hh: "dmul (fst (split_double small_a)) (fst (split_double small_b)) = DFin False (2 ^ 25)"
  unfolding split_double_small_a split_double_small_b fst_conv small_25 ..

subsection \<open>A square below the overflow threshold\<close>

lemma sq_32: "dmul sqrt_big sqrt_big = DFin False (4503599627370495 * 2 ^ 2046)"
  unfolding sqrt_big_def
  by (rule trans [OF dmul_eval_norm [where q="4503599627370495 * 2 ^ 1" and d=2045 and r="2 ^ 3066"]]) simp_all

lemma sq_33: "dmul SPLIT_CONST sqrt_big = DFin False (4503599660924927 * 2 ^ 1561)"
  unfolding SPLIT_CONST_def sqrt_big_def
  by (rule trans [OF dmul_eval_norm [where q="4503599660924927" and d=1561 and r="134217727 * 2 ^ 2607"]]) simp_all

lemma sq_34: "dsub (DFin False (4503599660924927 * 2 ^ 1561)) sqrt_big = DFin False (4503599627370495 * 2 ^ 1561)"
  unfolding dsub_def sqrt_big_def dneg.simps
  by (rule trans [OF dadd_eval [where q="4503599627370495 * 2 ^ 1" and d=1560 and r="2 ^ 1533"]]) (simp_all add: sval_def)

lemma sq_35: "dsub (DFin False (4503599660924927 * 2 ^ 1561)) (DFin False (4503599627370495 * 2 ^ 1561)) = DFin False (2 ^ 1586)"
  unfolding dsub_def  dneg.simps
  by (rule trans [OF dadd_eval [where q="2 ^ 52" and d=1534 and r="0"]]) (simp_all add: sval_def)

lemma sq_36: "dsub sqrt_big (DFin False (2 ^ 1586)) = DFin True (2 ^ 1533)"
  unfolding dsub_def sqrt_big_def dneg.simps
  by (rule trans [OF dadd_eval [where q="2 ^ 52" and d=1481 and r="0"]]) (simp_all add: sval_def)

lemma split_double_sqrt_big: "split_double sqrt_big = (DFin False (2 ^ 1586), DFin True (2 ^ 1533))"
  unfolding split_double_eq sq_33 sq_34 sq_35 sq_36 ..

lemma sq_37: "dmul (DFin False (2 ^ 1586)) (DFin False (2 ^ 1586)) = DInf False"
  by (rule trans [OF dmul_eval_norm [where q="2 ^ 52" and d=2046 and r="0"]]) simp_all

lemma sq_38: "dsub (DInf False) (DFin False (4503599627370495 * 2 ^ 2046)) = DInf False"
  unfolding dsub_def  dneg.simps
  by simp

lemma sq_39: "dmul (DFin False (2 ^ 1586)) (DFin True (2 ^ 1533)) = DFin True (2 ^ 2045)"
  by (rule trans [OF dmul_eval_norm [where q="2 ^ 52" and d=1993 and r="0"]]) simp_all

lemma sq_40: "dadd (DInf False) (DFin True (2 ^ 2045)) = DInf False"
  by simp

lemma sq_41: "dmul (DFin True (2 ^ 1533)) (DFin False (2 ^ 1586)) = DFin True (2 ^ 2045)"
  by (rule trans [OF dmul_eval_norm [where q="2 ^ 52" and d=1993 and r="0"]]) simp_all

lemma sq_42: "dmul (DFin True (2 ^ 1533)) (DFin True (2 ^ 1533)) = DFin False (2 ^ 1992)"
  by (rule trans [OF dmul_eval_norm [where q="2 ^ 52" and d=1940 and r="0"]]) simp_all

lemma sq_43: "dadd (DInf False) (DFin False (2 ^ 1992)) = DInf False"
  by simp

lemma two_prod_sqrt_big: "two_prod sqrt_big sqrt_big = \<lparr>hi = DFin False (4503599627370495 * 2 ^ 2046), lo = DInf False\<rparr>"
  unfolding two_prod_eq split_double_sqrt_big sq_32 fst_conv snd_conv sq_37 sq_38 sq_39 sq_40 sq_41 sq_42 sq_43 ..

lemma sq_44: "fma sqrt_big sqrt_big (DFin True (4503599627370495 * 2 ^ 2046)) = DFin False (2 ^ 1992)"
  unfolding sqrt_big_def
  by (rule trans [OF fma_eval_norm [where q="2 ^ 52" and d=1940 and r="0"]]) (simp_all add: sval_def)

lemma two_prod_fma_sqrt_big: "two_prod_fma sqrt_big sqrt_big = \<lparr>hi = DFin False (4503599627370495 * 2 ^ 2046), lo = DFin False (2 ^ 1992)\<rparr>"
  unfolding two_prod_fma_eq sq_32  dneg.simps simp_thms sq_44 ..

lemma sqrt_big_finite:
  "finite64 sqrt_big" "finite64 (dmul sqrt_big sqrt_big)" "finite64 (dmul SPLIT_CONST sqrt_big)"
proof -
  show "finite64 sqrt_big"
    unfolding sqrt_big_def finite64.simps by (rule representableI [of 1533]) simp_all
  show "finite64 (dmul sqrt_big sqrt_big)"
    unfolding sq_32 finite64.simps by (rule representableI [of 2046]) simp_all
  show "finite64 (dmul SPLIT_CONST sqrt_big)"
    unfolding sq_33 finite64.simps by (rule representableI [of 1561]) simp_all
qed

lemma sqrt_big_hh: "dmul (fst (split_double sqrt_big)) (fst (split_double sqrt_big)) = DInf False"
  unfolding split_double_sqrt_big fst_conv sq_37 ..

lemma sqrt_big_dvd: "units sqrt_big * units sqrt_big = (81129638414606663681390495662081 * 2 ^ 1992) * 2 ^ 1074"
  unfolding sqrt_big_def units.simps by (simp add: sval_def)

subsection \<open>The square of 1 + 2^-52\<close>

lemma eps_45: "dmul one_eps one_eps = DFin False (2251799813685249 * 2 ^ 1023)"
  unfolding one_eps_def
  by (rule trans [OF dmul_eval_norm [where q="2251799813685249 * 2 ^ 1" and d=1022 and r="2 ^ 2044"]]) simp_all

lemma eps_46: "dmul SPLIT_CONST one_eps = DFin False (4503599660924929 * 2 ^ 1049)"
  unfolding SPLIT_CONST_def one_eps_def
  by (rule trans [OF dmul_eval_norm [where q="4503599660924929" and d=1049 and r="2 ^ 2096"]]) simp_all

lemma eps_47: "dsub (DFin False (4503599660924929 * 2 ^ 1049)) one_eps = DFin False (4503599627370497 * 2 ^ 1049)"
  unfolding dsub_def one_eps_def dneg.simps
  by (rule trans [OF dadd_eval [where q="2 ^ 52" and d=1049 and r="134217727 * 2 ^ 1022"]]) (simp_all add: sval_def)

lemma eps_48: "dsub (DFin False (4503599660924929 * 2 ^ 1049)) (DFin False (4503599627370497 * 2 ^ 1049)) = DFin False (2 ^ 1074)"
  unfolding dsub_def  dneg.simps
  by (rule trans [OF dadd_eval [where q="2 ^ 52" and d=1022 and r="0"]]) (simp_all add: sval_def)

lemma eps_49: "dsub one_eps (DFin False (2 ^ 1074)) = DFin False (2 ^ 1022)"
  unfolding dsub_def one_eps_def dneg.simps
  by (rule trans [OF dadd_eval [where q="2 ^ 52" and d=970 and r="0"]]) (simp_all add: sval_def)

lemma split_double_one_eps: "split_double one_eps = (DFin False (2 ^ 1074), DFin False (2 ^ 1022))"
  unfolding split_double_eq eps_46 eps_47 eps_48 eps_49 ..

lemma eps_50: "dmul (DFin False (2 ^ 1074)) (DFin False (2 ^ 1074)) = DFin False (2 ^ 1074)"
  by (rule trans [OF dmul_eval_norm [where q="2 ^ 52" and d=1022 and r="0"]]) simp_all

lemma eps_51: "dsub (DFin False (2 ^ 1074)) (DFin False (2251799813685249 * 2 ^ 1023)) = DFin True (2 ^ 1023)"
  unfolding dsub_def  dneg.simps
  by (rule trans [OF dadd_eval [where q="2 ^ 52" and d=971 and r="0"]]) (simp_all add: sval_def)

lemma eps_52: "dmul (DFin False (2 ^ 1074)) (DFin False (2 ^ 1022)) = DFin False (2 ^ 1022)"
  by (rule trans [OF dmul_eval_norm [where q="2 ^ 52" and d=970 and r="0"]]) simp_all

lemma eps_53: "dadd (DFin True (2 ^ 1023)) (DFin False (2 ^ 1022)) = DFin True (2 ^ 1022)"
  by (rule trans [OF dadd_eval [where q="2 ^ 52" and d=970 and r="0"]]) (simp_all add: sval_def)

lemma eps_54: "dmul (DFin False (2 ^ 1022)) (DFin False (2 ^ 1074)) = DFin False (2 ^ 1022)"
  by (rule trans [OF dmul_eval_norm [where q="2 ^ 52" and d=970 and r="0"]]) simp_all

lemma eps_55: "dadd (DFin True (2 ^ 1022)) (DFin False (2 ^ 1022)) = DFin False 0"
  by (rule trans [OF dadd_eval_zero]) (simp_all add: sval_def)

lemma eps_56: "dmul (DFin False (2 ^ 1022)) (DFin False (2 ^ 1022)) = DFin False (2 ^ 970)"
  by (rule trans [OF dmul_eval_norm [where q="2 ^ 52" and d=918 and r="0"]]) simp_all

lemma eps_57: "dadd (DFin False 0) (DFin False (2 ^ 970)) = DFin False (2 ^ 970)"
  by (rule trans [OF dadd_eval [where q="2 ^ 52" and d=918 and r="0"]]) (simp_all add: sval_def)

lemma two_prod_one_eps: "two_prod one_eps one_eps = \<lparr>hi = DFin False (2251799813685249 * 2 ^ 1023), lo = DFin False (2 ^ 970)\<rparr>"
  unfolding two_prod_eq split_double_one_eps eps_45 fst_conv snd_conv eps_50 eps_51 eps_52 eps_53 eps_54 eps_55 eps_56 eps_57 ..

lemma eps_58: "fma one_eps one_eps (DFin True (2251799813685249 * 2 ^ 1023)) = DFin False (2 ^ 970)"
  unfolding one_eps_def
  by (rule trans [OF fma_eval_norm [where q="2 ^ 52" and d=918 and r="0"]]) (simp_all add: sval_def)

lemma two_prod_fma_one_eps: "two_prod_fma one_eps one_eps = \<lparr>hi = DFin False (2251799813685249 * 2 ^ 1023), lo = DFin False (2 ^ 970)\<rparr>"
  unfolding two_prod_fma_eq eps_45  dneg.simps simp_thms eps_58 ..

lemma one_eps_finite:
  "finite64 one_eps" "finite64 (dmul one_eps one_eps)" "finite64 (dmul SPLIT_CONST one_eps)"
proof -
  show "finite64 one_eps"
    unfolding one_eps_def finite64.simps by (rule representableI [of 1022]) simp_all
  show "finite64 (dmul one_eps one_eps)"
    unfolding eps_45 finite64.simps by (rule representableI [of 1023]) simp_all
  show "finite64 (dmul SPLIT_CONST one_eps)"
    unfolding eps_46 finite64.simps by (rule representableI [of 1049]) simp_all
qed

lemma one_eps_hh: "dmul (fst (split_double one_eps)) (fst (split_double one_eps)) = DFin False (2 ^ 1074)"
  unfolding split_double_one_eps fst_conv eps_50 ..

lemma one_eps_dvd: "units one_eps * units one_eps = (20282409603651679431146506027009 * 2 ^ 970) * 2 ^ 1074"
  unfolding one_eps_def units.simps by (simp add: sval_def)

subsection \<open>Products on the grid of the smallest subnormal\<close>

lemma odd_decomp:
  fixes x :: int
  assumes "x \<noteq> 0"
  shows "\<exists>m v. x = m * 2 ^ v \<and> odd m"
  using assms
proof (induction "nat \<bar>x\<bar>" arbitrary: x rule: less_induct)
  case less
  show ?case
  proof (cases "odd x")
    case True
    then have "x = x * 2 ^ 0 \<and> odd x" by simp
    then show ?thesis by blast
  next
    case False
    then obtain x' where x': "x = 2 * x'" by (auto elim: evenE)
    then have "x' \<noteq> 0" "nat \<bar>x'\<bar> < nat \<bar>x\<bar>" using less.prems by auto
    then obtain m v where "x' = m * 2 ^ v \<and> odd m" using less.hyps by blast
    then have "x = m * 2 ^ Suc v \<and> odd m" unfolding x' by simp
    then show ?thesis by blast
  qed
qed

lemma odd_prod_grid:
  fixes m n N :: int
  assumes "odd m" "odd n" "(m * n) * 2 ^ u = N * 2 ^ t"
  shows "t \<le> u"
proof (rule ccontr)
  assume "\<not> t \<le> u"
  then obtain d where d: "t = u + Suc d" using less_imp_Suc_add by fastforce
  have "(2::int) ^ t = 2 ^ Suc d * 2 ^ u" unfolding d by (simp only: power_add mult.commute)
  then have "(m * n) * 2 ^ u = (N * 2 ^ Suc d) * 2 ^ u"
    using assms(3) by (simp only: mult.assoc)
  then have "m * n = N * 2 ^ Suc d" by (simp only: mult_cancel_right) simp
  then have "even (m * n)" by simp
  then show False using assms(1,2) by simp
qed

lemma split_products_grid:
  assumes "x * y = N * 2 ^ 1074" "x \<noteq> 0" "y \<noteq> 0"
  shows "2 ^ 1074 dvd split_hi x * split_hi y" "2 ^ 1074 dvd split_hi x * split_lo y"
    "2 ^ 1074 dvd split_lo x * split_hi y" "2 ^ 1074 dvd split_lo x * split_lo y"
proof -
  obtain m v where x: "x = m * 2 ^ v" and m: "odd m" using odd_decomp [OF assms(2)] by blast
  obtain n w where y: "y = n * 2 ^ w" and n: "odd n" using odd_decomp [OF assms(3)] by blast
  have "(m * 2 ^ v) * (n * 2 ^ w) = (m * n) * 2 ^ (v + w)" by (simp add: power_add)
  then have "(m * n) * 2 ^ (v + w) = N * 2 ^ 1074" using assms(1) unfolding x y by (simp only:)
  with m n have le: "1074 \<le> v + w" by (rule odd_prod_grid)
  have g: "2 ^ 1074 dvd (c * 2 ^ v) * (e * 2 ^ w)" for c e :: int
  proof -
    have "(c * 2 ^ v) * (e * 2 ^ w) = (c * e) * 2 ^ (v + w)" by (simp add: power_add)
    moreover have "(2::int) ^ 1074 dvd 2 ^ (v + w)" using le by (rule le_imp_power_dvd)
    then have "(2::int) ^ 1074 dvd (c * e) * 2 ^ (v + w)" by (rule dvd_mult)
    ultimately show ?thesis by (simp only:)
  qed
  show "2 ^ 1074 dvd split_hi x * split_hi y" "2 ^ 1074 dvd split_hi x * split_lo y"
    "2 ^ 1074 dvd split_lo x * split_hi y" "2 ^ 1074 dvd split_lo x * split_lo y"
    unfolding x y split_hi_scale split_lo_scale by (rule g)+
qed

lemma scaled_cancel:
  fixes a b M :: int
  assumes "(a * 2 ^ K) * b = M' * 2 ^ 1074" "a * b = M * 2 ^ 1074"
  shows "M' = M * 2 ^ K"
proof -
  have "(a * 2 ^ K) * b = (M * 2 ^ K) * 2 ^ 1074"
    using arg_cong [OF assms(2), of "\<lambda>z. z * 2 ^ K"] by (simp only: mult_ac)
  then have "M' * 2 ^ 1074 = (M * 2 ^ K) * 2 ^ 1074" using assms(1) by simp
  then show ?thesis by simp
qed

lemma scaled_less:
  fixes u p :: int
  assumes "\<bar>u * 2 ^ K\<bar> \<le> 2 ^ (E + 81)" "2 ^ (E + 104) \<le> \<bar>p * 2 ^ K\<bar>"
  shows "\<bar>u\<bar> \<le> \<bar>p\<bar>"
proof -
  have "(2::int) ^ (E + 81) \<le> 2 ^ (E + 104)" by (rule power_increasing) simp_all
  moreover have "\<bar>u * 2 ^ K\<bar> = \<bar>u\<bar> * 2 ^ K" "\<bar>p * 2 ^ K\<bar> = \<bar>p\<bar> * 2 ^ K"
    by (simp_all add: abs_mult)
  ultimately have "\<bar>u\<bar> * 2 ^ K \<le> \<bar>p\<bar> * 2 ^ K" using assms by linarith
  then show ?thesis by simp
qed

lemma dekker_grid:
  assumes "F53 x" "F53 y" "x \<noteq> 0" "y \<noteq> 0" and N: "x * y = N * 2 ^ 1074"
  obtains Nhh Nhl Nlh Nll where
    "split_hi x * split_hi y = Nhh * 2 ^ 1074" "split_hi x * split_lo y = Nhl * 2 ^ 1074"
    "split_lo x * split_hi y = Nlh * 2 ^ 1074" "split_lo x * split_lo y = Nll * 2 ^ 1074"
    "F53 Nhh" "F53 Nhl" "F53 Nlh" "F53 Nll"
    "F53 (Nhh - rnd53 N)" "F53 (Nhh - rnd53 N + Nhl)" "F53 (Nhh - rnd53 N + Nhl + Nlh)"
    "Nhh - rnd53 N + Nhl + Nlh + Nll = N - rnd53 N" "F53 (N - rnd53 N)"
    "\<bar>Nhl\<bar> \<le> \<bar>rnd53 N\<bar>" "\<bar>Nlh\<bar> \<le> \<bar>rnd53 N\<bar>" "\<bar>Nll\<bar> \<le> \<bar>rnd53 N\<bar>"
    "\<bar>Nhh - rnd53 N\<bar> \<le> \<bar>rnd53 N\<bar>" "\<bar>Nhh - rnd53 N + Nhl\<bar> \<le> \<bar>rnd53 N\<bar>"
    "\<bar>Nhh - rnd53 N + Nhl + Nlh\<bar> \<le> \<bar>rnd53 N\<bar>" "\<bar>N - rnd53 N\<bar> \<le> \<bar>rnd53 N\<bar>"
    "rnd53 N \<noteq> 0"
proof -
  define K :: nat where "K = 1180"
  define X where "X = x * 2 ^ K"
  note G = split_products_grid [OF N assms(3,4)]
  obtain Nhh where hh: "split_hi x * split_hi y = Nhh * 2 ^ 1074"
    using G(1) by (auto simp: dvd_def mult.commute)
  obtain Nhl where hl: "split_hi x * split_lo y = Nhl * 2 ^ 1074"
    using G(2) by (auto simp: dvd_def mult.commute)
  obtain Nlh where lh: "split_lo x * split_hi y = Nlh * 2 ^ 1074"
    using G(3) by (auto simp: dvd_def mult.commute)
  obtain Nll where ll: "split_lo x * split_lo y = Nll * 2 ^ 1074"
    using G(4) by (auto simp: dvd_def mult.commute)
  have FX: "F53 X" unfolding X_def F53_scale by (rule assms(1))
  have X0: "X \<noteq> 0" unfolding X_def using assms(3) by simp
  have "2 ^ K \<le> nat \<bar>x\<bar> * 2 ^ K" using assms(3) by simp
  then have "K < bitlen (nat \<bar>X\<bar>)" unfolding X_def nat_abs_scale by (simp add: bitlen_gt_iff)
  then have big: "1180 \<le> bitlen (nat \<bar>X\<bar>) + bitlen (nat \<bar>y\<bar>)" unfolding K_def by simp
  obtain N' Nhh' Nhl' Nlh' Nll' E where
    d: "X * y = N' * 2 ^ 1074"
    "split_hi X * split_hi y = Nhh' * 2 ^ 1074" "split_hi X * split_lo y = Nhl' * 2 ^ 1074"
    "split_lo X * split_hi y = Nlh' * 2 ^ 1074" "split_lo X * split_lo y = Nll' * 2 ^ 1074"
    and F: "F53 Nhh'" "F53 Nhl'" "F53 Nlh'" "F53 Nll'"
    "F53 (Nhh' - rnd53 N')" "F53 (Nhh' - rnd53 N' + Nhl')" "F53 (Nhh' - rnd53 N' + Nhl' + Nlh')"
    and S: "Nhh' - rnd53 N' + Nhl' + Nlh' + Nll' = N' - rnd53 N'"
    and Fe: "F53 (N' - rnd53 N')"
    and bd: "\<bar>Nhl'\<bar> \<le> 2 ^ (E + 81)" "\<bar>Nlh'\<bar> \<le> 2 ^ (E + 81)" "\<bar>Nll'\<bar> \<le> 2 ^ (E + 81)"
    "\<bar>Nhh' - rnd53 N'\<bar> \<le> 2 ^ (E + 81)" "\<bar>Nhh' - rnd53 N' + Nhl'\<bar> \<le> 2 ^ (E + 81)"
    "\<bar>Nhh' - rnd53 N' + Nhl' + Nlh'\<bar> \<le> 2 ^ (E + 81)" "\<bar>N' - rnd53 N'\<bar> \<le> 2 ^ (E + 81)"
    and pm: "2 ^ (E + 104) \<le> \<bar>rnd53 N'\<bar>"
    using FX assms(2) X0 assms(4) big by (rule dekker_int)
  have e: "N' = N * 2 ^ K" "Nhh' = Nhh * 2 ^ K" "Nhl' = Nhl * 2 ^ K" "Nlh' = Nlh * 2 ^ K"
    "Nll' = Nll * 2 ^ K"
    using scaled_cancel [OF d(1) [unfolded X_def] N]
      scaled_cancel [OF d(2) [unfolded X_def split_hi_scale] hh]
      scaled_cancel [OF d(3) [unfolded X_def split_hi_scale] hl]
      scaled_cancel [OF d(4) [unfolded X_def split_lo_scale] lh]
      scaled_cancel [OF d(5) [unfolded X_def split_lo_scale] ll] by blast+
  have r: "rnd53 N' = rnd53 N * 2 ^ K" unfolding e rnd53_scale ..
  have a: "Nhh' - rnd53 N' = (Nhh - rnd53 N) * 2 ^ K"
    "Nhh' - rnd53 N' + Nhl' = (Nhh - rnd53 N + Nhl) * 2 ^ K"
    "Nhh' - rnd53 N' + Nhl' + Nlh' = (Nhh - rnd53 N + Nhl + Nlh) * 2 ^ K"
    "N' - rnd53 N' = (N - rnd53 N) * 2 ^ K"
    unfolding r unfolding e by (simp_all only: ring_distribs)
  have sum: "Nhh - rnd53 N + Nhl + Nlh + Nll = N - rnd53 N"
  proof -
    have "(Nhh - rnd53 N + Nhl + Nlh + Nll) * 2 ^ K = (N - rnd53 N) * 2 ^ K"
      using S unfolding a(3) a(4) e(5) by (simp only: ring_distribs)
    then show ?thesis by simp
  qed
  have p0: "rnd53 N \<noteq> 0"
  proof
    assume "rnd53 N = 0"
    then have "rnd53 N' = 0" unfolding r by simp
    then show False using pm by simp
  qed
  show thesis
    using that [OF hh hl lh ll F(1,2,3,4) [unfolded e F53_scale]
        F(5) [unfolded a(1) F53_scale] F(6) [unfolded a(2) F53_scale]
        F(7) [unfolded a(3) F53_scale] sum Fe [unfolded a(4) F53_scale]
        scaled_less [OF bd(1) [unfolded e] pm [unfolded r]]
        scaled_less [OF bd(2) [unfolded e] pm [unfolded r]]
        scaled_less [OF bd(3) [unfolded e] pm [unfolded r]]
        scaled_less [OF bd(4) [unfolded a(1)] pm [unfolded r]]
        scaled_less [OF bd(5) [unfolded a(2)] pm [unfolded r]]
        scaled_less [OF bd(6) [unfolded a(3)] pm [unfolded r]]
        scaled_less [OF bd(7) [unfolded a(4)] pm [unfolded r]] p0] .
qed

lemma two_prod_units_grid:
  assumes fa: "finite64 a" and fb: "finite64 b"
    and nz: "units a \<noteq> 0" "units b \<noteq> 0"
    and sa: "finite64 (dmul SPLIT_CONST a)" and sb: "finite64 (dmul SPLIT_CONST b)"
    and fh: "finite64 (dmul (fst (split_double a)) (fst (split_double b)))"
    and fp: "finite64 (dmul a b)"
    and N: "units a * units b = N * 2 ^ 1074"
  shows "finite64 (lo (two_prod a b)) \<and> units (lo (two_prod a b)) = N - units (dmul a b) \<and>
         units (dmul a b) = rnd53 N \<and> lo (two_prod a b) \<noteq> neg_zero"
proof -
  define ah where "ah = fst (split_double a)"
  define al where "al = snd (split_double a)"
  define bh where "bh = fst (split_double b)"
  define bl where "bl = snd (split_double b)"
  define p where "p = dmul a b"
  note A = split_double_units [OF fa sa, folded ah_def al_def]
  note B = split_double_units [OF fb sb, folded bh_def bl_def]
  have fah: "finite64 ah" and fal: "finite64 al" and fbh: "finite64 bh" and fbl: "finite64 bl"
    using A B by simp_all
  have uah: "units ah = split_hi (units a)" and ual: "units al = split_lo (units a)"
    and ubh: "units bh = split_hi (units b)" and ubl: "units bl = split_lo (units b)"
    using A B by simp_all
  obtain Nhh Nhl Nlh Nll where
    d: "split_hi (units a) * split_hi (units b) = Nhh * 2 ^ 1074"
    "split_hi (units a) * split_lo (units b) = Nhl * 2 ^ 1074"
    "split_lo (units a) * split_hi (units b) = Nlh * 2 ^ 1074"
    "split_lo (units a) * split_lo (units b) = Nll * 2 ^ 1074"
    and F: "F53 Nhh" "F53 Nhl" "F53 Nlh" "F53 Nll"
    "F53 (Nhh - rnd53 N)" "F53 (Nhh - rnd53 N + Nhl)" "F53 (Nhh - rnd53 N + Nhl + Nlh)"
    and S: "Nhh - rnd53 N + Nhl + Nlh + Nll = N - rnd53 N"
    and Fe: "F53 (N - rnd53 N)"
    and bd: "\<bar>Nhl\<bar> \<le> \<bar>rnd53 N\<bar>" "\<bar>Nlh\<bar> \<le> \<bar>rnd53 N\<bar>" "\<bar>Nll\<bar> \<le> \<bar>rnd53 N\<bar>"
    "\<bar>Nhh - rnd53 N\<bar> \<le> \<bar>rnd53 N\<bar>" "\<bar>Nhh - rnd53 N + Nhl\<bar> \<le> \<bar>rnd53 N\<bar>"
    "\<bar>Nhh - rnd53 N + Nhl + Nlh\<bar> \<le> \<bar>rnd53 N\<bar>" "\<bar>N - rnd53 N\<bar> \<le> \<bar>rnd53 N\<bar>"
    and p0: "rnd53 N \<noteq> 0"
    using finite64_F53 [OF fa] finite64_F53 [OF fb] nz N by (rule dekker_grid)
  have pt: "\<bar>rnd53 N\<bar> < top_units" using dmul_finite_iff [OF fa fb N] fp by simp
  have up: "units p = rnd53 N" unfolding p_def using dmul_units [OF fa fb N pt] by simp
  have fpp: "finite64 p" unfolding p_def by (rule fp)
  have sm: "\<And>z::int. \<bar>z\<bar> \<le> \<bar>rnd53 N\<bar> \<Longrightarrow> \<bar>z\<bar> < top_units" using pt by linarith
  have pnz: "units p \<noteq> 0" unfolding up by (rule p0)
  have hht: "\<bar>rnd53 Nhh\<bar> < top_units"
    using dmul_finite_iff [OF fah fbh d(1) [folded uah ubh]] fh unfolding ah_def bh_def by simp
  then have hht': "\<bar>Nhh\<bar> < top_units" unfolding rnd53_id [OF F(1)] .
  note hh = dmul_units_F53 [OF fah fbh d(1) [folded uah ubh] F(1) hht']
  note hl = dmul_units_F53 [OF fah fbl d(2) [folded uah ubl] F(2) sm [OF bd(1)]]
  note lh = dmul_units_F53 [OF fal fbh d(3) [folded ual ubh] F(3) sm [OF bd(2)]]
  note ll = dmul_units_F53 [OF fal fbl d(4) [folded ual ubl] F(4) sm [OF bd(3)]]
  have e1: "units (dmul ah bh) - units p = Nhh - rnd53 N" unfolding hh(2) up by simp
  note t1 = dsub_units_F53 [OF hh(1) fpp e1 F(5) sm [OF bd(4)]]
  have e2: "units (dsub (dmul ah bh) p) + units (dmul ah bl) = Nhh - rnd53 N + Nhl"
    unfolding t1(2) hl(2) by simp
  note t2 = dadd_units_F53 [OF t1(1) hl(1) e2 F(6) sm [OF bd(5)]]
  have e3: "units (dadd (dsub (dmul ah bh) p) (dmul ah bl)) + units (dmul al bh) =
      Nhh - rnd53 N + Nhl + Nlh"
    unfolding t2(2) lh(2) by simp
  note t3 = dadd_units_F53 [OF t2(1) lh(1) e3 F(7) sm [OF bd(6)]]
  have e4: "units (dadd (dadd (dsub (dmul ah bh) p) (dmul ah bl)) (dmul al bh)) +
      units (dmul al bl) = N - rnd53 N"
    unfolding t3(2) ll(2) S by simp
  note t4 = dadd_units_F53 [OF t3(1) ll(1) e4 Fe sm [OF bd(7)]]
  have "p \<noteq> d_zero" using pnz by auto
  then have "dsub (dmul ah bh) p \<noteq> neg_zero" unfolding dsub_neg_zero_iff by simp
  then have "dadd (dadd (dadd (dsub (dmul ah bh) p) (dmul ah bl)) (dmul al bh)) (dmul al bl)
      \<noteq> neg_zero"
    unfolding dadd_neg_zero_iff by simp
  then show ?thesis
    unfolding two_prod_eq dd_real.select_convs ah_def [symmetric] al_def [symmetric]
      bh_def [symmetric] bl_def [symmetric] p_def [symmetric]
    using t4 up by simp
qed

lemma two_prod_agree_grid:
  assumes fa: "finite64 a" and fb: "finite64 b" and fp: "finite64 (dmul a b)"
    and g: "2 ^ 1074 dvd units a * units b"
    and sa: "finite64 (dmul SPLIT_CONST a)" and sb: "finite64 (dmul SPLIT_CONST b)"
    and fh: "finite64 (dmul (fst (split_double a)) (fst (split_double b)))"
  shows "two_prod a b = two_prod_fma a b"
proof (cases "units a * units b = 0")
  case True
  note Z = two_prod_units_zero [OF fa fb True sa sb]
  have "lo (two_prod a b) = d_zero"
    using Z two_prod_zero_sign [OF fa fb True sa sb] by (intro units_zero) simp_all
  then have "lo (two_prod a b) = lo (two_prod_fma a b)"
    unfolding two_prod_fma_zero [OF fa fb True] .
  moreover have "hi (two_prod a b) = hi (two_prod_fma a b)"
    by (simp add: two_prod_eq two_prod_fma_eq)
  ultimately show ?thesis by (intro dd_real.equality) simp_all
next
  case False
  then have nz: "units a \<noteq> 0" "units b \<noteq> 0" by simp_all
  obtain N where N: "units a * units b = N * 2 ^ 1074"
    using g by (auto simp: dvd_def mult.commute)
  note S = two_prod_units_grid [OF fa fb nz sa sb fh fp N]
  note M = two_prod_fma_units [OF fa fb fp N]
  have "N \<noteq> 0" using N False by auto
  then have pn: "units (dmul a b) \<noteq> 0" using S by (simp add: rnd53_eq_0_iff)
  note Z = fma_not_neg_zero [OF fa fb fp pn N]
  have "lo (two_prod a b) = lo (two_prod_fma a b)"
  proof (cases "N - units (dmul a b) = 0")
    case True
    then have "lo (two_prod a b) = d_zero" "lo (two_prod_fma a b) = d_zero"
      using S M Z by (auto intro: units_zero)
    then show ?thesis by simp
  next
    case False
    then show ?thesis using S M by (intro units_inj) simp_all
  qed
  moreover have "hi (two_prod a b) = hi (two_prod_fma a b)"
    by (simp add: two_prod_eq two_prod_fma_eq)
  ultimately show ?thesis by (intro dd_real.equality) simp_all
qed

subsection \<open>An overflowing partial product\<close>

lemma dadd_inf_left: "\<not> finite64 (dadd (DInf g) y)" "\<not> finite64 (dadd DNaN y)"
  by (cases y; simp)+

lemma dadd_nonfinite_left:
  assumes "x = DNaN \<or> (\<exists>g. x = DInf g)"
  shows "dadd x y = DNaN \<or> (\<exists>g. dadd x y = DInf g)"
proof (cases x)
  case (DFin s m)
  then show ?thesis using assms by simp
next
  case (DInf g)
  show ?thesis
  proof (cases y)
    case (DInf t)
    show ?thesis unfolding \<open>x = DInf g\<close> \<open>y = DInf t\<close> by (cases "g = t") simp_all
  qed (simp_all add: \<open>x = DInf g\<close>)
next
  case DNaN
  then show ?thesis by simp
qed

lemma two_prod_lo_not_finite:
  assumes fa: "finite64 a" and fb: "finite64 b"
    and N: "units a * units b = N * 2 ^ 1074"
    and sa: "finite64 (dmul SPLIT_CONST a)" and sb: "finite64 (dmul SPLIT_CONST b)"
    and nf: "\<not> finite64 (dmul (fst (split_double a)) (fst (split_double b)))"
  shows "\<not> finite64 (lo (two_prod a b))"
proof -
  define hh where "hh = dmul (fst (split_double a)) (fst (split_double b))"
  note A = split_double_units [OF fa sa]
  note B = split_double_units [OF fb sb]
  have fah: "finite64 (fst (split_double a))" and fbh: "finite64 (fst (split_double b))"
    using A B by simp_all
  have nz: "units a \<noteq> 0 \<and> units b \<noteq> 0"
  proof (rule ccontr)
    assume "\<not> (units a \<noteq> 0 \<and> units b \<noteq> 0)"
    then have "units (fst (split_double a)) * units (fst (split_double b)) = 0"
      using A B by auto
    then show False using dmul_zero_units(1) [OF fah fbh] nf by simp
  qed
  have "2 ^ 1074 dvd split_hi (units a) * split_hi (units b)"
    using N nz by (intro split_products_grid(1)) simp_all
  then obtain M where M: "units (fst (split_double a)) * units (fst (split_double b)) = M * 2 ^ 1074"
    using A B by (auto simp: dvd_def mult.commute)
  have "\<not> \<bar>rnd53 M\<bar> < top_units" using dmul_finite_iff [OF fah fbh M] nf by simp
  then have "top_units \<le> \<bar>rnd53 M\<bar>" by simp
  then have h: "hh = DInf (M < 0)" unfolding hh_def using dmul_overflow [OF fah fbh M] by simp
  have 1: "dsub hh (dmul a b) = DNaN \<or> (\<exists>g. dsub hh (dmul a b) = DInf g)"
    unfolding dsub_def by (rule dadd_nonfinite_left) (simp add: h)
  note 2 = dadd_nonfinite_left [OF 1, of "dmul (fst (split_double a)) (snd (split_double b))"]
  note 3 = dadd_nonfinite_left [OF 2, of "dmul (snd (split_double a)) (fst (split_double b))"]
  note 4 = dadd_nonfinite_left [OF 3, of "dmul (snd (split_double a)) (snd (split_double b))"]
  show ?thesis unfolding two_prod_eq dd_real.select_convs hh_def [symmetric] using 4 by auto
qed

section \<open>Exactness of the product\<close>

lemma scaled_real_prod:
  fixes T x y n :: real
  assumes "T \<noteq> 0" "x * y = n * T"
  shows "(x / T) * (y / T) = n / T"
proof -
  have "(x / T) * (y / T) = (x * y) / (T * T)" by simp
  also have "\<dots> = n / T" unfolding assms(2) using assms(1) by simp
  finally show ?thesis .
qed

lemma valof_prod:
  assumes "units a * units b = N * 2 ^ 1074"
  shows "valof a * valof b = real_of_int N / 2 ^ 1074"
proof -
  have "real_of_int (units a * units b) = real_of_int (N * 2 ^ 1074)" by (simp only: assms)
  then have "real_of_int (units a) * real_of_int (units b) = real_of_int N * 2 ^ 1074"
    by (simp only: of_int_mult of_int_power of_int_numeral)
  then show ?thesis unfolding valof_def by (intro scaled_real_prod) simp_all
qed

lemma scaled_real_eq:
  fixes T s x y :: real
  assumes "T \<noteq> 0" "s / T = (x / T) * (y / T)"
  shows "s * T = x * y"
proof -
  have "(s / T) * (T * T) = ((x / T) * (y / T)) * (T * T)" by (simp only: assms(2))
  moreover have "(s / T) * (T * T) = s * T" using assms(1) by simp
  moreover have "((x / T) * (y / T)) * (T * T) = x * y" using assms(1) by simp
  ultimately show ?thesis by simp
qed

lemma valof_prod_dvd:
  assumes "valof p + valof e = valof a * valof b"
  shows "2 ^ 1074 dvd units a * units b"
proof -
  have "(real_of_int (units p) + real_of_int (units e)) / 2 ^ 1074 =
      (real_of_int (units a) / 2 ^ 1074) * (real_of_int (units b) / 2 ^ 1074)"
    using assms unfolding valof_def by (simp only: add_divide_distrib)
  then have "(real_of_int (units p) + real_of_int (units e)) * 2 ^ 1074 =
      real_of_int (units a) * real_of_int (units b)"
    by (intro scaled_real_eq) simp_all
  then have "real_of_int ((units p + units e) * 2 ^ 1074) = real_of_int (units a * units b)"
    by (simp only: of_int_mult of_int_add of_int_power of_int_numeral)
  then have "(units p + units e) * 2 ^ 1074 = units a * units b" by (simp only: of_int_eq_iff)
  then show ?thesis by (metis dvd_triv_right)
qed

lemma exact_product_fma:
  assumes "finite64 a" "finite64 b" "finite64 (dmul a b)"
  shows "exact_product (two_prod_fma a b) a b \<longleftrightarrow> 2 ^ 1074 dvd units a * units b"
proof
  assume "exact_product (two_prod_fma a b) a b"
  then have "valof (hi (two_prod_fma a b)) + valof (lo (two_prod_fma a b)) = valof a * valof b"
    unfolding exact_product_def by blast
  then show "2 ^ 1074 dvd units a * units b" by (rule valof_prod_dvd)
next
  assume "2 ^ 1074 dvd units a * units b"
  then obtain N where N: "units a * units b = N * 2 ^ 1074" by (auto simp: dvd_def mult.commute)
  note M = two_prod_fma_units [OF assms N]
  have "valof (dmul a b) + valof (lo (two_prod_fma a b)) = real_of_int N / 2 ^ 1074"
    using M unfolding valof_def by (simp add: add_divide_distrib [symmetric])
  then show "exact_product (two_prod_fma a b) a b"
    unfolding exact_product_def valof_prod [OF N] using M by (simp add: two_prod_fma_eq)
qed

lemma exact_product_split:
  assumes "finite64 a" "finite64 b" "finite64 (dmul a b)"
    and "finite64 (dmul SPLIT_CONST a)" "finite64 (dmul SPLIT_CONST b)"
  shows "exact_product (two_prod a b) a b \<longleftrightarrow>
         2 ^ 1074 dvd units a * units b \<and>
         finite64 (dmul (fst (split_double a)) (fst (split_double b)))"
proof
  assume e: "exact_product (two_prod a b) a b"
  then have "valof (hi (two_prod a b)) + valof (lo (two_prod a b)) = valof a * valof b"
    unfolding exact_product_def by blast
  then have g: "2 ^ 1074 dvd units a * units b" by (rule valof_prod_dvd)
  then obtain N where N: "units a * units b = N * 2 ^ 1074" by (auto simp: dvd_def mult.commute)
  have "finite64 (lo (two_prod a b))" using e unfolding exact_product_def by blast
  then have "finite64 (dmul (fst (split_double a)) (fst (split_double b)))"
    using two_prod_lo_not_finite [OF assms(1,2) N assms(4,5)] by blast
  with g show "2 ^ 1074 dvd units a * units b \<and>
         finite64 (dmul (fst (split_double a)) (fst (split_double b)))" ..
next
  assume h: "2 ^ 1074 dvd units a * units b \<and>
         finite64 (dmul (fst (split_double a)) (fst (split_double b)))"
  show "exact_product (two_prod a b) a b"
  proof (cases "units a * units b = 0")
    case True
    note Z = two_prod_units_zero [OF assms(1,2) True assms(4,5)]
    have "units a * units b = 0 * 2 ^ 1074" using True by simp
    then have "valof a * valof b = 0" using valof_prod [of a b 0] by simp
    moreover have "valof (dmul a b) + valof (lo (two_prod a b)) = 0"
      using Z unfolding valof_def by simp
    ultimately show ?thesis unfolding exact_product_def using Z by (simp add: two_prod_eq)
  next
    case False
    then have nz: "units a \<noteq> 0" "units b \<noteq> 0" by simp_all
    obtain N where N: "units a * units b = N * 2 ^ 1074"
      using h by (auto simp: dvd_def mult.commute)
    note S = two_prod_units_grid [OF assms(1,2) nz assms(4,5) conjunct2 [OF h] assms(3) N]
    have "valof (dmul a b) + valof (lo (two_prod a b)) = real_of_int N / 2 ^ 1074"
      using S unfolding valof_def by (simp add: add_divide_distrib [symmetric])
    then show ?thesis
      unfolding exact_product_def valof_prod [OF N] using S by (simp add: two_prod_eq)
  qed
qed

text \<open>
  Claim C2 (amended). Let \<open>a\<close> and \<open>b\<close> be finite doubles whose rounded product
  \<open>p = a * b\<close> is finite. The FMA-based \<open>two_prod\<close> returns \<open>(p, e)\<close> with \<open>e\<close> finite and
  \<open>p + e = a * b\<close> exactly if and only if the exact product is an integer multiple of
  \<open>2^-1074\<close>. If moreover the splitting does not overflow (\<open>134217729 * a\<close> and
  \<open>134217729 * b\<close> are finite), the split-based \<open>two_prod\<close> returns such a pair if and only
  if the exact product is an integer multiple of \<open>2^-1074\<close> and the partial product
  \<open>a_hi * b_hi\<close> does not overflow.
\<close>

theorem two_prod_exact:
  assumes "finite64 a" "finite64 b" "finite64 (dmul a b)"
  shows "(exact_product (two_prod_fma a b) a b \<longleftrightarrow> 2 ^ 1074 dvd units a * units b) \<and>
         (finite64 (dmul SPLIT_CONST a) \<and> finite64 (dmul SPLIT_CONST b) \<longrightarrow>
          (exact_product (two_prod a b) a b \<longleftrightarrow>
             2 ^ 1074 dvd units a * units b \<and>
             finite64 (dmul (fst (split_double a)) (fst (split_double b)))))"
  using exact_product_fma [OF assms] exact_product_split [OF assms] by blast

theorem two_prod_exact_witness:
  "finite64 one_eps \<and> finite64 (dmul one_eps one_eps) \<and>
   finite64 (dmul SPLIT_CONST one_eps) \<and>
   2 ^ 1074 dvd units one_eps * units one_eps \<and>
   finite64 (dmul (fst (split_double one_eps)) (fst (split_double one_eps))) \<and>
   exact_product (two_prod_fma one_eps one_eps) one_eps one_eps \<and>
   exact_product (two_prod one_eps one_eps) one_eps one_eps"
proof -
  have d: "2 ^ 1074 dvd units one_eps * units one_eps" unfolding one_eps_dvd by (rule dvd_triv_right)
  have h: "finite64 (dmul (fst (split_double one_eps)) (fst (split_double one_eps)))"
    unfolding one_eps_hh finite64.simps by (rule representableI [of 1074]) simp_all
  show ?thesis
    using two_prod_exact [OF one_eps_finite(1) one_eps_finite(1) one_eps_finite(2)]
      one_eps_finite d h by blast
qed

theorem two_prod_exact_counterexample:
  "finite64 denorm_min \<and> finite64 d_half \<and> finite64 (dmul denorm_min d_half) \<and>
   finite64 (dmul SPLIT_CONST denorm_min) \<and> finite64 (dmul SPLIT_CONST d_half) \<and>
   two_prod_fma denorm_min d_half = \<lparr>hi = d_zero, lo = d_zero\<rparr> \<and>
   two_prod denorm_min d_half = \<lparr>hi = d_zero, lo = d_zero\<rparr> \<and>
   valof (hi (two_prod_fma denorm_min d_half)) + valof (lo (two_prod_fma denorm_min d_half)) \<noteq>
     valof denorm_min * valof d_half \<and>
   valof (hi (two_prod denorm_min d_half)) + valof (lo (two_prod denorm_min d_half)) \<noteq>
     valof denorm_min * valof d_half \<and>
   finite64 sqrt_big \<and> finite64 (dmul sqrt_big sqrt_big) \<and>
   finite64 (dmul SPLIT_CONST sqrt_big) \<and>
   lo (two_prod sqrt_big sqrt_big) = DInf False"
proof -
  have "valof denorm_min * valof d_half \<noteq> 0"
    unfolding valof_def denorm_min_def d_half_def by (simp add: sval_def)
  then have v: "valof d_zero + valof d_zero \<noteq> valof denorm_min * valof d_half"
    unfolding valof_def by simp
  show ?thesis
    unfolding two_prod_tiny two_prod_fma_tiny two_prod_sqrt_big dd_real.select_convs
      d_zero_def [symmetric]
    using tiny_finite sqrt_big_finite v by simp
qed

section \<open>Agreement of the two products\<close>

text \<open>
  Claim C4 (amended). Let \<open>a\<close> and \<open>b\<close> be finite doubles for which the fused
  multiply-add is exact, that is, the FMA-based \<open>two_prod\<close> returns \<open>(p, e)\<close> with \<open>e\<close> finite
  and \<open>p + e = a * b\<close>, and such that neither the product nor the splitting (\<open>134217729 * a\<close>,
  \<open>134217729 * b\<close>) overflows. Then the split-based and the FMA-based \<open>two_prod\<close> return
  identical pairs, the sign of a zero error term included, if and only if the partial product
  \<open>a_hi * b_hi\<close> does not overflow.
\<close>

theorem two_prod_equivalent:
  assumes "finite64 a" "finite64 b" "finite64 (dmul a b)"
    and "exact_product (two_prod_fma a b) a b"
    and "finite64 (dmul SPLIT_CONST a)" "finite64 (dmul SPLIT_CONST b)"
  shows "two_prod a b = two_prod_fma a b \<longleftrightarrow>
         finite64 (dmul (fst (split_double a)) (fst (split_double b)))"
proof -
  have g: "2 ^ 1074 dvd units a * units b"
    using assms(4) unfolding exact_product_fma [OF assms(1,2,3)] .
  then obtain N where N: "units a * units b = N * 2 ^ 1074" by (auto simp: dvd_def mult.commute)
  have 1: "finite64 (dmul (fst (split_double a)) (fst (split_double b)))"
    if eq: "two_prod a b = two_prod_fma a b"
  proof -
    have "finite64 (lo (two_prod a b))" using assms(4) eq by (simp add: exact_product_def)
    then show ?thesis using two_prod_lo_not_finite [OF assms(1,2) N assms(5,6)] by blast
  qed
  have 2: "two_prod a b = two_prod_fma a b"
    if fh: "finite64 (dmul (fst (split_double a)) (fst (split_double b)))"
    using assms(1,2,3) g assms(5,6) fh by (rule two_prod_agree_grid)
  show ?thesis using 1 2 by blast
qed

theorem two_prod_equivalent_witness:
  "finite64 one_eps \<and> finite64 (dmul one_eps one_eps) \<and>
   exact_product (two_prod_fma one_eps one_eps) one_eps one_eps \<and>
   finite64 (dmul SPLIT_CONST one_eps) \<and>
   finite64 (dmul (fst (split_double one_eps)) (fst (split_double one_eps))) \<and>
   two_prod one_eps one_eps = two_prod_fma one_eps one_eps"
proof -
  have "2 ^ 1074 dvd units one_eps * units one_eps" unfolding one_eps_dvd by (rule dvd_triv_right)
  then have e: "exact_product (two_prod_fma one_eps one_eps) one_eps one_eps"
    unfolding exact_product_fma [OF one_eps_finite(1) one_eps_finite(1) one_eps_finite(2)] .
  have h: "finite64 (dmul (fst (split_double one_eps)) (fst (split_double one_eps)))"
    unfolding one_eps_hh finite64.simps by (rule representableI [of 1074]) simp_all
  show ?thesis
    using two_prod_equivalent [OF one_eps_finite(1) one_eps_finite(1) one_eps_finite(2) e
        one_eps_finite(3) one_eps_finite(3)] one_eps_finite e h by blast
qed

theorem two_prod_equivalent_counterexample:
  "finite64 sqrt_big \<and> finite64 (dmul sqrt_big sqrt_big) \<and>
   exact_product (two_prod_fma sqrt_big sqrt_big) sqrt_big sqrt_big \<and>
   finite64 (dmul SPLIT_CONST sqrt_big) \<and>
   lo (two_prod sqrt_big sqrt_big) = DInf False \<and>
   lo (two_prod_fma sqrt_big sqrt_big) = DFin False (2 ^ 1992) \<and>
   two_prod sqrt_big sqrt_big \<noteq> two_prod_fma sqrt_big sqrt_big"
proof -
  have "2 ^ 1074 dvd units sqrt_big * units sqrt_big" unfolding sqrt_big_dvd by (rule dvd_triv_right)
  then have e: "exact_product (two_prod_fma sqrt_big sqrt_big) sqrt_big sqrt_big"
    unfolding exact_product_fma [OF sqrt_big_finite(1) sqrt_big_finite(1) sqrt_big_finite(2)] .
  show ?thesis
    unfolding two_prod_sqrt_big two_prod_fma_sqrt_big dd_real.select_convs
    using sqrt_big_finite e [unfolded two_prod_fma_sqrt_big] by simp
qed

section \<open>Renormalization\<close>

subsection \<open>The final step when the high word is a multiple of the unit of the low word\<close>

lemma fast2sum_dvd:
  assumes "F53 a" "F53 b" "2 ^ ex53 b dvd a"
  shows "F53 (rnd53 (a + b) - a)"
proof (cases "\<bar>b\<bar> \<le> \<bar>a\<bar>")
  case True
  with assms(1,2) show ?thesis by (rule fast2sum_F53)
next
  case False
  define k where "k = ex53 b"
  define s where "s = rnd53 (a + b)"
  have kb: "2 ^ k dvd b" unfolding k_def using assms(2) by (rule ex53_dvd)
  have ka: "2 ^ k dvd a" unfolding k_def by (rule assms(3))
  have "2 ^ k dvd (a + b)" using ka kb by simp
  then have ks: "2 ^ k dvd s" unfolding s_def by (rule rnd53_grid)
  have bb: "\<bar>b\<bar> < 2 ^ (k + 53)" unfolding k_def by (rule ex53_less)
  have "(2::int) ^ (k + 54) = 2 * 2 ^ (k + 53)" by (simp add: power_add)
  then have "\<bar>a + b\<bar> \<le> 2 ^ (Suc k + 53)" using False bb by (simp add: power_add)
  then have "2 * \<bar>s - (a + b)\<bar> \<le> 2 ^ Suc k" unfolding s_def by (rule rnd53_half)
  then have "\<bar>s - (a + b)\<bar> \<le> 2 ^ k" by simp
  then have "\<bar>s - a\<bar> < 2 ^ (k + 53) + 2 ^ k" using bb by linarith
  moreover have d: "2 ^ k dvd (s - a)" using ks ka by simp
  ultimately have "\<bar>s - a\<bar> \<le> 2 ^ (k + 53)" by (intro dvd_abs_bound [of k]) simp_all
  with d show ?thesis unfolding s_def by (rule F53_intro)
qed

lemma quick_two_sum_units_gen:
  assumes "finite64 a" "finite64 b" "F53 (rnd53 (units a + units b) - units a)"
    "finite64 (dadd a b)"
  shows "finite64 (lo (quick_two_sum a b)) \<and>
         units (lo (quick_two_sum a b)) = units a + units b - units (dadd a b) \<and>
         units (dadd a b) = rnd53 (units a + units b)"
proof -
  define A B where "A = units a" and "B = units b"
  define S where "S = rnd53 (A + B)"
  define s where "s = dadd a b"
  define v where "v = dsub s a"
  have FA: "F53 A" and FB: "F53 B" unfolding A_def B_def using assms(1,2) by (simp_all add: finite64_F53)
  have fs: "finite64 s" using assms(4) by (simp add: s_def)
  have Sb: "\<bar>S\<bar> < top_units"
    using dadd_finite_iff [OF assms(1,2)] assms(4) by (simp add: S_def A_def B_def)
  have us: "units s = S"
    using dadd_units [OF assms(1,2)] Sb by (simp add: S_def A_def B_def s_def)
  have "F53 (S - A)" unfolding S_def A_def B_def by (rule assms(3))
  then have V: "rnd53 (S - A) = S - A" by (rule rnd53_id)
  have "F53 (A + B - S)" unfolding S_def using FA FB by (rule add_err_F53)
  then have E: "rnd53 (A + B - S) = A + B - S" by (rule rnd53_id)
  have err: "\<bar>S - (A + B)\<bar> \<le> 2 ^ 2044" unfolding S_def using Sb unfolding S_def by (rule rnd53_err_top(2))
  have Bmax: "\<bar>B\<bar> + 2 * 2 ^ 2044 \<le> top_units"
    unfolding B_def top_facts(8) [symmetric] using assms(2) by (rule finite64_max)
  have "(0::int) < 2 ^ 2044" by simp
  moreover have "2 * 2 ^ 2044 < top_units" using top_facts(2) unfolding top_facts(8) .
  ultimately have bounds: "\<bar>S - A\<bar> < top_units" "\<bar>A + B - S\<bar> < top_units"
    using fast_bounds [OF err Bmax] by blast+
  have v: "finite64 v \<and> units v = S - A"
    unfolding v_def using dsub_units [OF fs assms(1)] bounds(1) unfolding us A_def [symmetric] V .
  have eq: "B - (S - A) = A + B - S" by simp
  have "\<bar>rnd53 (B - (S - A))\<bar> < top_units" "rnd53 (B - (S - A)) = A + B - S"
    unfolding eq E using bounds(2) by simp_all
  then have e: "finite64 (dsub b v) \<and> units (dsub b v) = A + B - S"
    using dsub_units [OF assms(2) conjunct1 [OF v]] unfolding conjunct2 [OF v] B_def [symmetric]
    by simp
  have "lo (quick_two_sum a b) = dsub b v" by (simp add: quick_two_sum_eq v_def s_def)
  then show ?thesis using e us unfolding s_def S_def A_def B_def by simp
qed

lemma renorm_normalized:
  assumes "renorm_ok x y"
  shows "normalized (quick_two_sum x y)"
proof -
  have fx: "finite64 x" and fy: "finite64 y" and fs: "finite64 (dadd x y)"
    and c: "\<bar>units y\<bar> \<le> \<bar>units x\<bar> \<or> 2 ^ ex53 (units y) dvd units x"
    using assms by (simp_all add: renorm_ok_def)
  have "F53 (rnd53 (units x + units y) - units x)"
    using c fast2sum_F53 [OF finite64_F53 [OF fx] finite64_F53 [OF fy]]
      fast2sum_dvd [OF finite64_F53 [OF fx] finite64_F53 [OF fy]] by blast
  with fx fy have u: "finite64 (lo (quick_two_sum x y)) \<and>
         units (lo (quick_two_sum x y)) = units x + units y - units (dadd x y) \<and>
         units (dadd x y) = rnd53 (units x + units y)"
    using fs by (rule quick_two_sum_units_gen)
  have "2 * \<bar>rnd53 (units x + units y) - (units x + units y)\<bar>
      \<le> 2 ^ ex53 (rnd53 (units x + units y))" by (rule rnd53_err_ulp)
  then have "2 * \<bar>units (lo (quick_two_sum x y))\<bar> \<le> 2 ^ ex53 (units (dadd x y))"
    using u by (simp add: abs_minus_commute)
  then show ?thesis using u fs by (simp add: normalized_def ulp_units_def quick_two_sum_eq)
qed

subsection \<open>The low word of a sum of normalized pairs\<close>

lemma ex53_le: "\<bar>x\<bar> < 2 ^ (k + 53) \<Longrightarrow> ex53 x \<le> k"
proof -
  assume "\<bar>x\<bar> < 2 ^ (k + 53)"
  then have "nat \<bar>x\<bar> < 2 ^ (k + 53)" by (simp add: nat_less_pow2)
  then have "bitlen (nat \<bar>x\<bar>) \<le> k + 53" by (simp add: bitlen_le_iff)
  then show ?thesis by (simp add: ex53_def)
qed

text \<open>
  The bounds are proved for pairs whose low word is at most \<open>2^35\<close> units in the last place
  of the high word: this covers the pairs returned by \<open>two_prod\<close> when the product
  underflows and the computed error term is no longer the exact residual.
\<close>

lemma lo_sum_aux:
  assumes F: "F53 a" "F53 b" and q: "ex53 b \<le> ex53 a"
    and n: "\<bar>a'\<bar> \<le> 2 ^ (ex53 a + 35)" "\<bar>b'\<bar> \<le> 2 ^ (ex53 b + 35)"
  shows "\<bar>rnd53 (a' + b')\<bar> \<le> 2 ^ (ex53 a + 36)"
    "\<bar>rnd53 (rnd53 (a' + b') + (a + b - rnd53 (a + b)))\<bar> \<le> 2 ^ (ex53 a + 37)"
    "\<bar>rnd53 (rnd53 (a' + b') + (a + b - rnd53 (a + b)))\<bar> \<le> \<bar>rnd53 (a + b)\<bar> \<or>
     2 ^ ex53 (rnd53 (rnd53 (a' + b') + (a + b - rnd53 (a + b)))) dvd rnd53 (a + b)"
proof -
  define p where "p = ex53 a"
  define P :: int where "P = 2 ^ p"
  define s where "s = rnd53 (a + b)"
  define M where "M = rnd53 (a' + b')"
  define L where "L = rnd53 (M + (a + b - s))"
  have Ppos: "0 < P" by (simp add: P_def)
  have pw: "(2::int) ^ (p + 1) = 2 * P" "(2::int) ^ (p + 53) = 9007199254740992 * P"
    "(2::int) ^ (p + 54) = 18014398509481984 * P" "(2::int) ^ (p + 51) = 2251799813685248 * P"
    "(2::int) ^ (p + 52) = 4503599627370496 * P" "(2::int) ^ (p + 35) = 34359738368 * P"
    "(2::int) ^ (p + 36) = 68719476736 * P" "(2::int) ^ (p + 37) = 137438953472 * P"
    by (simp_all add: P_def power_add)
  have la: "\<bar>a\<bar> < 9007199254740992 * P" using ex53_less [of a] unfolding p_def [symmetric] pw .
  have "(2::int) ^ (ex53 b + 53) \<le> 2 ^ (p + 53)" unfolding p_def using q by (intro power_increasing) simp_all
  then have lb: "\<bar>b\<bar> < 9007199254740992 * P" using ex53_less [of b] unfolding pw by linarith
  have "(2::int) ^ ((p + 1) + 53) = 18014398509481984 * P" by (simp add: P_def power_add)
  moreover have "\<bar>a + b\<bar> \<le> 18014398509481984 * P" using la lb by linarith
  ultimately have "\<bar>a + b\<bar> \<le> 2 ^ ((p + 1) + 53)" by simp
  then have "2 * \<bar>s - (a + b)\<bar> \<le> 2 ^ (p + 1)" unfolding s_def by (rule rnd53_half)
  then have e: "\<bar>a + b - s\<bar> \<le> P"
    unfolding pw abs_minus_commute [of s "a + b"] by simp
  have "(2::int) ^ (ex53 b + 35) \<le> 2 ^ (p + 35)" unfolding p_def using q by (intro power_increasing) simp_all
  then have "\<bar>b'\<bar> \<le> 34359738368 * P" using n(2) unfolding pw by linarith
  moreover have "\<bar>a'\<bar> \<le> 34359738368 * P" using n(1) unfolding p_def [symmetric] pw .
  ultimately have "\<bar>a' + b'\<bar> \<le> 2 ^ (p + 36)" unfolding pw by linarith
  then have m: "\<bar>M\<bar> \<le> 2 ^ (p + 36)" unfolding M_def by (rule rnd53_abs_le)
  then have "\<bar>M + (a + b - s)\<bar> \<le> 2 ^ (p + 37)" using e Ppos unfolding pw by linarith
  then have l: "\<bar>L\<bar> \<le> 2 ^ (p + 37)" unfolding L_def by (rule rnd53_abs_le)
  have da: "2 ^ ex53 b dvd a" using q ex53_dvd [OF F(1)] by (rule pow2_dvd_le)
  have "2 ^ ex53 b dvd a + b" using da ex53_dvd [OF F(2)] by (rule dvd_add)
  then have ds: "2 ^ ex53 b dvd s" unfolding s_def by (rule rnd53_grid)
  have c: "\<bar>L\<bar> \<le> \<bar>s\<bar> \<or> 2 ^ ex53 L dvd s"
  proof (cases "p + 37 < ex53 b + 53")
    case True
    then have "(2::int) ^ (p + 37) < 2 ^ (ex53 b + 53)" by (intro power_strict_increasing) simp_all
    then have "\<bar>L\<bar> < 2 ^ (ex53 b + 53)" using l by linarith
    then have "ex53 L \<le> ex53 b" by (rule ex53_le)
    then have "2 ^ ex53 L dvd s" using ds by (rule pow2_dvd_le)
    then show ?thesis ..
  next
    case False
    then have "0 < ex53 a" unfolding p_def by simp
    then have ga: "4503599627370496 * P \<le> \<bar>a\<bar>" using ex53_ge [of a] unfolding p_def [symmetric] pw by simp
    have "(2::int) ^ (ex53 b + 53) \<le> 2 ^ (p + 37)" using False by (intro power_increasing) simp_all
    then have "\<bar>b\<bar> < 137438953472 * P" using ex53_less [of b] unfolding pw by linarith
    then have "2 ^ (p + 51) \<le> \<bar>a + b\<bar>" using ga Ppos unfolding pw by linarith
    then have "2 ^ (p + 51) \<le> \<bar>s\<bar>" unfolding s_def by (rule rnd53_abs_ge)
    then have "\<bar>L\<bar> \<le> \<bar>s\<bar>" using l Ppos unfolding pw by linarith
    then show ?thesis ..
  qed
  show "\<bar>rnd53 (a' + b')\<bar> \<le> 2 ^ (ex53 a + 36)" using m unfolding M_def p_def .
  show "\<bar>rnd53 (rnd53 (a' + b') + (a + b - rnd53 (a + b)))\<bar> \<le> 2 ^ (ex53 a + 37)"
    using l unfolding L_def M_def s_def p_def .
  show "\<bar>rnd53 (rnd53 (a' + b') + (a + b - rnd53 (a + b)))\<bar> \<le> \<bar>rnd53 (a + b)\<bar> \<or>
     2 ^ ex53 (rnd53 (rnd53 (a' + b') + (a + b - rnd53 (a + b)))) dvd rnd53 (a + b)"
    using c unfolding L_def M_def s_def .
qed

lemma lo_sum_int:
  assumes F: "F53 a" "F53 b"
    and n: "\<bar>a'\<bar> \<le> 2 ^ (ex53 a + 35)" "\<bar>b'\<bar> \<le> 2 ^ (ex53 b + 35)"
  shows "\<bar>rnd53 (a' + b')\<bar> \<le> 2 ^ (max (ex53 a) (ex53 b) + 36)"
    "\<bar>rnd53 (rnd53 (a' + b') + (a + b - rnd53 (a + b)))\<bar> \<le> 2 ^ (max (ex53 a) (ex53 b) + 37)"
    "\<bar>rnd53 (rnd53 (a' + b') + (a + b - rnd53 (a + b)))\<bar> \<le> \<bar>rnd53 (a + b)\<bar> \<or>
     2 ^ ex53 (rnd53 (rnd53 (a' + b') + (a + b - rnd53 (a + b)))) dvd rnd53 (a + b)"
proof (atomize (full), cases "ex53 b \<le> ex53 a")
  case True
  then have m: "max (ex53 a) (ex53 b) = ex53 a" by simp
  show "\<bar>rnd53 (a' + b')\<bar> \<le> 2 ^ (max (ex53 a) (ex53 b) + 36) \<and>
    \<bar>rnd53 (rnd53 (a' + b') + (a + b - rnd53 (a + b)))\<bar> \<le> 2 ^ (max (ex53 a) (ex53 b) + 37) \<and>
    (\<bar>rnd53 (rnd53 (a' + b') + (a + b - rnd53 (a + b)))\<bar> \<le> \<bar>rnd53 (a + b)\<bar> \<or>
     2 ^ ex53 (rnd53 (rnd53 (a' + b') + (a + b - rnd53 (a + b)))) dvd rnd53 (a + b))"
    unfolding m using lo_sum_aux [OF F True n] by blast
next
  case False
  then have q: "ex53 a \<le> ex53 b" by simp
  then have m: "max (ex53 a) (ex53 b) = ex53 b" by simp
  have c: "b' + a' = a' + b'" "b + a = a + b" by simp_all
  show "\<bar>rnd53 (a' + b')\<bar> \<le> 2 ^ (max (ex53 a) (ex53 b) + 36) \<and>
    \<bar>rnd53 (rnd53 (a' + b') + (a + b - rnd53 (a + b)))\<bar> \<le> 2 ^ (max (ex53 a) (ex53 b) + 37) \<and>
    (\<bar>rnd53 (rnd53 (a' + b') + (a + b - rnd53 (a + b)))\<bar> \<le> \<bar>rnd53 (a + b)\<bar> \<or>
     2 ^ ex53 (rnd53 (rnd53 (a' + b') + (a + b - rnd53 (a + b)))) dvd rnd53 (a + b))"
    unfolding m using lo_sum_aux [OF F(2,1) q n(2,1), unfolded c] by blast
qed

lemma half_ulp_near:
  fixes x :: int
  assumes "2 * \<bar>x\<bar> \<le> 2 ^ k"
  shows "\<bar>x\<bar> \<le> 2 ^ (k + 35)"
proof -
  have "(2::int) ^ (k + 35) = 34359738368 * 2 ^ k" by (simp add: power_add)
  moreover have "(0::int) < 2 ^ k" by simp
  ultimately show ?thesis using assms by linarith
qed

subsection \<open>Addition of pairs\<close>

lemma finite64_ex53: "finite64 x \<Longrightarrow> ex53 (units x) \<le> 2045"
  using finite64_less [of x] unfolding top_facts(3) by (intro ex53_le) simp

lemma pow_below_top:
  assumes "k \<le> 2097"
  shows "(2::int) ^ k < top_units"
proof -
  have "(2::int) ^ k \<le> 2 ^ 2097" using assms by (intro power_increasing) simp_all
  also have "\<dots> < 2 ^ 2098" by (intro power_strict_increasing) simp_all
  finally show ?thesis unfolding top_facts(6) .
qed

lemma normalized_near: "normalized r \<Longrightarrow> near_normalized r"
proof -
  assume n: "normalized r"
  then have "2 * \<bar>units (lo r)\<bar> \<le> 2 ^ ex53 (units (hi r))"
    by (simp add: normalized_def ulp_units_def)
  then have "\<bar>units (lo r)\<bar> \<le> 2 ^ (ex53 (units (hi r)) + 35)" by (rule half_ulp_near)
  then have "\<bar>units (lo r)\<bar> \<le> 2 ^ 35 * ulp_units (hi r)"
    by (simp add: ulp_units_def power_add)
  then show ?thesis using n by (simp add: normalized_def near_normalized_def)
qed

lemma near_normalized_D:
  assumes "near_normalized r"
  shows "finite64 (hi r)" "finite64 (lo r)" "\<bar>units (lo r)\<bar> \<le> 2 ^ (ex53 (units (hi r)) + 35)"
  using assms by (simp_all add: near_normalized_def ulp_units_def power_add)

lemma dd_add_near:
  assumes "near_normalized A" "near_normalized B" "add_finite A B"
  shows "normalized (dd_add A B)"
proof -
  define a b a' b' where "a = units (hi A)" and "b = units (hi B)"
    and "a' = units (lo A)" and "b' = units (lo B)"
  define s where "s = dadd (hi A) (hi B)"
  define ts where "ts = lo (two_sum (hi A) (hi B))"
  define m where "m = dadd (lo A) (lo B)"
  define L where "L = dadd m ts"
  note fa = near_normalized_D(1) [OF assms(1)] and fa' = near_normalized_D(2) [OF assms(1)]
    and fb = near_normalized_D(1) [OF assms(2)] and fb' = near_normalized_D(2) [OF assms(2)]
  have na: "\<bar>a'\<bar> \<le> 2 ^ (ex53 a + 35)" and nb: "\<bar>b'\<bar> \<le> 2 ^ (ex53 b + 35)"
    using near_normalized_D(3) [OF assms(1)] near_normalized_D(3) [OF assms(2)]
    by (simp_all add: a_def a'_def b_def b'_def)
  have fs: "finite64 s" and fv: "finite64 (dsub s (hi A))" and fr: "finite64 (hi (dd_add A B))"
    using assms(3) by (simp_all add: add_finite_def s_def)
  have T: "finite64 ts" "units ts = a + b - units s" "units s = rnd53 (a + b)"
    using two_sum_units [OF fa fb fs [unfolded s_def] fv [unfolded s_def]]
    by (simp_all add: ts_def s_def a_def b_def)
  note I = lo_sum_int [OF finite64_F53 [OF fa] finite64_F53 [OF fb],
      folded a_def b_def, OF na nb]
  have mx: "max (ex53 a) (ex53 b) \<le> 2045"
    using finite64_ex53 [OF fa] finite64_ex53 [OF fb] by (simp add: a_def b_def)
  have "\<bar>rnd53 (a' + b')\<bar> < top_units"
    using I(1) pow_below_top [of "max (ex53 a) (ex53 b) + 36"] mx by linarith
  then have M: "finite64 m" "units m = rnd53 (a' + b')"
    using dadd_units [OF fa' fb'] by (simp_all add: m_def a'_def b'_def)
  have "\<bar>rnd53 (rnd53 (a' + b') + (a + b - rnd53 (a + b)))\<bar> < top_units"
    using I(2) pow_below_top [of "max (ex53 a) (ex53 b) + 37"] mx by linarith
  then have LL: "finite64 L" "units L = rnd53 (rnd53 (a' + b') + (a + b - rnd53 (a + b)))"
    using dadd_units [OF M(1) T(1)] unfolding M(2) T(2) T(3) by (simp_all add: L_def)
  have r: "dd_add A B = quick_two_sum s L"
    unfolding dd_add_eq s_def L_def m_def ts_def ..
  have "finite64 (dadd s L)" using fr unfolding r by (simp add: quick_two_sum_eq)
  then have "renorm_ok s L"
    unfolding renorm_ok_def LL(2) T(3) using fs LL(1) I(3) by simp
  then show ?thesis unfolding r by (rule renorm_normalized)
qed

lemma dd_add_normalized:
  assumes "normalized A" "normalized B" "add_finite A B"
  shows "normalized (dd_add A B)"
  using normalized_near [OF assms(1)] normalized_near [OF assms(2)] assms(3) by (rule dd_add_near)

lemma dd_add_d_eq:
  "dd_add_d A b = quick_two_sum (dadd (hi A) b) (dadd (lo A) (lo (two_sum (hi A) b)))"
  by (simp add: dd_add_d_def Let_def two_sum_eq)

lemma dd_add_d_normalized:
  assumes "normalized A" "finite64 b" "add_d_finite A b"
  shows "normalized (dd_add_d A b)"
proof -
  define a a' where "a = units (hi A)" and "a' = units (lo A)"
  define s where "s = dadd (hi A) b"
  define ts where "ts = lo (two_sum (hi A) b)"
  define L where "L = dadd (lo A) ts"
  note N = near_normalized_D [OF normalized_near [OF assms(1)]]
  note fa = N(1) and fa' = N(2)
  have na: "\<bar>a'\<bar> \<le> 2 ^ (ex53 a + 35)" using N(3) by (simp add: a_def a'_def)
  have nb: "\<bar>0::int\<bar> \<le> 2 ^ (ex53 (units b) + 35)" by simp
  have fs: "finite64 s" and fv: "finite64 (dsub s (hi A))" and fr: "finite64 (hi (dd_add_d A b))"
    using assms(3) by (simp_all add: add_d_finite_def s_def)
  have T: "finite64 ts" "units ts = a + units b - units s" "units s = rnd53 (a + units b)"
    using two_sum_units [OF fa assms(2) fs [unfolded s_def] fv [unfolded s_def]]
    by (simp_all add: ts_def s_def a_def)
  have id: "rnd53 (a' + 0) = a'" using finite64_F53 [OF fa'] by (simp add: rnd53_id a'_def)
  note I = lo_sum_int [OF finite64_F53 [OF fa] finite64_F53 [OF assms(2)],
      folded a_def, OF na nb, unfolded id]
  have mx: "max (ex53 a) (ex53 (units b)) \<le> 2045"
    using finite64_ex53 [OF fa] finite64_ex53 [OF assms(2)] by (simp add: a_def)
  have "\<bar>rnd53 (a' + (a + units b - rnd53 (a + units b)))\<bar> < top_units"
    using I(2) pow_below_top [of "max (ex53 a) (ex53 (units b)) + 37"] mx by linarith
  then have LL: "finite64 L" "units L = rnd53 (a' + (a + units b - rnd53 (a + units b)))"
    using dadd_units [OF fa' T(1)] unfolding T(2) T(3) a'_def [symmetric] by (simp_all add: L_def)
  have r: "dd_add_d A b = quick_two_sum s L"
    unfolding dd_add_d_eq s_def L_def ts_def ..
  have "finite64 (dadd s L)" using fr unfolding r by (simp add: quick_two_sum_eq)
  then have "renorm_ok s L"
    unfolding renorm_ok_def LL(2) T(3) using fs LL(1) I(3) by simp
  then show ?thesis unfolding r by (rule renorm_normalized)
qed

subsection \<open>Multiplication\<close>

lemma dd_mul_d_eq:
  "dd_mul_d A b =
     quick_two_sum (hi (two_prod (hi A) b)) (dadd (dmul (lo A) b) (lo (two_prod (hi A) b)))"
  by (simp add: dd_mul_d_def Let_def)

lemma dd_mul_fma_eq:
  "dd_mul_fma A B =
     quick_two_sum (hi (two_prod_fma (hi A) (hi B)))
       (dadd (lo (two_prod_fma (hi A) (hi B))) (dadd (dmul (hi A) (lo B)) (dmul (lo A) (hi B))))"
  by (simp add: dd_mul_fma_def Let_def)

lemma dd_mul_eq:
  "dd_mul A B =
     dd_add (dd_add (dd_add (two_prod (hi A) (hi B)) (two_prod (hi A) (lo B)))
       (two_prod (lo A) (hi B))) (two_prod (lo A) (lo B))"
  by (simp add: dd_mul_def Let_def)

section \<open>Rounding of inexact results\<close>

lemma round_units_zero [simp]: "round_units sh 0 = 0"
  by (simp add: round_units_def rne_def)

lemma round_units_mult:
  "round_units sh n * 2 ^ sh = rne (max sh (bitlen n - 53)) n"
proof -
  define d where "d = max sh (bitlen n - 53)"
  have "2 ^ d dvd rne d n" by (rule rne_dvd)
  moreover have "(2::nat) ^ sh dvd 2 ^ d" by (rule le_imp_power_dvd) (simp add: d_def)
  ultimately have "2 ^ sh dvd rne d n" by (rule dvd_trans [rotated])
  then show ?thesis unfolding round_units_def d_def [symmetric] by simp
qed

lemma round_units_le:
  assumes "n \<le> 2 ^ (m + sh)"
  shows "round_units sh n \<le> 2 ^ m"
proof -
  define d where "d = max sh (bitlen n - 53)"
  have "n < 2 ^ Suc (m + sh)" using assms by (simp add: le_less_trans)
  then have "bitlen n \<le> Suc (m + sh)" by (simp add: bitlen_le_iff)
  then have "d \<le> m + sh" unfolding d_def by simp
  then have "(2::nat) ^ d dvd 2 ^ (m + sh)" by (rule le_imp_power_dvd)
  then have "\<bar>int (rne d n) - int n\<bar> \<le> \<bar>int (2 ^ (m + sh)) - int n\<bar>" by (rule rne_nearest)
  then have "int (rne d n) \<le> int (2 ^ (m + sh))" using assms by linarith
  then have "rne d n \<le> 2 ^ (m + sh)" by (simp only: of_nat_le_iff)
  then have "round_units sh n * 2 ^ sh \<le> 2 ^ m * 2 ^ sh"
    unfolding round_units_mult d_def by (simp add: power_add)
  then show ?thesis by simp
qed

lemma round_units_ge:
  assumes "2 ^ (m + sh) \<le> n"
  shows "2 ^ m \<le> round_units sh n"
proof -
  define d where "d = max sh (bitlen n - 53)"
  have "2 ^ (m + sh) \<le> rne d n"
  proof (cases "bitlen n - 53 \<le> sh")
    case True
    then have d: "d = sh" by (simp add: d_def)
    have "(2::nat) ^ sh dvd 2 ^ (m + sh)" by (rule le_imp_power_dvd) simp
    then have "\<bar>int (rne sh n) - int n\<bar> \<le> \<bar>int (2 ^ (m + sh)) - int n\<bar>" by (rule rne_nearest)
    then have "int (2 ^ (m + sh)) \<le> int (rne sh n)" using assms by linarith
    then show ?thesis unfolding d by (simp only: of_nat_le_iff)
  next
    case False
    then have d: "d = bitlen n - 53" by (simp add: d_def)
    show ?thesis unfolding d round53_def [symmetric] using assms by (rule round53_ge_pow2)
  qed
  then have "2 ^ m * 2 ^ sh \<le> round_units sh n * 2 ^ sh"
    unfolding round_units_mult d_def by (simp add: power_add)
  then show ?thesis by simp
qed

lemma round_units_err:
  assumes "n \<le> 2 ^ (m + 53 + sh)"
  shows "\<bar>int (round_units sh n * 2 ^ sh) - int n\<bar> \<le> 2 ^ (m + sh)"
proof -
  define d where "d = max sh (bitlen n - 53)"
  have "n < 2 ^ Suc (m + 53 + sh)" using assms by (simp add: le_less_trans)
  then have "bitlen n \<le> Suc (m + 53 + sh)" by (simp add: bitlen_le_iff)
  then have "d \<le> Suc (m + sh)" unfolding d_def by simp
  then have "(2::int) ^ d \<le> 2 ^ Suc (m + sh)" by (rule power_increasing) simp
  moreover have "2 * \<bar>int (rne d n) - int n\<bar> \<le> 2 ^ d" by (rule rne_half)
  ultimately have "\<bar>int (rne d n) - int n\<bar> \<le> 2 ^ (m + sh)" by simp
  then show ?thesis unfolding round_units_mult d_def .
qed

lemma round_units_fp53: "fp53 (round_units sh n)"
proof -
  define d where "d = max sh (bitlen n - 53)"
  define e where "e = d - sh"
  have de: "d = e + sh" unfolding e_def d_def by simp
  have R: "round_units sh n * 2 ^ sh = rne d n" unfolding round_units_mult d_def ..
  have "bitlen n \<le> d + 53" unfolding d_def by simp
  then have "n < 2 ^ (d + 53)" by (simp add: bitlen_le_iff)
  moreover have "(2::nat) ^ d dvd 2 ^ (d + 53)" by (rule le_imp_power_dvd) simp
  then have "\<bar>int (rne d n) - int n\<bar> \<le> \<bar>int (2 ^ (d + 53)) - int n\<bar>" by (rule rne_nearest)
  ultimately have "int (rne d n) \<le> int (2 ^ (d + 53))" by linarith
  then have "rne d n \<le> 2 ^ (d + 53)" by (simp only: of_nat_le_iff)
  then have "round_units sh n * 2 ^ sh \<le> 2 ^ (e + 53) * 2 ^ sh"
    unfolding R de by (simp add: power_add mult_ac)
  then have b: "round_units sh n \<le> 2 ^ (e + 53)" by simp
  have "2 ^ e * 2 ^ sh dvd round_units sh n * 2 ^ sh"
    unfolding R using rne_dvd [of d n] unfolding de by (simp add: power_add)
  then have "2 ^ e dvd round_units sh n" by simp
  then show ?thesis using b by (rule fp53_intro)
qed

subsection \<open>Magnitude and error of a rounded exact value\<close>

lemma mk_cases:
  "mk s sh n = DInf s \<or> (round_units sh n < 2 ^ 2098 \<and> mk s sh n = DFin s (round_units sh n))"
proof (cases "(2::nat) ^ 2098 \<le> round_units sh n")
  case True
  then have "mk s sh n = DInf s" unfolding mk_def Let_def by (simp only: if_True)
  then show ?thesis ..
next
  case False
  then have "mk s sh n = DFin s (round_units sh n)" unfolding mk_def Let_def by (simp only: if_False)
  moreover have "round_units sh n < 2 ^ 2098" using False by (simp only: not_le)
  ultimately show ?thesis by blast
qed

lemma mk_small:
  assumes "round_units sh n < 2 ^ 2098"
  shows "mk s sh n = DFin s (round_units sh n)"
proof -
  have "\<not> (2::nat) ^ 2098 \<le> round_units sh n" using assms by (simp only: not_le)
  then show ?thesis unfolding mk_def Let_def by (simp only: if_False)
qed

lemma of_exact_abs_units:
  assumes "finite64 (of_exact sh i zs)"
  shows "\<bar>units (of_exact sh i zs)\<bar> = int (round_units sh (nat \<bar>i\<bar>))"
    "units (of_exact sh i zs) = (if i < 0 then - int (round_units sh (nat \<bar>i\<bar>))
       else int (round_units sh (nat \<bar>i\<bar>)))"
proof -
  have "\<bar>units (of_exact sh i zs)\<bar> = int (round_units sh (nat \<bar>i\<bar>)) \<and>
    units (of_exact sh i zs) = (if i < 0 then - int (round_units sh (nat \<bar>i\<bar>))
       else int (round_units sh (nat \<bar>i\<bar>)))"
  proof (cases "i = 0")
    case True
    then show ?thesis by (simp add: of_exact_def sval_def)
  next
    case False
    then have o: "of_exact sh i zs = mk (i < 0) sh (nat \<bar>i\<bar>)" by (simp add: of_exact_def)
    from mk_cases [of "i < 0" sh "nat \<bar>i\<bar>"] assms
    have "of_exact sh i zs = DFin (i < 0) (round_units sh (nat \<bar>i\<bar>))"
      unfolding o by auto
    then show ?thesis by (simp add: sval_def)
  qed
  then show "\<bar>units (of_exact sh i zs)\<bar> = int (round_units sh (nat \<bar>i\<bar>))"
    "units (of_exact sh i zs) = (if i < 0 then - int (round_units sh (nat \<bar>i\<bar>))
       else int (round_units sh (nat \<bar>i\<bar>)))" by blast+
qed

lemma of_exact_le:
  assumes "finite64 (of_exact sh i zs)" "\<bar>i\<bar> \<le> 2 ^ (m + sh)"
  shows "\<bar>units (of_exact sh i zs)\<bar> \<le> 2 ^ m"
proof -
  have "nat \<bar>i\<bar> \<le> 2 ^ (m + sh)" using assms(2) by (simp add: nat_le_pow2)
  then have "round_units sh (nat \<bar>i\<bar>) \<le> 2 ^ m" by (rule round_units_le)
  then have "int (round_units sh (nat \<bar>i\<bar>)) \<le> int (2 ^ m)" by (simp only: of_nat_le_iff)
  then show ?thesis unfolding of_exact_abs_units(1) [OF assms(1)] by simp
qed

lemma of_exact_ge:
  assumes "finite64 (of_exact sh i zs)" "2 ^ (m + sh) \<le> \<bar>i\<bar>"
  shows "2 ^ m \<le> \<bar>units (of_exact sh i zs)\<bar>"
proof -
  have "2 ^ (m + sh) \<le> nat \<bar>i\<bar>" using assms(2) by (simp add: pow2_le_nat)
  then have "2 ^ m \<le> round_units sh (nat \<bar>i\<bar>)" by (rule round_units_ge)
  then have "int (2 ^ m) \<le> int (round_units sh (nat \<bar>i\<bar>))" by (simp only: of_nat_le_iff)
  then show ?thesis unfolding of_exact_abs_units(1) [OF assms(1)] by simp
qed

lemma of_exact_err:
  assumes "finite64 (of_exact sh i zs)" "\<bar>i\<bar> \<le> 2 ^ (m + 53 + sh)"
  shows "\<bar>units (of_exact sh i zs) * 2 ^ sh - i\<bar> \<le> 2 ^ (m + sh)"
proof -
  define U where "U = round_units sh (nat \<bar>i\<bar>)"
  have "nat \<bar>i\<bar> \<le> 2 ^ (m + 53 + sh)" using assms(2) by (simp add: nat_le_pow2)
  then have "\<bar>int (U * 2 ^ sh) - int (nat \<bar>i\<bar>)\<bar> \<le> 2 ^ (m + sh)"
    unfolding U_def by (rule round_units_err)
  then have e: "\<bar>int U * 2 ^ sh - \<bar>i\<bar>\<bar> \<le> 2 ^ (m + sh)" by simp
  show ?thesis
  proof (cases "i < 0")
    case True
    then have "units (of_exact sh i zs) * 2 ^ sh - i = - (int U * 2 ^ sh - \<bar>i\<bar>)"
      unfolding of_exact_abs_units(2) [OF assms(1)] U_def by simp
    then show ?thesis using e by simp
  next
    case False
    then have "units (of_exact sh i zs) * 2 ^ sh - i = int U * 2 ^ sh - \<bar>i\<bar>"
      unfolding of_exact_abs_units(2) [OF assms(1)] U_def by simp
    then show ?thesis using e by simp
  qed
qed

subsection \<open>Products and fused products of doubles\<close>

lemma dmul_le:
  assumes "finite64 x" "finite64 y" "finite64 (dmul x y)" "\<bar>units x * units y\<bar> \<le> 2 ^ (m + 1074)"
  shows "\<bar>units (dmul x y)\<bar> \<le> 2 ^ m"
proof -
  obtain s k where x: "x = DFin s k" using finite64_D [OF assms(1)] by blast
  obtain t n where y: "y = DFin t n" using finite64_D [OF assms(2)] by blast
  show ?thesis using assms(3,4) unfolding x y dmul_DFin by (rule of_exact_le)
qed

lemma dmul_ge:
  assumes "finite64 x" "finite64 y" "finite64 (dmul x y)" "2 ^ (m + 1074) \<le> \<bar>units x * units y\<bar>"
  shows "2 ^ m \<le> \<bar>units (dmul x y)\<bar>"
proof -
  obtain s k where x: "x = DFin s k" using finite64_D [OF assms(1)] by blast
  obtain t n where y: "y = DFin t n" using finite64_D [OF assms(2)] by blast
  show ?thesis using assms(3,4) unfolding x y dmul_DFin by (rule of_exact_ge)
qed

lemma dmul_err:
  assumes "finite64 x" "finite64 y" "finite64 (dmul x y)"
    "\<bar>units x * units y\<bar> \<le> 2 ^ (m + 53 + 1074)"
  shows "\<bar>units (dmul x y) * 2 ^ 1074 - units x * units y\<bar> \<le> 2 ^ (m + 1074)"
proof -
  obtain s k where x: "x = DFin s k" using finite64_D [OF assms(1)] by blast
  obtain t n where y: "y = DFin t n" using finite64_D [OF assms(2)] by blast
  show ?thesis using assms(3,4) unfolding x y dmul_DFin by (rule of_exact_err)
qed

lemma fma_le:
  assumes "finite64 x" "finite64 y" "finite64 c" "finite64 (fma x y c)"
    "\<bar>units x * units y + units c * 2 ^ 1074\<bar> \<le> 2 ^ (m + 1074)"
  shows "\<bar>units (fma x y c)\<bar> \<le> 2 ^ m"
proof -
  obtain s k where x: "x = DFin s k" using finite64_D [OF assms(1)] by blast
  obtain t n where y: "y = DFin t n" using finite64_D [OF assms(2)] by blast
  obtain u j where c: "c = DFin u j" using finite64_D [OF assms(3)] by blast
  show ?thesis using assms(4,5) unfolding x y c fma_DFin by (rule of_exact_le)
qed

section \<open>Infinities and NaNs propagate\<close>

text \<open>
  Every operation returns a well-formed double, and a finite result of an operation on
  well-formed doubles has finite operands. So a finite high word of a result means that no
  operation of the computation overflowed.
\<close>

lemma is_double_of_exact [simp]: "is_double (of_exact sh i zs)"
proof (cases "i = 0")
  case True
  then show ?thesis by (simp add: of_exact_def representable_0)
next
  case False
  then have o: "of_exact sh i zs = mk (i < 0) sh (nat \<bar>i\<bar>)" by (simp add: of_exact_def)
  from mk_cases [of "i < 0" sh "nat \<bar>i\<bar>"] show ?thesis
  proof
    assume "mk (i < 0) sh (nat \<bar>i\<bar>) = DInf (i < 0)"
    then show ?thesis unfolding o by simp
  next
    assume a: "round_units sh (nat \<bar>i\<bar>) < 2 ^ 2098 \<and>
      mk (i < 0) sh (nat \<bar>i\<bar>) = DFin (i < 0) (round_units sh (nat \<bar>i\<bar>))"
    then have "representable (round_units sh (nat \<bar>i\<bar>))"
      unfolding representable_def using round_units_fp53 by blast
    then show ?thesis unfolding o using a by simp
  qed
qed

lemma is_double_dneg [simp]: "is_double (dneg x) = is_double x"
  by (cases x) simp_all

lemma is_double_dadd [simp]: "is_double (dadd x y)"
  by (cases x; cases y) simp_all

lemma is_double_dsub [simp]: "is_double (dsub x y)"
  by (simp add: dsub_def)

lemma is_double_dmul [simp]: "is_double (dmul x y)"
  by (cases x; cases y) simp_all

lemma is_double_fma [simp]: "is_double (fma x y z)"
  by (cases x; cases y; cases z) simp_all

lemma dadd_finite_D:
  assumes "finite64 (dadd x y)" "is_double x" "is_double y"
  shows "finite64 x" "finite64 y"
  using assms by (cases x; cases y; simp split: if_splits)+

lemma dsub_finite_D:
  assumes "finite64 (dsub x y)" "is_double x" "is_double y"
  shows "finite64 x" "finite64 y"
proof -
  have "is_double (dneg y)" using assms(3) by simp
  with assms(1,2) have "finite64 x" "finite64 (dneg y)"
    unfolding dsub_def by (rule dadd_finite_D)+
  then show "finite64 x" "finite64 y" by (simp_all add: finite64_dneg)
qed

lemma dmul_finite_D:
  assumes "finite64 (dmul x y)" "is_double x" "is_double y"
  shows "finite64 x" "finite64 y"
  using assms by (cases x; cases y; simp split: if_splits)+

lemma fma_finite_D:
  assumes "finite64 (fma x y z)" "is_double x" "is_double y" "is_double z"
  shows "finite64 x" "finite64 y" "finite64 z"
  using assms by (cases x; cases y; cases z; simp split: if_splits)+

subsection \<open>Units of finite results\<close>

lemma dadd_units_fin:
  assumes "finite64 a" "finite64 b" "finite64 (dadd a b)"
  shows "units (dadd a b) = rnd53 (units a + units b)"
  using dadd_units [OF assms(1,2)] assms(3) dadd_finite_iff [OF assms(1,2)] by blast

lemma dsub_units_fin:
  assumes "finite64 a" "finite64 b" "finite64 (dsub a b)"
  shows "units (dsub a b) = rnd53 (units a - units b)"
  using dsub_units [OF assms(1,2)] assms(3) dsub_finite_iff [OF assms(1,2)] by blast

lemma dadd_abs_le:
  assumes "finite64 a" "finite64 b" "finite64 (dadd a b)" "\<bar>units a + units b\<bar> \<le> 2 ^ k"
  shows "\<bar>units (dadd a b)\<bar> \<le> 2 ^ k"
  unfolding dadd_units_fin [OF assms(1-3)] using assms(4) by (rule rnd53_abs_le)

lemma dsub_abs_le:
  assumes "finite64 a" "finite64 b" "finite64 (dsub a b)" "\<bar>units a - units b\<bar> \<le> 2 ^ k"
  shows "\<bar>units (dsub a b)\<bar> \<le> 2 ^ k"
  unfolding dsub_units_fin [OF assms(1-3)] using assms(4) by (rule rnd53_abs_le)

section \<open>The operand splitting, relative to the operand\<close>

lemma abs_bracket:
  fixes x :: int
  assumes "x \<noteq> 0"
  obtains n where "2 ^ n \<le> \<bar>x\<bar>" "\<bar>x\<bar> < 2 ^ Suc n"
proof -
  define b where "b = bitlen (nat \<bar>x\<bar>)"
  have nz: "nat \<bar>x\<bar> \<noteq> 0" using assms by simp
  then have "b \<noteq> 0" unfolding b_def by (simp add: bitlen_pos)
  then have b: "Suc (b - 1) = b" by simp
  have "2 ^ (b - 1) \<le> nat \<bar>x\<bar>" unfolding b_def using nz by (rule bitlen_ge)
  then have 1: "2 ^ (b - 1) \<le> \<bar>x\<bar>" by (simp only: pow2_le_nat)
  have "nat \<bar>x\<bar> < 2 ^ b" unfolding b_def by (rule bitlen_less)
  then have "\<bar>x\<bar> < 2 ^ Suc (b - 1)" unfolding b by (simp only: nat_less_pow2)
  with 1 show thesis by (rule that)
qed

lemma split_small:
  assumes "F53 x" "\<bar>x\<bar> < 2 ^ 25"
  shows "split_hi x = x" "split_lo x = 0"
proof -
  have "\<bar>134217729 * x\<bar> < 2 ^ 53" using assms(2) by (simp add: abs_mult)
  then have t: "rnd53 (134217729 * x) = 134217729 * x" by (intro rnd53_id F53_small)
  have "\<bar>134217729 * x - x\<bar> < 2 ^ 53" using assms(2) by simp
  then have u: "rnd53 (134217729 * x - x) = 134217729 * x - x" by (intro rnd53_id F53_small)
  show h: "split_hi x = x"
    unfolding split_hi_def Let_def t u using assms(1) by (simp add: rnd53_id)
  show "split_lo x = 0" unfolding split_lo_def h by simp
qed

lemma split_large:
  assumes lo: "2 ^ (k + 25) \<le> \<bar>x\<bar>" and hi: "\<bar>x\<bar> < 2 ^ (k + 26)"
  shows "\<bar>split_hi x - x\<bar> \<le> 2 * 2 ^ k" "\<bar>split_lo x\<bar> \<le> 2 * 2 ^ k"
proof -
  define K :: int where "K = 2 ^ k"
  define t where "t = rnd53 (134217729 * x)"
  define u where "u = rnd53 (t - x)"
  define h where "h = rnd53 (t - u)"
  have Kpos: "0 < K" by (simp add: K_def)
  have pw: "(2::int) ^ (k + 25) = 33554432 * K" "(2::int) ^ (k + 26) = 67108864 * K"
    "(2::int) ^ (Suc k + 53) = 18014398509481984 * K" "(2::int) ^ Suc k = 2 * K"
    by (simp_all add: K_def power_add)
  have x: "\<bar>x\<bar> < 67108864 * K" using hi unfolding pw .
  have "\<bar>134217729 * x\<bar> = 134217729 * \<bar>x\<bar>" by (simp add: abs_mult)
  then have "\<bar>134217729 * x\<bar> \<le> 2 ^ (Suc k + 53)" using x unfolding pw by linarith
  then have "2 * \<bar>t - 134217729 * x\<bar> \<le> 2 ^ Suc k" unfolding t_def by (rule rnd53_half)
  then have e1: "\<bar>t - 134217729 * x\<bar> \<le> K" unfolding pw by simp
  have "\<bar>t - x\<bar> \<le> \<bar>t - 134217729 * x\<bar> + 134217728 * \<bar>x\<bar>" by linarith
  then have "\<bar>t - x\<bar> \<le> 2 ^ (Suc k + 53)" using e1 x unfolding pw by linarith
  then have "2 * \<bar>u - (t - x)\<bar> \<le> 2 ^ Suc k" unfolding u_def by (rule rnd53_half)
  then have e2: "\<bar>u - (t - x)\<bar> \<le> K" unfolding pw by simp
  then have "\<bar>t - u\<bar> \<le> \<bar>x\<bar> + K" by linarith
  then have "\<bar>t - u\<bar> \<le> 2 ^ (Suc k + 53)" using x Kpos unfolding pw by linarith
  then have "2 * \<bar>h - (t - u)\<bar> \<le> 2 ^ Suc k" unfolding h_def by (rule rnd53_half)
  then have e3: "\<bar>h - (t - u)\<bar> \<le> K" unfolding pw by simp
  have hh: "split_hi x = h" unfolding split_hi_def Let_def h_def u_def t_def ..
  have d: "\<bar>h - x\<bar> \<le> 2 * K" using e2 e3 by linarith
  then show "\<bar>split_hi x - x\<bar> \<le> 2 * 2 ^ k" unfolding hh K_def .
  have "\<bar>x - h\<bar> \<le> 2 ^ Suc k" using d unfolding pw by linarith
  then have "\<bar>rnd53 (x - h)\<bar> \<le> 2 ^ Suc k" by (rule rnd53_abs_le)
  then show "\<bar>split_lo x\<bar> \<le> 2 * 2 ^ k" unfolding split_lo_def hh K_def by simp
qed

lemma split_rel:
  assumes "F53 x"
  shows "\<bar>split_hi x - x\<bar> * 2 ^ 24 \<le> \<bar>x\<bar>" "\<bar>split_lo x\<bar> * 2 ^ 24 \<le> \<bar>x\<bar>"
proof -
  have "\<bar>split_hi x - x\<bar> * 2 ^ 24 \<le> \<bar>x\<bar> \<and> \<bar>split_lo x\<bar> * 2 ^ 24 \<le> \<bar>x\<bar>"
  proof (cases "\<bar>x\<bar> < 2 ^ 25")
    case True
    with assms show ?thesis by (simp add: split_small)
  next
    case False
    then have "x \<noteq> 0" by auto
    then obtain n where n: "2 ^ n \<le> \<bar>x\<bar>" "\<bar>x\<bar> < 2 ^ Suc n" by (rule abs_bracket)
    have "\<not> Suc n \<le> 25"
    proof
      assume "Suc n \<le> 25"
      then have "(2::int) ^ Suc n \<le> 2 ^ 25" by (rule power_increasing) simp
      with n(2) False show False by linarith
    qed
    then obtain k where k: "n = k + 25" by (metis add.commute le_Suc_eq less_eqE not_less_eq_eq)
    have S: "Suc (k + 25) = k + 26" by simp
    note L = split_large [OF n(1) [unfolded k] n(2) [unfolded k S]]
    have "(2::int) ^ (k + 25) = 2 * 2 ^ k * 2 ^ 24" by (simp add: power_add)
    then have "2 * 2 ^ k * 2 ^ 24 \<le> \<bar>x\<bar>" using n(1) unfolding k by simp
    moreover have "\<bar>split_hi x - x\<bar> * 2 ^ 24 \<le> 2 * 2 ^ k * 2 ^ 24"
      using L(1) by (intro mult_right_mono) simp_all
    moreover have "\<bar>split_lo x\<bar> * 2 ^ 24 \<le> 2 * 2 ^ k * 2 ^ 24"
      using L(2) by (intro mult_right_mono) simp_all
    ultimately show ?thesis by linarith
  qed
  then show "\<bar>split_hi x - x\<bar> * 2 ^ 24 \<le> \<bar>x\<bar>" "\<bar>split_lo x\<bar> * 2 ^ 24 \<le> \<bar>x\<bar>" by blast+
qed

lemma split_hi_rel:
  assumes "F53 x"
  shows "\<bar>split_hi x\<bar> \<le> 2 * \<bar>x\<bar>"
proof -
  have "\<bar>split_hi x - x\<bar> \<le> \<bar>split_hi x - x\<bar> * 2 ^ 24" by simp
  then show ?thesis using split_rel(1) [OF assms] by linarith
qed

section \<open>The error term of the split product, with or without underflow\<close>

lemma abs_prod_le:
  fixes x y p q :: int
  assumes "\<bar>x\<bar> * m \<le> p" "\<bar>y\<bar> * n \<le> q" "0 \<le> m" "0 \<le> n"
  shows "\<bar>x * y\<bar> * (m * n) \<le> p * q"
proof -
  have "0 \<le> \<bar>x\<bar> * m" "0 \<le> \<bar>y\<bar> * n" using assms(3,4) by simp_all
  then have "0 \<le> p" "0 \<le> \<bar>y\<bar> * n" using assms(1) by linarith+
  then have "(\<bar>x\<bar> * m) * (\<bar>y\<bar> * n) \<le> p * q"
    using assms(1,2) by (intro mult_mono) simp_all
  then show ?thesis by (simp add: abs_mult mult_ac)
qed

lemma split_products:
  assumes "F53 a" "F53 b"
  shows "\<bar>split_hi a * split_hi b\<bar> \<le> 4 * \<bar>a * b\<bar>"
    "\<bar>split_hi a * split_hi b - a * b\<bar> * 2 ^ 22 \<le> \<bar>a * b\<bar>"
    "\<bar>split_hi a * split_lo b\<bar> * 2 ^ 23 \<le> \<bar>a * b\<bar>"
    "\<bar>split_lo a * split_hi b\<bar> * 2 ^ 23 \<le> \<bar>a * b\<bar>"
    "\<bar>split_lo a * split_lo b\<bar> * 2 ^ 48 \<le> \<bar>a * b\<bar>"
proof -
  define T where "T = \<bar>a\<bar> * \<bar>b\<bar>"
  have T: "\<bar>a * b\<bar> = T" by (simp add: T_def abs_mult)
  have T0: "0 \<le> T" by (simp add: T_def)
  note A = split_rel [OF assms(1)] split_hi_rel [OF assms(1)]
  note B = split_rel [OF assms(2)] split_hi_rel [OF assms(2)]
  have ha: "\<bar>split_hi a\<bar> * 1 \<le> 2 * \<bar>a\<bar>" and hb: "\<bar>split_hi b\<bar> * 1 \<le> 2 * \<bar>b\<bar>"
    using A(3) B(3) by simp_all
  have ia: "\<bar>a\<bar> * 1 \<le> \<bar>a\<bar>" by simp
  have "\<bar>split_hi a * split_hi b\<bar> * (1 * 1) \<le> (2 * \<bar>a\<bar>) * (2 * \<bar>b\<bar>)"
    using ha hb by (rule abs_prod_le) simp_all
  then show "\<bar>split_hi a * split_hi b\<bar> \<le> 4 * \<bar>a * b\<bar>" unfolding T by (simp add: T_def)
  have "\<bar>split_hi a * split_lo b\<bar> * (1 * 2 ^ 24) \<le> (2 * \<bar>a\<bar>) * \<bar>b\<bar>"
    using ha B(2) by (rule abs_prod_le) simp_all
  then show "\<bar>split_hi a * split_lo b\<bar> * 2 ^ 23 \<le> \<bar>a * b\<bar>" unfolding T by (simp add: T_def)
  have "\<bar>split_lo a * split_hi b\<bar> * (2 ^ 24 * 1) \<le> \<bar>a\<bar> * (2 * \<bar>b\<bar>)"
    using A(2) hb by (rule abs_prod_le) simp_all
  then show "\<bar>split_lo a * split_hi b\<bar> * 2 ^ 23 \<le> \<bar>a * b\<bar>" unfolding T by (simp add: T_def)
  have "\<bar>split_lo a * split_lo b\<bar> * (2 ^ 24 * 2 ^ 24) \<le> \<bar>a\<bar> * \<bar>b\<bar>"
    using A(2) B(2) by (rule abs_prod_le) simp_all
  then show "\<bar>split_lo a * split_lo b\<bar> * 2 ^ 48 \<le> \<bar>a * b\<bar>" unfolding T by (simp add: T_def)
  define X where "X = \<bar>(split_hi a - a) * split_hi b\<bar>"
  define Y where "Y = \<bar>a * (split_hi b - b)\<bar>"
  define Z where "Z = \<bar>split_hi a * split_hi b - a * b\<bar>"
  have "\<bar>(split_hi a - a) * split_hi b\<bar> * (2 ^ 24 * 1) \<le> \<bar>a\<bar> * (2 * \<bar>b\<bar>)"
    using A(1) hb by (rule abs_prod_le) simp_all
  then have 1: "X * 16777216 \<le> 2 * T" by (simp add: T_def X_def)
  have "\<bar>a * (split_hi b - b)\<bar> * (1 * 2 ^ 24) \<le> \<bar>a\<bar> * \<bar>b\<bar>"
    using ia B(1) by (rule abs_prod_le) simp_all
  then have 2: "Y * 16777216 \<le> T" by (simp add: T_def Y_def)
  have "split_hi a * split_hi b - a * b = (split_hi a - a) * split_hi b + a * (split_hi b - b)"
    by (simp add: algebra_simps)
  then have "Z \<le> X + Y" unfolding X_def Y_def Z_def by simp
  then have "Z * 4194304 \<le> T" using 1 2 T0 by linarith
  then show "\<bar>split_hi a * split_hi b - a * b\<bar> * 2 ^ 22 \<le> \<bar>a * b\<bar>"
    unfolding T Z_def by simp
qed

lemma scaled_le:
  fixes x :: int
  assumes "x * c \<le> T" "T \<le> U" "U \<le> c * W" "0 < c"
  shows "x \<le> W"
proof -
  have "x * c \<le> W * c" using assms(1,2,3) by (simp add: mult.commute)
  then show ?thesis using assms(4) by simp
qed

lemma pow_scaled: "(2::int) ^ ((g + k) + n) = 2 ^ k * (2 ^ g * 2 ^ n)"
  by (simp add: power_add mult_ac)

lemma pow_scaled0: "(2::int) ^ (g + n) = 2 ^ g * 2 ^ n"
  by (rule power_add)

lemma two_prod_finite_D:
  assumes "finite64 a" "finite64 b" "finite64 (lo (two_prod a b))"
  shows "finite64 (dmul SPLIT_CONST a)" "finite64 (dmul SPLIT_CONST b)" "finite64 (dmul a b)"
    "finite64 (dmul (fst (split_double a)) (fst (split_double b)))"
    "finite64 (dmul (fst (split_double a)) (snd (split_double b)))"
    "finite64 (dmul (snd (split_double a)) (fst (split_double b)))"
    "finite64 (dmul (snd (split_double a)) (snd (split_double b)))"
    "finite64 (dsub (dmul (fst (split_double a)) (fst (split_double b))) (dmul a b))"
    "finite64 (dadd (dsub (dmul (fst (split_double a)) (fst (split_double b))) (dmul a b))
       (dmul (fst (split_double a)) (snd (split_double b))))"
    "finite64 (dadd (dadd (dsub (dmul (fst (split_double a)) (fst (split_double b))) (dmul a b))
       (dmul (fst (split_double a)) (snd (split_double b))))
       (dmul (snd (split_double a)) (fst (split_double b))))"
proof -
  define ta tb where "ta = dmul SPLIT_CONST a" and "tb = dmul SPLIT_CONST b"
  define ah al where "ah = fst (split_double a)" and "al = snd (split_double a)"
  define bh bl where "bh = fst (split_double b)" and "bl = snd (split_double b)"
  define d1 where "d1 = dsub (dmul ah bh) (dmul a b)"
  define d2 where "d2 = dadd d1 (dmul ah bl)"
  define d3 where "d3 = dadd d2 (dmul al bh)"
  have sa: "ah = dsub ta (dsub ta a)" "al = dsub a ah"
    unfolding ah_def al_def ta_def split_double_eq by simp_all
  have sb: "bh = dsub tb (dsub tb b)" "bl = dsub b bh"
    unfolding bh_def bl_def tb_def split_double_eq by simp_all
  have i: "is_double ah" "is_double al" "is_double bh" "is_double bl" "is_double ta" "is_double tb"
    "is_double d1" "is_double d2" "is_double d3" "is_double a" "is_double b"
    unfolding sa sb d1_def d2_def d3_def ta_def tb_def
    using assms(1,2) by (simp_all add: finite64_is_double)
  have e: "lo (two_prod a b) = dadd d3 (dmul al bl)"
    unfolding two_prod_eq d3_def d2_def d1_def ah_def al_def bh_def bl_def by simp
  have f3: "finite64 d3" and fll: "finite64 (dmul al bl)"
    using dadd_finite_D [OF assms(3) [unfolded e] i(9)] by simp_all
  have f2: "finite64 d2" and flh: "finite64 (dmul al bh)"
    using dadd_finite_D [OF f3 [unfolded d3_def] i(8)] by simp_all
  have f1: "finite64 d1" and fhl: "finite64 (dmul ah bl)"
    using dadd_finite_D [OF f2 [unfolded d2_def] i(7)] by simp_all
  have fhh: "finite64 (dmul ah bh)" and fp: "finite64 (dmul a b)"
    using dsub_finite_D [OF f1 [unfolded d1_def]] by simp_all
  have fah: "finite64 ah" and fbh: "finite64 bh"
    using dmul_finite_D [OF fhh i(1) i(3)] by simp_all
  have "is_double (dsub ta a)" "is_double (dsub tb b)" by simp_all
  then have fta: "finite64 ta" and ftb: "finite64 tb"
    using dsub_finite_D(1) [OF fah [unfolded sa(1)] i(5)]
      dsub_finite_D(1) [OF fbh [unfolded sb(1)] i(6)] by simp_all
  show "finite64 (dmul SPLIT_CONST a)" "finite64 (dmul SPLIT_CONST b)" "finite64 (dmul a b)"
    using fta ftb fp unfolding ta_def tb_def by simp_all
  show "finite64 (dmul (fst (split_double a)) (fst (split_double b)))"
    "finite64 (dmul (fst (split_double a)) (snd (split_double b)))"
    "finite64 (dmul (snd (split_double a)) (fst (split_double b)))"
    "finite64 (dmul (snd (split_double a)) (snd (split_double b)))"
    using fhh fhl flh fll unfolding ah_def al_def bh_def bl_def by simp_all
  show "finite64 (dsub (dmul (fst (split_double a)) (fst (split_double b))) (dmul a b))"
    "finite64 (dadd (dsub (dmul (fst (split_double a)) (fst (split_double b))) (dmul a b))
       (dmul (fst (split_double a)) (snd (split_double b))))"
    "finite64 (dadd (dadd (dsub (dmul (fst (split_double a)) (fst (split_double b))) (dmul a b))
       (dmul (fst (split_double a)) (snd (split_double b))))
       (dmul (snd (split_double a)) (fst (split_double b))))"
    using f1 f2 f3 unfolding d1_def d2_def d3_def ah_def al_def bh_def bl_def by simp_all
qed

text \<open>
  If the exact product is at most \<open>2^(g+30)\<close> units, then the computed error term is at
  most \<open>2^(g+12)\<close> units, whether or not it is the exact residual.
\<close>

lemma two_prod_lo_bound:
  assumes fa: "finite64 a" and fb: "finite64 b" and fe: "finite64 (lo (two_prod a b))"
    and W: "\<bar>units a * units b\<bar> \<le> 2 ^ ((g + 30) + 1074)"
  shows "\<bar>units (lo (two_prod a b))\<bar> \<le> 2 ^ (g + 12)"
proof -
  define ah al where "ah = fst (split_double a)" and "al = snd (split_double a)"
  define bh bl where "bh = fst (split_double b)" and "bl = snd (split_double b)"
  define p hh hl lh ll where "p = dmul a b" and "hh = dmul ah bh" and "hl = dmul ah bl"
    and "lh = dmul al bh" and "ll = dmul al bl"
  define d1 where "d1 = dsub hh p"
  define d2 where "d2 = dadd d1 hl"
  define d3 where "d3 = dadd d2 lh"
  define A B where "A = units a" and "B = units b"
  define Q :: int where "Q = 2 ^ g"
  define G :: int where "G = 2 ^ 1074"
  define QG :: int where "QG = Q * G"
  define T where "T = \<bar>A * B\<bar>"
  note D = two_prod_finite_D [OF fa fb fe, folded ah_def al_def bh_def bl_def,
      folded p_def hh_def hl_def lh_def ll_def, folded d1_def, folded d2_def, folded d3_def]
  note SA = split_double_units [OF fa D(1), folded ah_def al_def A_def]
  note SB = split_double_units [OF fb D(2), folded bh_def bl_def B_def]
  have fah: "finite64 ah" and fal: "finite64 al" and fbh: "finite64 bh" and fbl: "finite64 bl"
    and uah: "units ah = split_hi A" and ual: "units al = split_lo A"
    and ubh: "units bh = split_hi B" and ubl: "units bl = split_lo B"
    using SA SB by simp_all
  have FA: "F53 A" and FB: "F53 B" unfolding A_def B_def using fa fb by (simp_all add: finite64_F53)
  note S = split_products [OF FA FB, folded T_def]
  have Qpos: "0 < Q" and Gpos: "0 < G" unfolding Q_def G_def by simp_all
  then have QGpos: "0 < QG" unfolding QG_def by simp
  have c: "(2::int) ^ 30 = 1073741824" "(2::int) ^ 53 = 9007199254740992" "(2::int) ^ 7 = 128"
    "(2::int) ^ 22 = 4194304" "(2::int) ^ 23 = 8388608" "(2::int) ^ 48 = 281474976710656"
    by simp_all
  note pw = pow_scaled [of g 30 1074, unfolded c, folded Q_def G_def, folded QG_def]
    pow_scaled [of g 53 1074, unfolded c, folded Q_def G_def, folded QG_def]
    pow_scaled [of g 7 1074, unfolded c, folded Q_def G_def, folded QG_def]
    pow_scaled0 [of g 1074, folded Q_def G_def, folded QG_def]
  have pq: "(2::int) ^ (g + 9) = 512 * Q" "(2::int) ^ (g + 7) = 128 * Q"
    "(2::int) ^ (g + 10) = 1024 * Q" "(2::int) ^ (g + 11) = 2048 * Q"
    "(2::int) ^ (g + 12) = 4096 * Q" "(2::int) ^ g = Q"
    by (simp_all add: Q_def power_add)
  have TW: "T \<le> 1073741824 * QG" using W unfolding pw T_def A_def B_def .
  have T0: "0 \<le> T" by (simp add: T_def)
  text \<open>the rounded products \<open>a * b\<close> and \<open>a_hi * b_hi\<close>\<close>
  have "\<bar>units a * units b\<bar> \<le> 2 ^ ((g + 53) + 1074)"
    using TW QGpos unfolding pw T_def A_def B_def by linarith
  then have "\<bar>units (dmul a b) * 2 ^ 1074 - units a * units b\<bar> \<le> 2 ^ (g + 1074)"
    by (intro dmul_err fa fb D(3) [unfolded p_def])
  then have ep: "\<bar>units p * G - A * B\<bar> \<le> QG"
    unfolding pw p_def A_def B_def G_def .
  have "\<bar>units ah * units bh\<bar> \<le> 2 ^ ((g + 53) + 1074)"
    using S(1) TW QGpos unfolding pw uah ubh by linarith
  then have "\<bar>units (dmul ah bh) * 2 ^ 1074 - units ah * units bh\<bar> \<le> 2 ^ (g + 1074)"
    by (intro dmul_err fah fbh D(4) [unfolded hh_def])
  then have eh: "\<bar>units hh * G - split_hi A * split_hi B\<bar> \<le> QG"
    unfolding pw hh_def uah ubh G_def .
  define X Y Z where "X = units hh * G" and "Y = units p * G" and "Z = A * B"
  define V where "V = split_hi A * split_hi B"
  have "\<bar>V - Z\<bar> * 4194304 \<le> T" using S(2) unfolding V_def Z_def c .
  then have "\<bar>V - Z\<bar> \<le> 256 * QG" using TW by (rule scaled_le [where W = "256 * QG"]) simp_all
  moreover have "\<bar>X - V\<bar> \<le> QG" "\<bar>Y - Z\<bar> \<le> QG" using eh ep unfolding X_def Y_def Z_def V_def .
  ultimately have "\<bar>X - Y\<bar> \<le> 258 * QG" by linarith
  moreover have "X - Y = (units hh - units p) * G"
    unfolding X_def Y_def by (rule left_diff_distrib [symmetric])
  then have "\<bar>X - Y\<bar> = \<bar>units hh - units p\<bar> * G"
    using Gpos by (simp add: abs_mult)
  ultimately have "\<bar>units hh - units p\<bar> * G \<le> (512 * Q) * G"
    using QGpos unfolding QG_def by simp
  then have "\<bar>units hh - units p\<bar> \<le> 512 * Q" using Gpos by simp
  then have "\<bar>units hh - units p\<bar> \<le> 2 ^ (g + 9)" unfolding pq .
  then have "\<bar>units (dsub hh p)\<bar> \<le> 2 ^ (g + 9)"
    by (intro dsub_abs_le D(4,3) D(8) [unfolded d1_def])
  then have b1: "\<bar>units d1\<bar> \<le> 512 * Q" unfolding d1_def [symmetric] pq .
  text \<open>the other partial products\<close>
  have "\<bar>units ah * units bl\<bar> * 8388608 \<le> T" using S(3) unfolding uah ubl c .
  then have "\<bar>units ah * units bl\<bar> \<le> 2 ^ ((g + 7) + 1074)"
    unfolding pw using TW by (rule scaled_le [where W = "128 * QG"]) simp_all
  then have "\<bar>units (dmul ah bl)\<bar> \<le> 2 ^ (g + 7)"
    by (intro dmul_le fah fbl D(5) [unfolded hl_def])
  then have bhl: "\<bar>units hl\<bar> \<le> 128 * Q" unfolding hl_def pq .
  have "\<bar>units al * units bh\<bar> * 8388608 \<le> T" using S(4) unfolding ual ubh c .
  then have "\<bar>units al * units bh\<bar> \<le> 2 ^ ((g + 7) + 1074)"
    unfolding pw using TW by (rule scaled_le [where W = "128 * QG"]) simp_all
  then have "\<bar>units (dmul al bh)\<bar> \<le> 2 ^ (g + 7)"
    by (intro dmul_le fal fbh D(6) [unfolded lh_def])
  then have blh: "\<bar>units lh\<bar> \<le> 128 * Q" unfolding lh_def pq .
  have "\<bar>units al * units bl\<bar> * 281474976710656 \<le> T" using S(5) unfolding ual ubl c .
  moreover have "T \<le> 281474976710656 * QG" using TW QGpos by linarith
  ultimately have "\<bar>units al * units bl\<bar> \<le> 2 ^ (g + 1074)"
    unfolding pw by (rule scaled_le [where W = QG]) simp_all
  then have "\<bar>units (dmul al bl)\<bar> \<le> 2 ^ g"
    by (intro dmul_le fal fbl D(7) [unfolded ll_def])
  then have bll: "\<bar>units ll\<bar> \<le> Q" unfolding ll_def pq .
  text \<open>the accumulation\<close>
  have "\<bar>units d1 + units hl\<bar> \<le> 2 ^ (g + 10)" using b1 bhl Qpos unfolding pq by linarith
  then have "\<bar>units (dadd d1 hl)\<bar> \<le> 2 ^ (g + 10)"
    by (intro dadd_abs_le D(8,5) D(9) [unfolded d2_def])
  then have b2: "\<bar>units d2\<bar> \<le> 1024 * Q" unfolding d2_def [symmetric] pq .
  have "\<bar>units d2 + units lh\<bar> \<le> 2 ^ (g + 11)" using b2 blh Qpos unfolding pq by linarith
  then have "\<bar>units (dadd d2 lh)\<bar> \<le> 2 ^ (g + 11)"
    by (intro dadd_abs_le D(9,6) D(10) [unfolded d3_def])
  then have b3: "\<bar>units d3\<bar> \<le> 2048 * Q" unfolding d3_def [symmetric] pq .
  have e: "lo (two_prod a b) = dadd d3 ll"
    unfolding two_prod_eq d3_def d2_def d1_def p_def hh_def hl_def lh_def ll_def
      ah_def al_def bh_def bl_def by simp
  have "\<bar>units d3 + units ll\<bar> \<le> 2 ^ (g + 12)" using b3 bll Qpos unfolding pq by linarith
  then show ?thesis
    unfolding e by (intro dadd_abs_le D(10,7) fe [unfolded e])
qed

section \<open>Normalization of the results\<close>

subsection \<open>The scale of a product\<close>

lemma prod_scale:
  fixes T :: int
  obtains g where "\<bar>T\<bar> \<le> 2 ^ ((g + 30) + 1074)" "g = 0 \<or> 2 ^ ((g + 29) + 1074) \<le> \<bar>T\<bar>"
proof (cases "\<bar>T\<bar> \<le> 2 ^ ((0 + 30) + 1074)")
  case True
  then show thesis by (intro that [of 0]) simp_all
next
  case False
  then have "T \<noteq> 0" by auto
  then obtain n where n: "2 ^ n \<le> \<bar>T\<bar>" "\<bar>T\<bar> < 2 ^ Suc n" by (rule abs_bracket)
  have "\<not> Suc n \<le> (0 + 30) + 1074"
  proof
    assume "Suc n \<le> (0 + 30) + 1074"
    then have "(2::int) ^ Suc n \<le> 2 ^ ((0 + 30) + 1074)" by (rule power_increasing) simp
    with n(2) False show False by linarith
  qed
  then have "1104 \<le> n" by simp
  then obtain k where k: "n = k + 1104" by (metis add.commute le_Suc_ex)
  have 1: "((k + 1) + 30) + 1074 = Suc n" and 2: "((k + 1) + 29) + 1074 = n"
    unfolding k by simp_all
  have "\<bar>T\<bar> \<le> 2 ^ (((k + 1) + 30) + 1074)" unfolding 1 using n(2) by simp
  moreover have "2 ^ (((k + 1) + 29) + 1074) \<le> \<bar>T\<bar>" unfolding 2 by (rule n(1))
  ultimately show thesis by (intro that [of "k + 1"]) simp_all
qed

lemma two_prod_hi: "hi (two_prod a b) = dmul a b"
  by (simp add: two_prod_eq)

lemma two_prod_near:
  assumes fa: "finite64 a" and fb: "finite64 b" and fe: "finite64 (lo (two_prod a b))"
  shows "near_normalized (two_prod a b)"
proof -
  define ex where "ex = ex53 (units (dmul a b))"
  obtain g where g: "\<bar>units a * units b\<bar> \<le> 2 ^ ((g + 30) + 1074)"
    "g = 0 \<or> 2 ^ ((g + 29) + 1074) \<le> \<bar>units a * units b\<bar>" by (rule prod_scale)
  note fp = two_prod_finite_D(3) [OF fa fb fe]
  have e: "\<bar>units (lo (two_prod a b))\<bar> \<le> 2 ^ (g + 12)"
    using fa fb fe g(1) by (rule two_prod_lo_bound)
  have "g + 12 \<le> ex + 35"
  proof (cases "g = 0")
    case True
    then show ?thesis by simp
  next
    case False
    then have "2 ^ ((g + 29) + 1074) \<le> \<bar>units a * units b\<bar>" using g(2) by simp
    with fa fb fp have "2 ^ (g + 29) \<le> \<bar>units (dmul a b)\<bar>" by (rule dmul_ge)
    also have "\<dots> < 2 ^ (ex + 53)" unfolding ex_def by (rule ex53_less)
    finally have "g + 29 < ex + 53" by (simp only: power_strict_increasing_iff rel_simps)
    then show ?thesis by simp
  qed
  then have "(2::int) ^ (g + 12) \<le> 2 ^ (ex + 35)" by (rule power_increasing) simp
  then have "\<bar>units (lo (two_prod a b))\<bar> \<le> 2 ^ (ex + 35)" using e by linarith
  also have "(2::int) ^ (ex + 35) = 2 ^ 35 * 2 ^ ex" by (simp add: power_add)
  finally show ?thesis
    unfolding near_normalized_def ulp_units_def two_prod_hi ex_def using fp fe by simp
qed

subsection \<open>dd_add: no overflow when the high word of the result is finite\<close>

lemma is_double_quick_two_sum [simp]:
  "is_double (hi (quick_two_sum x y))" "is_double (lo (quick_two_sum x y))"
  by (simp_all add: quick_two_sum_eq)

lemma is_double_dd_add [simp]: "is_double (hi (dd_add X Y))" "is_double (lo (dd_add X Y))"
  by (simp_all add: dd_add_eq)

lemma is_double_two_prod [simp]: "is_double (hi (two_prod a b))" "is_double (lo (two_prod a b))"
  by (simp_all add: two_prod_eq)

lemma two_sum_finite_D:
  assumes "finite64 (lo (two_sum a b))" "is_double b"
  shows "finite64 (dsub (dadd a b) a)"
proof -
  have "finite64 (dsub b (dsub (dadd a b) a))"
    using dadd_finite_D(2) [OF assms(1) [unfolded two_sum_eq dd_real.select_convs]] by simp
  then show ?thesis using assms(2) by (rule dsub_finite_D(2)) simp
qed

lemma dd_add_finite_D:
  assumes "is_double (hi X)" "is_double (lo X)" "is_double (hi Y)" "is_double (lo Y)"
    and "finite64 (hi (dd_add X Y))"
  shows "add_finite X Y" "finite64 (hi X)" "finite64 (lo X)" "finite64 (hi Y)" "finite64 (lo Y)"
proof -
  define s where "s = dadd (hi X) (hi Y)"
  define m where "m = dadd (lo X) (lo Y)"
  define ts where "ts = lo (two_sum (hi X) (hi Y))"
  have h: "hi (dd_add X Y) = dadd s (dadd m ts)"
    unfolding dd_add_eq quick_two_sum_eq s_def m_def ts_def by simp
  have i: "is_double s" "is_double m" "is_double ts" "is_double (dadd m ts)"
    unfolding s_def m_def ts_def two_sum_eq by simp_all
  have fs: "finite64 s" and fl: "finite64 (dadd m ts)"
    using dadd_finite_D [OF assms(5) [unfolded h] i(1,4)] by simp_all
  have fm: "finite64 m" and ft: "finite64 ts"
    using dadd_finite_D [OF fl i(2,3)] by simp_all
  show "finite64 (hi X)" "finite64 (hi Y)"
    using dadd_finite_D [OF fs [unfolded s_def] assms(1,3)] by simp_all
  show "finite64 (lo X)" "finite64 (lo Y)"
    using dadd_finite_D [OF fm [unfolded m_def] assms(2,4)] by simp_all
  have "finite64 (dsub (dadd (hi X) (hi Y)) (hi X))"
    using ft [unfolded ts_def] assms(3) by (rule two_sum_finite_D)
  then show "add_finite X Y" unfolding add_finite_def using fs assms(5) by (simp add: s_def)
qed

lemma dd_add_d_finite_D:
  assumes "is_double (hi X)" "is_double (lo X)" "is_double b"
    and "finite64 (hi (dd_add_d X b))"
  shows "add_d_finite X b"
proof -
  define s where "s = dadd (hi X) b"
  define ts where "ts = lo (two_sum (hi X) b)"
  have h: "hi (dd_add_d X b) = dadd s (dadd (lo X) ts)"
    unfolding dd_add_d_eq quick_two_sum_eq s_def ts_def by simp
  have i: "is_double s" "is_double ts" "is_double (dadd (lo X) ts)"
    unfolding s_def ts_def two_sum_eq by simp_all
  have fs: "finite64 s" and fl: "finite64 (dadd (lo X) ts)"
    using dadd_finite_D [OF assms(4) [unfolded h] i(1,3)] by simp_all
  have ft: "finite64 ts" using dadd_finite_D(2) [OF fl assms(2) i(2)] .
  have "finite64 (dsub (dadd (hi X) b) (hi X))"
    using ft [unfolded ts_def] assms(3) by (rule two_sum_finite_D)
  then show ?thesis unfolding add_d_finite_def using fs assms(4) by (simp add: s_def)
qed

lemma normalized_is_double:
  assumes "normalized r"
  shows "is_double (hi r)" "is_double (lo r)"
  using assms by (simp_all add: normalized_def finite64_is_double)

lemma dd_add_normalized_fin:
  assumes "normalized A" "normalized B" "finite64 (hi (dd_add A B))"
  shows "normalized (dd_add A B)"
  using assms(1,2)
  by (rule dd_add_normalized)
    (rule dd_add_finite_D(1) [OF normalized_is_double [OF assms(1)]
      normalized_is_double [OF assms(2)] assms(3)])

lemma dd_add_d_normalized_fin:
  assumes "normalized A" "finite64 b" "finite64 (hi (dd_add_d A b))"
  shows "normalized (dd_add_d A b)"
  using assms(1,2)
  by (rule dd_add_d_normalized)
    (rule dd_add_d_finite_D [OF normalized_is_double [OF assms(1)]
      finite64_is_double [OF assms(2)] assms(3)])

subsection \<open>dd_mul of float128_benchmark.c\<close>

lemma dd_mul_normalized:
  assumes "finite64 (hi A)" "finite64 (lo A)" "finite64 (hi B)" "finite64 (lo B)"
    and "finite64 (hi (dd_mul A B))"
  shows "normalized (dd_mul A B)"
proof -
  define P T1 T2 T3 where "P = two_prod (hi A) (hi B)" and "T1 = two_prod (hi A) (lo B)"
    and "T2 = two_prod (lo A) (hi B)" and "T3 = two_prod (lo A) (lo B)"
  define R1 where "R1 = dd_add P T1"
  define R2 where "R2 = dd_add R1 T2"
  have r: "dd_mul A B = dd_add R2 T3"
    unfolding dd_mul_eq R2_def R1_def P_def T1_def T2_def T3_def ..
  have i: "is_double (hi P)" "is_double (lo P)" "is_double (hi T1)" "is_double (lo T1)"
    "is_double (hi T2)" "is_double (lo T2)" "is_double (hi T3)" "is_double (lo T3)"
    "is_double (hi R1)" "is_double (lo R1)" "is_double (hi R2)" "is_double (lo R2)"
    unfolding P_def T1_def T2_def T3_def R1_def R2_def by simp_all
  note D3 = dd_add_finite_D [OF i(11,12,7,8) assms(5) [unfolded r]]
  note D2 = dd_add_finite_D [OF i(9,10,5,6) D3(2) [unfolded R2_def]]
  note D1 = dd_add_finite_D [OF i(1,2,3,4) D2(2) [unfolded R1_def]]
  have nP: "near_normalized P" unfolding P_def
    using assms(1,3) D1(3) [unfolded P_def] by (rule two_prod_near)
  have n1: "near_normalized T1" unfolding T1_def
    using assms(1,4) D1(5) [unfolded T1_def] by (rule two_prod_near)
  have n2: "near_normalized T2" unfolding T2_def
    using assms(2,3) D2(5) [unfolded T2_def] by (rule two_prod_near)
  have n3: "near_normalized T3" unfolding T3_def
    using assms(2,4) D3(5) [unfolded T3_def] by (rule two_prod_near)
  have "normalized R1" unfolding R1_def using nP n1 D1(1) by (rule dd_add_near)
  then have "near_normalized R1" by (rule normalized_near)
  then have "normalized R2" unfolding R2_def using n2 D2(1) [folded R1_def] by (rule dd_add_near)
  then have "near_normalized R2" by (rule normalized_near)
  then show ?thesis unfolding r using n3 D3(1) by (rule dd_add_near)
qed

subsection \<open>dd_mul_d, and dd_mul of float128_bitcompare.c\<close>

lemma normalized_lo_rel:
  assumes "normalized r"
  shows "\<bar>units (lo r)\<bar> * 2 ^ 53 \<le> \<bar>units (hi r)\<bar>"
proof -
  define e where "e = ex53 (units (hi r))"
  have n: "2 * \<bar>units (lo r)\<bar> \<le> 2 ^ e"
    using assms by (simp add: normalized_def ulp_units_def e_def)
  show ?thesis
  proof (cases "e = 0")
    case True
    then have "units (lo r) = 0" using n by simp
    then show ?thesis by simp
  next
    case False
    then have "2 ^ (e + 52) \<le> \<bar>units (hi r)\<bar>" unfolding e_def by (intro ex53_ge) simp
    moreover have "(2 * \<bar>units (lo r)\<bar>) * 2 ^ 52 \<le> 2 ^ e * 2 ^ 52"
      using n by (rule mult_right_mono) simp
    ultimately show ?thesis by (simp add: power_add)
  qed
qed

lemma small_dvd:
  assumes "\<bar>y\<bar> \<le> 2 ^ 13"
  shows "2 ^ ex53 y dvd (x::int)"
proof -
  have "\<bar>y\<bar> < 2 ^ (0 + 53)" using assms by simp
  then have "ex53 y \<le> 0" by (rule ex53_le)
  then show ?thesis by simp
qed

lemma cross_term:
  assumes fx: "finite64 x" and fy: "finite64 y" and f: "finite64 (dmul x y)"
    and r: "\<bar>units x * units y\<bar> * 2 ^ 53 \<le> \<bar>T\<bar>" and T: "\<bar>T\<bar> \<le> 2 ^ ((g + 30) + 1074)"
  shows "\<bar>units (dmul x y)\<bar> \<le> 2 ^ g"
proof -
  have c: "(2::int) ^ 30 = 1073741824" "(2::int) ^ 53 = 9007199254740992" by simp_all
  define QG :: int where "QG = 2 ^ g * 2 ^ 1074"
  have QG: "0 < QG" by (simp add: QG_def)
  note pw = pow_scaled [of g 30 1074, unfolded c, folded QG_def] pow_scaled0 [of g 1074, folded QG_def]
  have "\<bar>units x * units y\<bar> * 9007199254740992 \<le> \<bar>T\<bar>" using r unfolding c .
  moreover have "\<bar>T\<bar> \<le> 1073741824 * QG" using T unfolding pw .
  moreover have "1073741824 * QG \<le> 9007199254740992 * QG" using QG by simp
  ultimately have "\<bar>units x * units y\<bar> \<le> QG" by (rule scaled_le) simp
  then have "\<bar>units x * units y\<bar> \<le> 2 ^ (g + 1074)" unfolding pw .
  with fx fy f show ?thesis by (rule dmul_le)
qed

lemma renorm_scale:
  assumes fp: "finite64 a" "finite64 b" "finite64 (dmul a b)" and fy: "finite64 y"
    and fs: "finite64 (dadd (dmul a b) y)"
    and g: "g = 0 \<or> 2 ^ ((g + 29) + 1074) \<le> \<bar>units a * units b\<bar>"
    and y: "\<bar>units y\<bar> \<le> 2 ^ (g + 13)"
  shows "renorm_ok (dmul a b) y"
proof -
  have "\<bar>units y\<bar> \<le> \<bar>units (dmul a b)\<bar> \<or> 2 ^ ex53 (units y) dvd units (dmul a b)"
  proof (cases "g = 0")
    case True
    then have "\<bar>units y\<bar> \<le> 2 ^ 13" using y by simp
    then have "2 ^ ex53 (units y) dvd units (dmul a b)" by (rule small_dvd)
    then show ?thesis ..
  next
    case False
    then have "2 ^ ((g + 29) + 1074) \<le> \<bar>units a * units b\<bar>" using g by simp
    with fp have "2 ^ (g + 29) \<le> \<bar>units (dmul a b)\<bar>" by (rule dmul_ge)
    moreover have "(2::int) ^ (g + 13) \<le> 2 ^ (g + 29)" by (rule power_increasing) simp_all
    ultimately have "\<bar>units y\<bar> \<le> \<bar>units (dmul a b)\<bar>" using y by linarith
    then show ?thesis ..
  qed
  then show ?thesis unfolding renorm_ok_def using fp(3) fy fs by simp
qed

lemma dd_mul_d_normalized:
  assumes n: "normalized A" and fb: "finite64 b" and fr: "finite64 (hi (dd_mul_d A b))"
  shows "normalized (dd_mul_d A b)"
proof -
  define p e q y where "p = dmul (hi A) b" and "e = lo (two_prod (hi A) b)"
    and "q = dmul (lo A) b" and "y = dadd q e"
  have r: "dd_mul_d A b = quick_two_sum p y"
    unfolding dd_mul_d_eq two_prod_hi p_def e_def q_def y_def ..
  have fa: "finite64 (hi A)" and fl: "finite64 (lo A)" using n by (simp_all add: normalized_def)
  have i: "is_double p" "is_double y" "is_double q" "is_double e"
    unfolding p_def y_def q_def e_def by simp_all
  have fs: "finite64 (dadd p y)" using fr unfolding r quick_two_sum_eq by simp
  note f1 = dadd_finite_D [OF fs i(1,2)]
  note f2 = dadd_finite_D [OF f1(2) [unfolded y_def] i(3,4)]
  obtain g where g: "\<bar>units (hi A) * units b\<bar> \<le> 2 ^ ((g + 30) + 1074)"
    "g = 0 \<or> 2 ^ ((g + 29) + 1074) \<le> \<bar>units (hi A) * units b\<bar>" by (rule prod_scale)
  have be: "\<bar>units e\<bar> \<le> 2 ^ (g + 12)"
    unfolding e_def using fa fb f2(2) [unfolded e_def] g(1) by (rule two_prod_lo_bound)
  have "\<bar>units (lo A)\<bar> * 2 ^ 53 \<le> \<bar>units (hi A)\<bar>" using n by (rule normalized_lo_rel)
  moreover have "\<bar>units b\<bar> * 1 \<le> \<bar>units b\<bar>" by simp
  ultimately have "\<bar>units (lo A) * units b\<bar> * (2 ^ 53 * 1) \<le> \<bar>units (hi A)\<bar> * \<bar>units b\<bar>"
    by (rule abs_prod_le) simp_all
  then have "\<bar>units (lo A) * units b\<bar> * 2 ^ 53 \<le> \<bar>units (hi A) * units b\<bar>"
    by (simp add: abs_mult)
  with fl fb f2(1) [unfolded q_def] have bq: "\<bar>units q\<bar> \<le> 2 ^ g"
    unfolding q_def using g(1) by (rule cross_term)
  have "(2::int) ^ (g + 12) = 4096 * 2 ^ g" "(2::int) ^ (g + 13) = 8192 * 2 ^ g"
    by (simp_all add: power_add)
  moreover have "(0::int) < 2 ^ g" by simp
  ultimately have "\<bar>units q + units e\<bar> \<le> 2 ^ (g + 13)" using bq be by linarith
  with f2 f1(2) [unfolded y_def] have "\<bar>units y\<bar> \<le> 2 ^ (g + 13)"
    unfolding y_def by (rule dadd_abs_le)
  with fa fb f1(1) [unfolded p_def] f1(2) fs [unfolded p_def] g(2)
  have "renorm_ok (dmul (hi A) b) y" by (rule renorm_scale)
  then show ?thesis unfolding r p_def by (rule renorm_normalized)
qed

lemma dd_mul_fma_normalized:
  assumes nA: "normalized A" and nB: "normalized B" and fr: "finite64 (hi (dd_mul_fma A B))"
  shows "normalized (dd_mul_fma A B)"
proof -
  define p e c1 c2 c y where "p = dmul (hi A) (hi B)" and "e = fma (hi A) (hi B) (dneg p)"
    and "c1 = dmul (hi A) (lo B)" and "c2 = dmul (lo A) (hi B)" and "c = dadd c1 c2"
    and "y = dadd e c"
  have r: "dd_mul_fma A B = quick_two_sum p y"
    unfolding dd_mul_fma_eq two_prod_fma_eq p_def e_def c1_def c2_def c_def y_def by simp
  have fa: "finite64 (hi A)" and fl: "finite64 (lo A)" using nA by (simp_all add: normalized_def)
  have fb: "finite64 (hi B)" and fm: "finite64 (lo B)" using nB by (simp_all add: normalized_def)
  have i: "is_double p" "is_double y" "is_double e" "is_double c" "is_double c1" "is_double c2"
    unfolding p_def y_def e_def c_def c1_def c2_def by simp_all
  have fs: "finite64 (dadd p y)" using fr unfolding r quick_two_sum_eq by simp
  note f1 = dadd_finite_D [OF fs i(1,2)]
  note f2 = dadd_finite_D [OF f1(2) [unfolded y_def] i(3,4)]
  note f3 = dadd_finite_D [OF f2(2) [unfolded c_def] i(5,6)]
  obtain g where g: "\<bar>units (hi A) * units (hi B)\<bar> \<le> 2 ^ ((g + 30) + 1074)"
    "g = 0 \<or> 2 ^ ((g + 29) + 1074) \<le> \<bar>units (hi A) * units (hi B)\<bar>" by (rule prod_scale)
  text \<open>the error term\<close>
  have "(2::int) ^ ((g + 30) + 1074) \<le> 2 ^ ((g + 53) + 1074)" by (rule power_increasing) simp_all
  then have "\<bar>units (hi A) * units (hi B)\<bar> \<le> 2 ^ ((g + 53) + 1074)" using g(1) by linarith
  with fa fb f1(1) [unfolded p_def]
  have "\<bar>units (dmul (hi A) (hi B)) * 2 ^ 1074 - units (hi A) * units (hi B)\<bar> \<le> 2 ^ (g + 1074)"
    by (rule dmul_err)
  moreover have "units (hi A) * units (hi B) + units (dneg p) * 2 ^ 1074
      = - (units (dmul (hi A) (hi B)) * 2 ^ 1074 - units (hi A) * units (hi B))"
    unfolding units_dneg p_def by (simp only: minus_diff_eq mult_minus_left diff_conv_add_uminus add.commute)
  ultimately have "\<bar>units (hi A) * units (hi B) + units (dneg p) * 2 ^ 1074\<bar> \<le> 2 ^ (g + 1074)"
    by (simp only: abs_minus)
  moreover have "finite64 (dneg p)" using f1(1) by (simp add: finite64_dneg)
  ultimately have be: "\<bar>units e\<bar> \<le> 2 ^ g"
    unfolding e_def using fa fb f2(1) [unfolded e_def] by (intro fma_le)
  text \<open>the cross terms\<close>
  have ra: "\<bar>units (lo A)\<bar> * 2 ^ 53 \<le> \<bar>units (hi A)\<bar>" using nA by (rule normalized_lo_rel)
  have rb: "\<bar>units (lo B)\<bar> * 2 ^ 53 \<le> \<bar>units (hi B)\<bar>" using nB by (rule normalized_lo_rel)
  have ia: "\<bar>units (hi A)\<bar> * 1 \<le> \<bar>units (hi A)\<bar>" and ib: "\<bar>units (hi B)\<bar> * 1 \<le> \<bar>units (hi B)\<bar>"
    by simp_all
  have "\<bar>units (hi A) * units (lo B)\<bar> * (1 * 2 ^ 53) \<le> \<bar>units (hi A)\<bar> * \<bar>units (hi B)\<bar>"
    using ia rb by (rule abs_prod_le) simp_all
  then have "\<bar>units (hi A) * units (lo B)\<bar> * 2 ^ 53 \<le> \<bar>units (hi A) * units (hi B)\<bar>"
    by (simp add: abs_mult)
  with fa fm f3(1) [unfolded c1_def] have b1: "\<bar>units c1\<bar> \<le> 2 ^ g"
    unfolding c1_def using g(1) by (rule cross_term)
  have "\<bar>units (lo A) * units (hi B)\<bar> * (2 ^ 53 * 1) \<le> \<bar>units (hi A)\<bar> * \<bar>units (hi B)\<bar>"
    using ra ib by (rule abs_prod_le) simp_all
  then have "\<bar>units (lo A) * units (hi B)\<bar> * 2 ^ 53 \<le> \<bar>units (hi A) * units (hi B)\<bar>"
    by (simp add: abs_mult)
  with fl fb f3(2) [unfolded c2_def] have b2: "\<bar>units c2\<bar> \<le> 2 ^ g"
    unfolding c2_def using g(1) by (rule cross_term)
  have pw: "(2::int) ^ (g + 1) = 2 * 2 ^ g" "(2::int) ^ (g + 13) = 8192 * 2 ^ g"
    by (simp_all add: power_add)
  have pos: "(0::int) < 2 ^ g" by simp
  have "\<bar>units c1 + units c2\<bar> \<le> 2 ^ (g + 1)" using b1 b2 unfolding pw by linarith
  with f3 f2(2) [unfolded c_def] have bc: "\<bar>units c\<bar> \<le> 2 ^ (g + 1)"
    unfolding c_def by (rule dadd_abs_le)
  have "\<bar>units e + units c\<bar> \<le> 2 ^ (g + 13)" using be bc pos unfolding pw by linarith
  with f2 f1(2) [unfolded y_def] have "\<bar>units y\<bar> \<le> 2 ^ (g + 13)"
    unfolding y_def by (rule dadd_abs_le)
  with fa fb f1(1) [unfolded p_def] f1(2) fs [unfolded p_def] g(2)
  have "renorm_ok (dmul (hi A) (hi B)) y" by (rule renorm_scale)
  then show ?thesis unfolding r p_def by (rule renorm_normalized)
qed

section \<open>The operators on particular pairs\<close>

subsection \<open>Operands that are not normalized\<close>

lemma odd_1: "dadd d_zero d_one = d_one"
  unfolding d_one_def d_zero_def
  by (rule trans [OF dadd_eval [where q="2 ^ 52" and d=1022 and r="0"]]) (simp_all add: sval_def)

lemma odd_2: "dsub d_one d_zero = d_one"
  unfolding dsub_def d_one_def d_zero_def dneg.simps
  by (rule trans [OF dadd_eval [where q="2 ^ 52" and d=1022 and r="0"]]) (simp_all add: sval_def)

lemma odd_3: "dsub d_one d_one = d_zero"
  unfolding dsub_def d_one_def d_zero_def dneg.simps
  by (rule trans [OF dadd_eval_zero]) (simp_all add: sval_def)

lemma odd_4: "dsub d_zero d_zero = d_zero"
  unfolding dsub_def d_zero_def dneg.simps
  by (rule trans [OF dadd_eval_zero]) (simp_all add: sval_def)

lemma odd_5: "dadd d_zero d_zero = d_zero"
  unfolding d_zero_def
  by (rule trans [OF dadd_eval_zero]) (simp_all add: sval_def)

lemma odd_6: "two_sum d_zero d_one = \<lparr>hi = d_one, lo = d_zero\<rparr>"
  unfolding two_sum_eq odd_1 odd_2 odd_3 odd_4 odd_5 ..

lemma odd_7: "dadd two53p2 d_zero = two53p2"
  unfolding d_zero_def two53p2_def
  by (rule trans [OF dadd_eval [where q="4503599627370497" and d=1075 and r="0"]]) (simp_all add: sval_def)

lemma odd_8: "dadd d_one two53p2 = DFin False (2251799813685249 * 2 ^ 1076)"
  unfolding d_one_def two53p2_def
  by (rule trans [OF dadd_eval [where q="4503599627370497" and d=1075 and r="2 ^ 1074"]]) (simp_all add: sval_def)

lemma odd_9: "dsub (DFin False (2251799813685249 * 2 ^ 1076)) d_one = DFin False (2251799813685249 * 2 ^ 1076)"
  unfolding dsub_def d_one_def dneg.simps
  by (rule trans [OF dadd_eval [where q="4503599627370497" and d=1075 and r="2 ^ 1074"]]) (simp_all add: sval_def)

lemma odd_10: "dsub two53p2 (DFin False (2251799813685249 * 2 ^ 1076)) = DFin True (2 ^ 1075)"
  unfolding dsub_def two53p2_def dneg.simps
  by (rule trans [OF dadd_eval [where q="2 ^ 52" and d=1023 and r="0"]]) (simp_all add: sval_def)

lemma odd_11: "quick_two_sum d_one two53p2 = \<lparr>hi = DFin False (2251799813685249 * 2 ^ 1076), lo = DFin True (2 ^ 1075)\<rparr>"
  unfolding quick_two_sum_eq odd_8 odd_9 odd_10 ..

lemma odd_12: "dd_add \<lparr>hi = d_zero, lo = two53p2\<rparr> \<lparr>hi = d_one, lo = d_zero\<rparr> = \<lparr>hi = DFin False (2251799813685249 * 2 ^ 1076), lo = DFin True (2 ^ 1075)\<rparr>"
  unfolding dd_add_eq dd_real.select_convs odd_6 dd_real.select_convs odd_1 odd_7 odd_11 ..

lemma dd_add_odd_one: "dd_add dd_odd dd_one = \<lparr>hi = DFin False (2251799813685249 * 2 ^ 1076), lo = DFin True (2 ^ 1075)\<rparr>"
  unfolding dd_odd_def dd_one_def by (rule odd_12)

lemma dd_add_odd_one_lo: "\<not> 2 * \<bar>units (lo (dd_add dd_odd dd_one))\<bar> \<le> ulp_units (hi (dd_add dd_odd dd_one))"
proof -
  have b: "bitlen (2251799813685249 * 2 ^ 1076) = Suc 1127" by (rule bitlen_eqI) simp_all
  have 3: "\<not> 2 * \<bar>units (DFin True (2 ^ 1075))\<bar> \<le> ulp_units (DFin False (2251799813685249 * 2 ^ 1076))"
    unfolding ulp_units_def ex53_def  units.simps sval_abs nat_int b by simp
  show ?thesis
    unfolding dd_add_odd_one dd_real.select_convs by (rule 3)
qed

lemma odd_13: "dadd d_one d_zero = d_one"
  unfolding d_one_def d_zero_def
  by (rule trans [OF dadd_eval [where q="2 ^ 52" and d=1022 and r="0"]]) (simp_all add: sval_def)

lemma odd_14: "two_sum d_one d_zero = \<lparr>hi = d_one, lo = d_zero\<rparr>"
  unfolding two_sum_eq odd_13 odd_3 odd_2 odd_4 odd_5 ..

lemma odd_15: "dadd d_zero two53p2 = two53p2"
  unfolding d_zero_def two53p2_def
  by (rule trans [OF dadd_eval [where q="4503599627370497" and d=1075 and r="0"]]) (simp_all add: sval_def)

lemma odd_16: "dd_add \<lparr>hi = d_one, lo = d_zero\<rparr> \<lparr>hi = d_zero, lo = two53p2\<rparr> = \<lparr>hi = DFin False (2251799813685249 * 2 ^ 1076), lo = DFin True (2 ^ 1075)\<rparr>"
  unfolding dd_add_eq dd_real.select_convs odd_14 dd_real.select_convs odd_13 odd_15 odd_7 odd_11 ..

lemma dd_add_one_odd: "dd_add dd_one dd_odd = \<lparr>hi = DFin False (2251799813685249 * 2 ^ 1076), lo = DFin True (2 ^ 1075)\<rparr>"
  unfolding dd_one_def dd_odd_def by (rule odd_16)

lemma dd_add_one_odd_lo: "\<not> 2 * \<bar>units (lo (dd_add dd_one dd_odd))\<bar> \<le> ulp_units (hi (dd_add dd_one dd_odd))"
proof -
  have b: "bitlen (2251799813685249 * 2 ^ 1076) = Suc 1127" by (rule bitlen_eqI) simp_all
  have 3: "\<not> 2 * \<bar>units (DFin True (2 ^ 1075))\<bar> \<le> ulp_units (DFin False (2251799813685249 * 2 ^ 1076))"
    unfolding ulp_units_def ex53_def  units.simps sval_abs nat_int b by simp
  show ?thesis
    unfolding dd_add_one_odd dd_real.select_convs by (rule 3)
qed

lemma odd_17: "dd_add_d \<lparr>hi = d_zero, lo = two53p2\<rparr> d_one = \<lparr>hi = DFin False (2251799813685249 * 2 ^ 1076), lo = DFin True (2 ^ 1075)\<rparr>"
  unfolding dd_add_d_eq dd_real.select_convs odd_6 dd_real.select_convs odd_1 odd_7 odd_11 ..

lemma dd_add_d_odd_one: "dd_add_d dd_odd d_one = \<lparr>hi = DFin False (2251799813685249 * 2 ^ 1076), lo = DFin True (2 ^ 1075)\<rparr>"
  unfolding dd_odd_def by (rule odd_17)

lemma dd_add_d_odd_one_lo: "\<not> 2 * \<bar>units (lo (dd_add_d dd_odd d_one))\<bar> \<le> ulp_units (hi (dd_add_d dd_odd d_one))"
proof -
  have b: "bitlen (2251799813685249 * 2 ^ 1076) = Suc 1127" by (rule bitlen_eqI) simp_all
  have 3: "\<not> 2 * \<bar>units (DFin True (2 ^ 1075))\<bar> \<le> ulp_units (DFin False (2251799813685249 * 2 ^ 1076))"
    unfolding ulp_units_def ex53_def  units.simps sval_abs nat_int b by simp
  show ?thesis
    unfolding dd_add_d_odd_one dd_real.select_convs by (rule 3)
qed

lemma odd_18: "dmul d_one d_one = d_one"
  unfolding d_one_def
  by (rule trans [OF dmul_eval_norm [where q="2 ^ 52" and d=1022 and r="0"]]) simp_all

lemma odd_19: "dmul SPLIT_CONST d_one = SPLIT_CONST"
  unfolding SPLIT_CONST_def d_one_def
  by (rule trans [OF dmul_eval_norm [where q="134217729 * 2 ^ 25" and d=1049 and r="0"]]) simp_all

lemma odd_20: "dsub SPLIT_CONST d_one = DFin False (2 ^ 1101)"
  unfolding dsub_def SPLIT_CONST_def d_one_def dneg.simps
  by (rule trans [OF dadd_eval [where q="2 ^ 52" and d=1049 and r="0"]]) (simp_all add: sval_def)

lemma odd_21: "dsub SPLIT_CONST (DFin False (2 ^ 1101)) = d_one"
  unfolding dsub_def SPLIT_CONST_def d_one_def dneg.simps
  by (rule trans [OF dadd_eval [where q="2 ^ 52" and d=1022 and r="0"]]) (simp_all add: sval_def)

lemma odd_22: "split_double d_one = (d_one, d_zero)"
  unfolding split_double_eq odd_19 odd_20 odd_21 odd_3 ..

lemma odd_23: "dmul d_one d_zero = d_zero"
  unfolding d_one_def d_zero_def
  by (rule trans [OF dmul_eval_zero]) simp_all

lemma odd_24: "dmul d_zero d_one = d_zero"
  unfolding d_one_def d_zero_def
  by (rule trans [OF dmul_eval_zero]) simp_all

lemma odd_25: "dmul d_zero d_zero = d_zero"
  unfolding d_zero_def
  by (rule trans [OF dmul_eval_zero]) simp_all

lemma odd_26: "two_prod d_one d_one = \<lparr>hi = d_one, lo = d_zero\<rparr>"
  unfolding two_prod_eq odd_22 fst_conv snd_conv odd_18 odd_3 odd_23 odd_5 odd_24 odd_25 ..

lemma odd_27: "dmul two53p2 d_one = two53p2"
  unfolding d_one_def two53p2_def
  by (rule trans [OF dmul_eval_norm [where q="4503599627370497" and d=1075 and r="0"]]) simp_all

lemma odd_28: "dd_mul_d \<lparr>hi = d_one, lo = two53p2\<rparr> d_one = \<lparr>hi = DFin False (2251799813685249 * 2 ^ 1076), lo = DFin True (2 ^ 1075)\<rparr>"
  unfolding dd_mul_d_eq dd_real.select_convs odd_26 dd_real.select_convs odd_27 odd_7 odd_11 ..

lemma dd_mul_d_odd_one: "dd_mul_d dd_one_odd d_one = \<lparr>hi = DFin False (2251799813685249 * 2 ^ 1076), lo = DFin True (2 ^ 1075)\<rparr>"
  unfolding dd_one_odd_def by (rule odd_28)

lemma dd_mul_d_odd_one_lo: "\<not> 2 * \<bar>units (lo (dd_mul_d dd_one_odd d_one))\<bar> \<le> ulp_units (hi (dd_mul_d dd_one_odd d_one))"
proof -
  have b: "bitlen (2251799813685249 * 2 ^ 1076) = Suc 1127" by (rule bitlen_eqI) simp_all
  have 3: "\<not> 2 * \<bar>units (DFin True (2 ^ 1075))\<bar> \<le> ulp_units (DFin False (2251799813685249 * 2 ^ 1076))"
    unfolding ulp_units_def ex53_def  units.simps sval_abs nat_int b by simp
  show ?thesis
    unfolding dd_mul_d_odd_one dd_real.select_convs by (rule 3)
qed

lemma odd_29: "fma d_one d_one (DFin True (2 ^ 1074)) = d_zero"
  unfolding d_one_def d_zero_def
  by (rule trans [OF fma_eval_zero]) (simp_all add: sval_def)

lemma odd_30: "dneg d_one = DFin True (2 ^ 1074)"
  unfolding d_one_def by simp

lemma odd_31: "two_prod_fma d_one d_one = \<lparr>hi = d_one, lo = d_zero\<rparr>"
  unfolding two_prod_fma_eq odd_18 odd_30 odd_29 ..

lemma odd_32: "dd_mul_fma \<lparr>hi = d_one, lo = two53p2\<rparr> \<lparr>hi = d_one, lo = d_zero\<rparr> = \<lparr>hi = DFin False (2251799813685249 * 2 ^ 1076), lo = DFin True (2 ^ 1075)\<rparr>"
  unfolding dd_mul_fma_eq dd_real.select_convs odd_31 dd_real.select_convs odd_23 odd_27 odd_15 odd_11 ..

lemma dd_mul_fma_odd_one: "dd_mul_fma dd_one_odd dd_one = \<lparr>hi = DFin False (2251799813685249 * 2 ^ 1076), lo = DFin True (2 ^ 1075)\<rparr>"
  unfolding dd_one_odd_def dd_one_def by (rule odd_32)

lemma dd_mul_fma_odd_one_lo: "\<not> 2 * \<bar>units (lo (dd_mul_fma dd_one_odd dd_one))\<bar> \<le> ulp_units (hi (dd_mul_fma dd_one_odd dd_one))"
proof -
  have b: "bitlen (2251799813685249 * 2 ^ 1076) = Suc 1127" by (rule bitlen_eqI) simp_all
  have 3: "\<not> 2 * \<bar>units (DFin True (2 ^ 1075))\<bar> \<le> ulp_units (DFin False (2251799813685249 * 2 ^ 1076))"
    unfolding ulp_units_def ex53_def  units.simps sval_abs nat_int b by simp
  show ?thesis
    unfolding dd_mul_fma_odd_one dd_real.select_convs by (rule 3)
qed

lemma odd_33: "dneg d_one = DFin True (2 ^ 1074)"
  unfolding d_one_def by simp

lemma odd_34: "two_prod_fma d_one d_one = \<lparr>hi = d_one, lo = d_zero\<rparr>"
  unfolding two_prod_fma_eq odd_18 odd_33 odd_29 ..

lemma odd_35: "dmul d_one two53p2 = two53p2"
  unfolding d_one_def two53p2_def
  by (rule trans [OF dmul_eval_norm [where q="4503599627370497" and d=1075 and r="0"]]) simp_all

lemma odd_36: "dd_mul_fma \<lparr>hi = d_one, lo = d_zero\<rparr> \<lparr>hi = d_one, lo = two53p2\<rparr> = \<lparr>hi = DFin False (2251799813685249 * 2 ^ 1076), lo = DFin True (2 ^ 1075)\<rparr>"
  unfolding dd_mul_fma_eq dd_real.select_convs odd_34 dd_real.select_convs odd_35 odd_24 odd_7 odd_15 odd_11 ..

lemma dd_mul_fma_one_odd: "dd_mul_fma dd_one dd_one_odd = \<lparr>hi = DFin False (2251799813685249 * 2 ^ 1076), lo = DFin True (2 ^ 1075)\<rparr>"
  unfolding dd_one_def dd_one_odd_def by (rule odd_36)

lemma dd_mul_fma_one_odd_lo: "\<not> 2 * \<bar>units (lo (dd_mul_fma dd_one dd_one_odd))\<bar> \<le> ulp_units (hi (dd_mul_fma dd_one dd_one_odd))"
proof -
  have b: "bitlen (2251799813685249 * 2 ^ 1076) = Suc 1127" by (rule bitlen_eqI) simp_all
  have 3: "\<not> 2 * \<bar>units (DFin True (2 ^ 1075))\<bar> \<le> ulp_units (DFin False (2251799813685249 * 2 ^ 1076))"
    unfolding ulp_units_def ex53_def  units.simps sval_abs nat_int b by simp
  show ?thesis
    unfolding dd_mul_fma_one_odd dd_real.select_convs by (rule 3)
qed

lemma normalized_dd_one: "normalized dd_one"
proof -
  have 1: "finite64 d_one"
    unfolding d_one_def finite64.simps by (rule representableI [of 1074]) simp_all
  have 2: "finite64 d_zero"
    unfolding d_zero_def finite64.simps by (rule representable_0)
  have b: "bitlen (2 ^ 1074) = Suc 1074" by (rule bitlen_eqI) simp_all
  have 3: "2 * \<bar>units d_zero\<bar> \<le> ulp_units d_one"
    unfolding ulp_units_def ex53_def d_one_def d_zero_def units.simps sval_abs nat_int b by simp
  show ?thesis
    unfolding dd_one_def normalized_def dd_real.select_convs using 1 2 3 by blast
qed

lemma finite_dd_odd: "finite64 (hi dd_odd)" "finite64 (lo dd_odd)"
proof -
  have 1: "finite64 d_zero"
    unfolding d_zero_def finite64.simps by (rule representable_0)
  have 2: "finite64 two53p2"
    unfolding two53p2_def finite64.simps by (rule representableI [of 1075]) simp_all
  show "finite64 (hi dd_odd)" "finite64 (lo dd_odd)"
    unfolding dd_odd_def dd_real.select_convs using 1 2 by blast+
qed

lemma finite_dd_one_odd: "finite64 (hi dd_one_odd)" "finite64 (lo dd_one_odd)"
proof -
  have 1: "finite64 d_one"
    unfolding d_one_def finite64.simps by (rule representableI [of 1074]) simp_all
  have 2: "finite64 two53p2"
    unfolding two53p2_def finite64.simps by (rule representableI [of 1075]) simp_all
  show "finite64 (hi dd_one_odd)" "finite64 (lo dd_one_odd)"
    unfolding dd_one_odd_def dd_real.select_convs using 1 2 by blast+
qed

subsection \<open>An overflow inside the computation\<close>

lemma normalized_dd_big_a: "normalized dd_big_a"
proof -
  have 1: "finite64 big_a"
    unfolding big_a_def finite64.simps by (rule representableI [of 2044]) simp_all
  have 2: "finite64 d_zero"
    unfolding d_zero_def finite64.simps by (rule representable_0)
  have b: "bitlen (3 * 2 ^ 2044) = Suc 2045" by (rule bitlen_eqI) simp_all
  have 3: "2 * \<bar>units d_zero\<bar> \<le> ulp_units big_a"
    unfolding ulp_units_def ex53_def big_a_def d_zero_def units.simps sval_abs nat_int b by simp
  show ?thesis
    unfolding dd_big_a_def normalized_def dd_real.select_convs using 1 2 3 by blast
qed

lemma normalized_dd_max: "normalized dd_max"
proof -
  have 1: "finite64 DBL_MAX"
    unfolding DBL_MAX_def finite64.simps by (rule representableI [of 2045]) simp_all
  have 2: "finite64 d_zero"
    unfolding d_zero_def finite64.simps by (rule representable_0)
  have b: "bitlen ((2 ^ 53 - 1) * 2 ^ 2045) = Suc 2097" by (rule bitlen_eqI) simp_all
  have 3: "2 * \<bar>units d_zero\<bar> \<le> ulp_units DBL_MAX"
    unfolding ulp_units_def ex53_def DBL_MAX_def d_zero_def units.simps sval_abs nat_int b by simp
  show ?thesis
    unfolding dd_max_def normalized_def dd_real.select_convs using 1 2 3 by blast
qed

lemma normalized_dd_sqrt_big: "normalized dd_sqrt_big"
proof -
  have 1: "finite64 sqrt_big"
    unfolding sqrt_big_def finite64.simps by (rule representableI [of 1533]) simp_all
  have 2: "finite64 d_zero"
    unfolding d_zero_def finite64.simps by (rule representable_0)
  have b: "bitlen ((2 ^ 53 - 1) * 2 ^ 1533) = Suc 1585" by (rule bitlen_eqI) simp_all
  have 3: "2 * \<bar>units d_zero\<bar> \<le> ulp_units sqrt_big"
    unfolding ulp_units_def ex53_def d_zero_def sqrt_big_def units.simps sval_abs nat_int b by simp
  show ?thesis
    unfolding dd_sqrt_big_def normalized_def dd_real.select_convs using 1 2 3 by blast
qed

lemma ov_37: "dmul sqrt_big sqrt_big = DFin False (4503599627370495 * 2 ^ 2046)"
  unfolding sqrt_big_def
  by (rule trans [OF dmul_eval_norm [where q="4503599627370495 * 2 ^ 1" and d=2045 and r="2 ^ 3066"]]) simp_all

lemma ov_38: "dmul SPLIT_CONST sqrt_big = DFin False (4503599660924927 * 2 ^ 1561)"
  unfolding SPLIT_CONST_def sqrt_big_def
  by (rule trans [OF dmul_eval_norm [where q="4503599660924927" and d=1561 and r="134217727 * 2 ^ 2607"]]) simp_all

lemma ov_39: "dsub (DFin False (4503599660924927 * 2 ^ 1561)) sqrt_big = DFin False (4503599627370495 * 2 ^ 1561)"
  unfolding dsub_def sqrt_big_def dneg.simps
  by (rule trans [OF dadd_eval [where q="4503599627370495 * 2 ^ 1" and d=1560 and r="2 ^ 1533"]]) (simp_all add: sval_def)

lemma ov_40: "dsub (DFin False (4503599660924927 * 2 ^ 1561)) (DFin False (4503599627370495 * 2 ^ 1561)) = DFin False (2 ^ 1586)"
  unfolding dsub_def  dneg.simps
  by (rule trans [OF dadd_eval [where q="2 ^ 52" and d=1534 and r="0"]]) (simp_all add: sval_def)

lemma ov_41: "dsub sqrt_big (DFin False (2 ^ 1586)) = DFin True (2 ^ 1533)"
  unfolding dsub_def sqrt_big_def dneg.simps
  by (rule trans [OF dadd_eval [where q="2 ^ 52" and d=1481 and r="0"]]) (simp_all add: sval_def)

lemma ov_42: "split_double sqrt_big = (DFin False (2 ^ 1586), DFin True (2 ^ 1533))"
  unfolding split_double_eq ov_38 ov_39 ov_40 ov_41 ..

lemma ov_43: "dmul (DFin False (2 ^ 1586)) (DFin False (2 ^ 1586)) = DInf False"
  by (rule trans [OF dmul_eval_norm [where q="2 ^ 52" and d=2046 and r="0"]]) simp_all

lemma ov_44: "dsub (DInf False) (DFin False (4503599627370495 * 2 ^ 2046)) = DInf False"
  unfolding dsub_def  dneg.simps
  by simp

lemma ov_45: "dmul (DFin False (2 ^ 1586)) (DFin True (2 ^ 1533)) = DFin True (2 ^ 2045)"
  by (rule trans [OF dmul_eval_norm [where q="2 ^ 52" and d=1993 and r="0"]]) simp_all

lemma ov_46: "dadd (DInf False) (DFin True (2 ^ 2045)) = DInf False"
  by simp

lemma ov_47: "dmul (DFin True (2 ^ 1533)) (DFin False (2 ^ 1586)) = DFin True (2 ^ 2045)"
  by (rule trans [OF dmul_eval_norm [where q="2 ^ 52" and d=1993 and r="0"]]) simp_all

lemma ov_48: "dmul (DFin True (2 ^ 1533)) (DFin True (2 ^ 1533)) = DFin False (2 ^ 1992)"
  by (rule trans [OF dmul_eval_norm [where q="2 ^ 52" and d=1940 and r="0"]]) simp_all

lemma ov_49: "dadd (DInf False) (DFin False (2 ^ 1992)) = DInf False"
  by simp

lemma ov_50: "two_prod sqrt_big sqrt_big = \<lparr>hi = DFin False (4503599627370495 * 2 ^ 2046), lo = DInf False\<rparr>"
  unfolding two_prod_eq ov_42 fst_conv snd_conv ov_37 ov_43 ov_44 ov_45 ov_46 ov_47 ov_48 ov_49 ..

lemma ov_51: "dmul sqrt_big d_zero = d_zero"
  unfolding d_zero_def sqrt_big_def
  by (rule trans [OF dmul_eval_zero]) simp_all

lemma ov_52: "dmul SPLIT_CONST d_zero = d_zero"
  unfolding SPLIT_CONST_def d_zero_def
  by (rule trans [OF dmul_eval_zero]) simp_all

lemma ov_53: "split_double d_zero = (d_zero, d_zero)"
  unfolding split_double_eq ov_52 odd_4 ..

lemma ov_54: "dmul (DFin False (2 ^ 1586)) d_zero = d_zero"
  unfolding d_zero_def
  by (rule trans [OF dmul_eval_zero]) simp_all

lemma ov_55: "dmul (DFin True (2 ^ 1533)) d_zero = DFin True 0"
  unfolding d_zero_def
  by (rule trans [OF dmul_eval_zero]) simp_all

lemma ov_56: "dadd d_zero (DFin True 0) = d_zero"
  unfolding d_zero_def
  by (rule trans [OF dadd_eval_zero]) (simp_all add: sval_def)

lemma ov_57: "two_prod sqrt_big d_zero = \<lparr>hi = d_zero, lo = d_zero\<rparr>"
  unfolding two_prod_eq ov_42 ov_53 fst_conv snd_conv ov_51 ov_54 odd_4 odd_5 ov_55 ov_56 ..

lemma ov_58: "dmul d_zero sqrt_big = d_zero"
  unfolding d_zero_def sqrt_big_def
  by (rule trans [OF dmul_eval_zero]) simp_all

lemma ov_59: "dmul d_zero (DFin False (2 ^ 1586)) = d_zero"
  unfolding d_zero_def
  by (rule trans [OF dmul_eval_zero]) simp_all

lemma ov_60: "dmul d_zero (DFin True (2 ^ 1533)) = DFin True 0"
  unfolding d_zero_def
  by (rule trans [OF dmul_eval_zero]) simp_all

lemma ov_61: "two_prod d_zero sqrt_big = \<lparr>hi = d_zero, lo = d_zero\<rparr>"
  unfolding two_prod_eq ov_53 ov_42 fst_conv snd_conv ov_58 ov_59 odd_4 ov_60 ov_56 odd_5 ..

lemma ov_62: "two_prod d_zero d_zero = \<lparr>hi = d_zero, lo = d_zero\<rparr>"
  unfolding two_prod_eq ov_53 fst_conv snd_conv odd_25 odd_4 odd_5 ..

lemma ov_63: "dadd (DFin False (4503599627370495 * 2 ^ 2046)) d_zero = DFin False (4503599627370495 * 2 ^ 2046)"
  unfolding d_zero_def
  by (rule trans [OF dadd_eval [where q="4503599627370495 * 2 ^ 1" and d=2045 and r="0"]]) (simp_all add: sval_def)

lemma ov_64: "dsub (DFin False (4503599627370495 * 2 ^ 2046)) (DFin False (4503599627370495 * 2 ^ 2046)) = d_zero"
  unfolding dsub_def d_zero_def dneg.simps
  by (rule trans [OF dadd_eval_zero]) (simp_all add: sval_def)

lemma ov_65: "dsub (DFin False (4503599627370495 * 2 ^ 2046)) d_zero = DFin False (4503599627370495 * 2 ^ 2046)"
  unfolding dsub_def d_zero_def dneg.simps
  by (rule trans [OF dadd_eval [where q="4503599627370495 * 2 ^ 1" and d=2045 and r="0"]]) (simp_all add: sval_def)

lemma ov_66: "two_sum (DFin False (4503599627370495 * 2 ^ 2046)) d_zero = \<lparr>hi = DFin False (4503599627370495 * 2 ^ 2046), lo = d_zero\<rparr>"
  unfolding two_sum_eq ov_63 ov_64 ov_65 odd_4 odd_5 ..

lemma ov_67: "dadd (DInf False) d_zero = DInf False"
  unfolding d_zero_def
  by simp

lemma ov_68: "dadd (DFin False (4503599627370495 * 2 ^ 2046)) (DInf False) = DInf False"
  by simp

lemma ov_69: "dsub (DInf False) (DInf False) = DNaN"
  unfolding dsub_def  dneg.simps
  by simp

lemma ov_70: "quick_two_sum (DFin False (4503599627370495 * 2 ^ 2046)) (DInf False) = \<lparr>hi = DInf False, lo = DNaN\<rparr>"
  unfolding quick_two_sum_eq ov_68 ov_44 ov_69 ..

lemma ov_71: "dd_add \<lparr>hi = DFin False (4503599627370495 * 2 ^ 2046), lo = DInf False\<rparr> \<lparr>hi = d_zero, lo = d_zero\<rparr> = \<lparr>hi = DInf False, lo = DNaN\<rparr>"
  unfolding dd_add_eq dd_real.select_convs ov_66 dd_real.select_convs ov_63 ov_67 ov_70 ..

lemma ov_72: "dsub (DInf False) DNaN = DNaN"
  unfolding dsub_def  dneg.simps
  by simp

lemma ov_73: "dsub d_zero DNaN = DNaN"
  unfolding dsub_def d_zero_def dneg.simps
  by simp

lemma ov_74: "dadd DNaN DNaN = DNaN"
  by simp

lemma ov_75: "two_sum (DInf False) d_zero = \<lparr>hi = DInf False, lo = DNaN\<rparr>"
  unfolding two_sum_eq ov_67 ov_69 ov_72 ov_73 ov_74 ..

lemma ov_76: "dadd DNaN d_zero = DNaN"
  unfolding d_zero_def
  by simp

lemma ov_77: "dadd (DInf False) DNaN = DNaN"
  by simp

lemma ov_78: "dsub DNaN (DInf False) = DNaN"
  unfolding dsub_def  dneg.simps
  by simp

lemma ov_79: "dsub DNaN DNaN = DNaN"
  unfolding dsub_def  dneg.simps
  by simp

lemma ov_80: "quick_two_sum (DInf False) DNaN = \<lparr>hi = DNaN, lo = DNaN\<rparr>"
  unfolding quick_two_sum_eq ov_77 ov_78 ov_79 ..

lemma ov_81: "dd_add \<lparr>hi = DInf False, lo = DNaN\<rparr> \<lparr>hi = d_zero, lo = d_zero\<rparr> = \<lparr>hi = DNaN, lo = DNaN\<rparr>"
  unfolding dd_add_eq dd_real.select_convs ov_75 dd_real.select_convs ov_67 ov_76 ov_74 ov_80 ..

lemma ov_82: "two_sum DNaN d_zero = \<lparr>hi = DNaN, lo = DNaN\<rparr>"
  unfolding two_sum_eq ov_76 ov_79 ov_73 ov_74 ..

lemma ov_83: "quick_two_sum DNaN DNaN = \<lparr>hi = DNaN, lo = DNaN\<rparr>"
  unfolding quick_two_sum_eq ov_74 ov_79 ..

lemma ov_84: "dd_add \<lparr>hi = DNaN, lo = DNaN\<rparr> \<lparr>hi = d_zero, lo = d_zero\<rparr> = \<lparr>hi = DNaN, lo = DNaN\<rparr>"
  unfolding dd_add_eq dd_real.select_convs ov_82 dd_real.select_convs ov_76 ov_74 ov_83 ..

lemma ov_85: "dd_mul \<lparr>hi = sqrt_big, lo = d_zero\<rparr> \<lparr>hi = sqrt_big, lo = d_zero\<rparr> = \<lparr>hi = DNaN, lo = DNaN\<rparr>"
  unfolding dd_mul_eq dd_real.select_convs ov_50 ov_57 ov_61 ov_62 ov_71 ov_81 ov_84 ..

lemma dd_mul_sqrt_big: "dd_mul dd_sqrt_big dd_sqrt_big = \<lparr>hi = DNaN, lo = DNaN\<rparr>"
  unfolding dd_sqrt_big_def by (rule ov_85)

lemma sqrt_big_product: "finite64 (dmul (hi dd_sqrt_big) (hi dd_sqrt_big))"
  unfolding dd_sqrt_big_def dd_real.select_convs ov_37 finite64.simps by (rule representableI [of 2046]) simp_all

subsection \<open>The operators on the pair (1 + 2^-52, 2^-54)\<close>

lemma normalized_dd_eps: "normalized dd_eps"
proof -
  have 1: "finite64 one_eps"
    unfolding one_eps_def finite64.simps by (rule representableI [of 1022]) simp_all
  have 2: "finite64 eps_lo"
    unfolding eps_lo_def finite64.simps by (rule representableI [of 1020]) simp_all
  have b: "bitlen ((2 ^ 52 + 1) * 2 ^ 1022) = Suc 1074" by (rule bitlen_eqI) simp_all
  have 3: "2 * \<bar>units eps_lo\<bar> \<le> ulp_units one_eps"
    unfolding ulp_units_def ex53_def eps_lo_def one_eps_def units.simps sval_abs nat_int b by simp
  show ?thesis
    unfolding dd_eps_def normalized_def dd_real.select_convs using 1 2 3 by blast
qed

lemma finite64_one_eps: "finite64 one_eps"
proof -
  have 1: "finite64 one_eps"
    unfolding one_eps_def finite64.simps by (rule representableI [of 1022]) simp_all
  show ?thesis by (rule 1)
qed

lemma we_86: "dadd one_eps one_eps = DFin False (4503599627370497 * 2 ^ 1023)"
  unfolding one_eps_def
  by (rule trans [OF dadd_eval [where q="4503599627370497" and d=1023 and r="0"]]) (simp_all add: sval_def)

lemma we_87: "dsub (DFin False (4503599627370497 * 2 ^ 1023)) one_eps = one_eps"
  unfolding dsub_def one_eps_def dneg.simps
  by (rule trans [OF dadd_eval [where q="4503599627370497" and d=1022 and r="0"]]) (simp_all add: sval_def)

lemma we_88: "dsub one_eps one_eps = d_zero"
  unfolding dsub_def d_zero_def one_eps_def dneg.simps
  by (rule trans [OF dadd_eval_zero]) (simp_all add: sval_def)

lemma we_89: "two_sum one_eps one_eps = \<lparr>hi = DFin False (4503599627370497 * 2 ^ 1023), lo = d_zero\<rparr>"
  unfolding two_sum_eq we_86 we_87 we_88 odd_5 ..

lemma we_90: "dadd eps_lo eps_lo = DFin False (2 ^ 1021)"
  unfolding eps_lo_def
  by (rule trans [OF dadd_eval [where q="2 ^ 52" and d=969 and r="0"]]) (simp_all add: sval_def)

lemma we_91: "dadd (DFin False (2 ^ 1021)) d_zero = DFin False (2 ^ 1021)"
  unfolding d_zero_def
  by (rule trans [OF dadd_eval [where q="2 ^ 52" and d=969 and r="0"]]) (simp_all add: sval_def)

lemma we_92: "dadd (DFin False (4503599627370497 * 2 ^ 1023)) (DFin False (2 ^ 1021)) = DFin False (4503599627370497 * 2 ^ 1023)"
  by (rule trans [OF dadd_eval [where q="4503599627370497" and d=1023 and r="2 ^ 1021"]]) (simp_all add: sval_def)

lemma we_93: "dsub (DFin False (4503599627370497 * 2 ^ 1023)) (DFin False (4503599627370497 * 2 ^ 1023)) = d_zero"
  unfolding dsub_def d_zero_def dneg.simps
  by (rule trans [OF dadd_eval_zero]) (simp_all add: sval_def)

lemma we_94: "dsub (DFin False (2 ^ 1021)) d_zero = DFin False (2 ^ 1021)"
  unfolding dsub_def d_zero_def dneg.simps
  by (rule trans [OF dadd_eval [where q="2 ^ 52" and d=969 and r="0"]]) (simp_all add: sval_def)

lemma we_95: "quick_two_sum (DFin False (4503599627370497 * 2 ^ 1023)) (DFin False (2 ^ 1021)) = \<lparr>hi = DFin False (4503599627370497 * 2 ^ 1023), lo = DFin False (2 ^ 1021)\<rparr>"
  unfolding quick_two_sum_eq we_92 we_93 we_94 ..

lemma we_96: "dd_add \<lparr>hi = one_eps, lo = eps_lo\<rparr> \<lparr>hi = one_eps, lo = eps_lo\<rparr> = \<lparr>hi = DFin False (4503599627370497 * 2 ^ 1023), lo = DFin False (2 ^ 1021)\<rparr>"
  unfolding dd_add_eq dd_real.select_convs we_89 dd_real.select_convs we_86 we_90 we_91 we_95 ..

lemma dd_add_eps: "dd_add dd_eps dd_eps = \<lparr>hi = DFin False (4503599627370497 * 2 ^ 1023), lo = DFin False (2 ^ 1021)\<rparr>"
  unfolding dd_eps_def by (rule we_96)

lemma dd_add_eps_hi: "finite64 (hi (dd_add dd_eps dd_eps))"
  unfolding dd_add_eps dd_real.select_convs finite64.simps by (rule representableI [of 1023]) simp_all

lemma we_97: "dadd eps_lo d_zero = eps_lo"
  unfolding d_zero_def eps_lo_def
  by (rule trans [OF dadd_eval [where q="2 ^ 52" and d=968 and r="0"]]) (simp_all add: sval_def)

lemma we_98: "dadd (DFin False (4503599627370497 * 2 ^ 1023)) eps_lo = DFin False (4503599627370497 * 2 ^ 1023)"
  unfolding eps_lo_def
  by (rule trans [OF dadd_eval [where q="4503599627370497" and d=1023 and r="2 ^ 1020"]]) (simp_all add: sval_def)

lemma we_99: "dsub eps_lo d_zero = eps_lo"
  unfolding dsub_def d_zero_def eps_lo_def dneg.simps
  by (rule trans [OF dadd_eval [where q="2 ^ 52" and d=968 and r="0"]]) (simp_all add: sval_def)

lemma we_100: "quick_two_sum (DFin False (4503599627370497 * 2 ^ 1023)) eps_lo = \<lparr>hi = DFin False (4503599627370497 * 2 ^ 1023), lo = eps_lo\<rparr>"
  unfolding quick_two_sum_eq we_98 we_93 we_99 ..

lemma we_101: "dd_add_d \<lparr>hi = one_eps, lo = eps_lo\<rparr> one_eps = \<lparr>hi = DFin False (4503599627370497 * 2 ^ 1023), lo = eps_lo\<rparr>"
  unfolding dd_add_d_eq dd_real.select_convs we_89 dd_real.select_convs we_86 we_97 we_100 ..

lemma dd_add_d_eps: "dd_add_d dd_eps one_eps = \<lparr>hi = DFin False (4503599627370497 * 2 ^ 1023), lo = eps_lo\<rparr>"
  unfolding dd_eps_def by (rule we_101)

lemma dd_add_d_eps_hi: "finite64 (hi (dd_add_d dd_eps one_eps))"
  unfolding dd_add_d_eps dd_real.select_convs finite64.simps by (rule representableI [of 1023]) simp_all

lemma we_102: "dmul one_eps one_eps = DFin False (2251799813685249 * 2 ^ 1023)"
  unfolding one_eps_def
  by (rule trans [OF dmul_eval_norm [where q="2251799813685249 * 2 ^ 1" and d=1022 and r="2 ^ 2044"]]) simp_all

lemma we_103: "dmul SPLIT_CONST one_eps = DFin False (4503599660924929 * 2 ^ 1049)"
  unfolding SPLIT_CONST_def one_eps_def
  by (rule trans [OF dmul_eval_norm [where q="4503599660924929" and d=1049 and r="2 ^ 2096"]]) simp_all

lemma we_104: "dsub (DFin False (4503599660924929 * 2 ^ 1049)) one_eps = DFin False (4503599627370497 * 2 ^ 1049)"
  unfolding dsub_def one_eps_def dneg.simps
  by (rule trans [OF dadd_eval [where q="2 ^ 52" and d=1049 and r="134217727 * 2 ^ 1022"]]) (simp_all add: sval_def)

lemma we_105: "dsub (DFin False (4503599660924929 * 2 ^ 1049)) (DFin False (4503599627370497 * 2 ^ 1049)) = d_one"
  unfolding dsub_def d_one_def dneg.simps
  by (rule trans [OF dadd_eval [where q="2 ^ 52" and d=1022 and r="0"]]) (simp_all add: sval_def)

lemma we_106: "dsub one_eps d_one = DFin False (2 ^ 1022)"
  unfolding dsub_def d_one_def one_eps_def dneg.simps
  by (rule trans [OF dadd_eval [where q="2 ^ 52" and d=970 and r="0"]]) (simp_all add: sval_def)

lemma we_107: "split_double one_eps = (d_one, DFin False (2 ^ 1022))"
  unfolding split_double_eq we_103 we_104 we_105 we_106 ..

lemma we_108: "dsub d_one (DFin False (2251799813685249 * 2 ^ 1023)) = DFin True (2 ^ 1023)"
  unfolding dsub_def d_one_def dneg.simps
  by (rule trans [OF dadd_eval [where q="2 ^ 52" and d=971 and r="0"]]) (simp_all add: sval_def)

lemma we_109: "dmul d_one (DFin False (2 ^ 1022)) = DFin False (2 ^ 1022)"
  unfolding d_one_def
  by (rule trans [OF dmul_eval_norm [where q="2 ^ 52" and d=970 and r="0"]]) simp_all

lemma we_110: "dadd (DFin True (2 ^ 1023)) (DFin False (2 ^ 1022)) = DFin True (2 ^ 1022)"
  by (rule trans [OF dadd_eval [where q="2 ^ 52" and d=970 and r="0"]]) (simp_all add: sval_def)

lemma we_111: "dmul (DFin False (2 ^ 1022)) d_one = DFin False (2 ^ 1022)"
  unfolding d_one_def
  by (rule trans [OF dmul_eval_norm [where q="2 ^ 52" and d=970 and r="0"]]) simp_all

lemma we_112: "dadd (DFin True (2 ^ 1022)) (DFin False (2 ^ 1022)) = d_zero"
  unfolding d_zero_def
  by (rule trans [OF dadd_eval_zero]) (simp_all add: sval_def)

lemma we_113: "dmul (DFin False (2 ^ 1022)) (DFin False (2 ^ 1022)) = DFin False (2 ^ 970)"
  by (rule trans [OF dmul_eval_norm [where q="2 ^ 52" and d=918 and r="0"]]) simp_all

lemma we_114: "dadd d_zero (DFin False (2 ^ 970)) = DFin False (2 ^ 970)"
  unfolding d_zero_def
  by (rule trans [OF dadd_eval [where q="2 ^ 52" and d=918 and r="0"]]) (simp_all add: sval_def)

lemma we_115: "two_prod one_eps one_eps = \<lparr>hi = DFin False (2251799813685249 * 2 ^ 1023), lo = DFin False (2 ^ 970)\<rparr>"
  unfolding two_prod_eq we_107 fst_conv snd_conv we_102 odd_18 we_108 we_109 we_110 we_111 we_112 we_113 we_114 ..

lemma we_116: "dmul eps_lo one_eps = DFin False (4503599627370497 * 2 ^ 968)"
  unfolding eps_lo_def one_eps_def
  by (rule trans [OF dmul_eval_norm [where q="4503599627370497" and d=968 and r="0"]]) simp_all

lemma we_117: "dadd (DFin False (4503599627370497 * 2 ^ 968)) (DFin False (2 ^ 970)) = DFin False (4503599627370501 * 2 ^ 968)"
  by (rule trans [OF dadd_eval [where q="4503599627370501" and d=968 and r="0"]]) (simp_all add: sval_def)

lemma we_118: "dadd (DFin False (2251799813685249 * 2 ^ 1023)) (DFin False (4503599627370501 * 2 ^ 968)) = DFin False (2251799813685249 * 2 ^ 1023)"
  by (rule trans [OF dadd_eval [where q="2251799813685249 * 2 ^ 1" and d=1022 and r="4503599627370501 * 2 ^ 968"]]) (simp_all add: sval_def)

lemma we_119: "dsub (DFin False (2251799813685249 * 2 ^ 1023)) (DFin False (2251799813685249 * 2 ^ 1023)) = d_zero"
  unfolding dsub_def d_zero_def dneg.simps
  by (rule trans [OF dadd_eval_zero]) (simp_all add: sval_def)

lemma we_120: "dsub (DFin False (4503599627370501 * 2 ^ 968)) d_zero = DFin False (4503599627370501 * 2 ^ 968)"
  unfolding dsub_def d_zero_def dneg.simps
  by (rule trans [OF dadd_eval [where q="4503599627370501" and d=968 and r="0"]]) (simp_all add: sval_def)

lemma we_121: "quick_two_sum (DFin False (2251799813685249 * 2 ^ 1023)) (DFin False (4503599627370501 * 2 ^ 968)) = \<lparr>hi = DFin False (2251799813685249 * 2 ^ 1023), lo = DFin False (4503599627370501 * 2 ^ 968)\<rparr>"
  unfolding quick_two_sum_eq we_118 we_119 we_120 ..

lemma we_122: "dd_mul_d \<lparr>hi = one_eps, lo = eps_lo\<rparr> one_eps = \<lparr>hi = DFin False (2251799813685249 * 2 ^ 1023), lo = DFin False (4503599627370501 * 2 ^ 968)\<rparr>"
  unfolding dd_mul_d_eq dd_real.select_convs we_115 dd_real.select_convs we_116 we_117 we_121 ..

lemma dd_mul_d_eps: "dd_mul_d dd_eps one_eps = \<lparr>hi = DFin False (2251799813685249 * 2 ^ 1023), lo = DFin False (4503599627370501 * 2 ^ 968)\<rparr>"
  unfolding dd_eps_def by (rule we_122)

lemma dd_mul_d_eps_hi: "finite64 (hi (dd_mul_d dd_eps one_eps))"
  unfolding dd_mul_d_eps dd_real.select_convs finite64.simps by (rule representableI [of 1023]) simp_all

lemma we_123: "dmul one_eps eps_lo = DFin False (4503599627370497 * 2 ^ 968)"
  unfolding eps_lo_def one_eps_def
  by (rule trans [OF dmul_eval_norm [where q="4503599627370497" and d=968 and r="0"]]) simp_all

lemma we_124: "dmul SPLIT_CONST eps_lo = DFin False (134217729 * 2 ^ 1020)"
  unfolding SPLIT_CONST_def eps_lo_def
  by (rule trans [OF dmul_eval_norm [where q="134217729 * 2 ^ 25" and d=995 and r="0"]]) simp_all

lemma we_125: "dsub (DFin False (134217729 * 2 ^ 1020)) eps_lo = DFin False (2 ^ 1047)"
  unfolding dsub_def eps_lo_def dneg.simps
  by (rule trans [OF dadd_eval [where q="2 ^ 52" and d=995 and r="0"]]) (simp_all add: sval_def)

lemma we_126: "dsub (DFin False (134217729 * 2 ^ 1020)) (DFin False (2 ^ 1047)) = eps_lo"
  unfolding dsub_def eps_lo_def dneg.simps
  by (rule trans [OF dadd_eval [where q="2 ^ 52" and d=968 and r="0"]]) (simp_all add: sval_def)

lemma we_127: "dsub eps_lo eps_lo = d_zero"
  unfolding dsub_def d_zero_def eps_lo_def dneg.simps
  by (rule trans [OF dadd_eval_zero]) (simp_all add: sval_def)

lemma we_128: "split_double eps_lo = (eps_lo, d_zero)"
  unfolding split_double_eq we_124 we_125 we_126 we_127 ..

lemma we_129: "dmul d_one eps_lo = eps_lo"
  unfolding d_one_def eps_lo_def
  by (rule trans [OF dmul_eval_norm [where q="2 ^ 52" and d=968 and r="0"]]) simp_all

lemma we_130: "dsub eps_lo (DFin False (4503599627370497 * 2 ^ 968)) = DFin True (2 ^ 968)"
  unfolding dsub_def eps_lo_def dneg.simps
  by (rule trans [OF dadd_eval [where q="2 ^ 52" and d=916 and r="0"]]) (simp_all add: sval_def)

lemma we_131: "dadd (DFin True (2 ^ 968)) d_zero = DFin True (2 ^ 968)"
  unfolding d_zero_def
  by (rule trans [OF dadd_eval [where q="2 ^ 52" and d=916 and r="0"]]) (simp_all add: sval_def)

lemma we_132: "dmul (DFin False (2 ^ 1022)) eps_lo = DFin False (2 ^ 968)"
  unfolding eps_lo_def
  by (rule trans [OF dmul_eval_norm [where q="2 ^ 52" and d=916 and r="0"]]) simp_all

lemma we_133: "dadd (DFin True (2 ^ 968)) (DFin False (2 ^ 968)) = d_zero"
  unfolding d_zero_def
  by (rule trans [OF dadd_eval_zero]) (simp_all add: sval_def)

lemma we_134: "dmul (DFin False (2 ^ 1022)) d_zero = d_zero"
  unfolding d_zero_def
  by (rule trans [OF dmul_eval_zero]) simp_all

lemma we_135: "two_prod one_eps eps_lo = \<lparr>hi = DFin False (4503599627370497 * 2 ^ 968), lo = d_zero\<rparr>"
  unfolding two_prod_eq we_107 we_128 fst_conv snd_conv we_123 we_129 we_130 odd_23 we_131 we_132 we_133 we_134 odd_5 ..

lemma we_136: "dmul eps_lo d_one = eps_lo"
  unfolding d_one_def eps_lo_def
  by (rule trans [OF dmul_eval_norm [where q="2 ^ 52" and d=968 and r="0"]]) simp_all

lemma we_137: "dmul eps_lo (DFin False (2 ^ 1022)) = DFin False (2 ^ 968)"
  unfolding eps_lo_def
  by (rule trans [OF dmul_eval_norm [where q="2 ^ 52" and d=916 and r="0"]]) simp_all

lemma we_138: "dmul d_zero (DFin False (2 ^ 1022)) = d_zero"
  unfolding d_zero_def
  by (rule trans [OF dmul_eval_zero]) simp_all

lemma we_139: "two_prod eps_lo one_eps = \<lparr>hi = DFin False (4503599627370497 * 2 ^ 968), lo = d_zero\<rparr>"
  unfolding two_prod_eq we_128 we_107 fst_conv snd_conv we_116 we_136 we_130 we_137 we_133 odd_24 odd_5 we_138 ..

lemma we_140: "dmul eps_lo eps_lo = DFin False (2 ^ 966)"
  unfolding eps_lo_def
  by (rule trans [OF dmul_eval_norm [where q="2 ^ 52" and d=914 and r="0"]]) simp_all

lemma we_141: "dsub (DFin False (2 ^ 966)) (DFin False (2 ^ 966)) = d_zero"
  unfolding dsub_def d_zero_def dneg.simps
  by (rule trans [OF dadd_eval_zero]) (simp_all add: sval_def)

lemma we_142: "dmul eps_lo d_zero = d_zero"
  unfolding d_zero_def eps_lo_def
  by (rule trans [OF dmul_eval_zero]) simp_all

lemma we_143: "dmul d_zero eps_lo = d_zero"
  unfolding d_zero_def eps_lo_def
  by (rule trans [OF dmul_eval_zero]) simp_all

lemma we_144: "two_prod eps_lo eps_lo = \<lparr>hi = DFin False (2 ^ 966), lo = d_zero\<rparr>"
  unfolding two_prod_eq we_128 fst_conv snd_conv we_140 we_141 we_142 odd_5 we_143 odd_25 ..

lemma we_145: "dadd (DFin False (2251799813685249 * 2 ^ 1023)) (DFin False (4503599627370497 * 2 ^ 968)) = DFin False (2251799813685249 * 2 ^ 1023)"
  by (rule trans [OF dadd_eval [where q="2251799813685249 * 2 ^ 1" and d=1022 and r="4503599627370497 * 2 ^ 968"]]) (simp_all add: sval_def)

lemma we_146: "dsub (DFin False (2251799813685249 * 2 ^ 1023)) d_zero = DFin False (2251799813685249 * 2 ^ 1023)"
  unfolding dsub_def d_zero_def dneg.simps
  by (rule trans [OF dadd_eval [where q="2251799813685249 * 2 ^ 1" and d=1022 and r="0"]]) (simp_all add: sval_def)

lemma we_147: "dsub (DFin False (4503599627370497 * 2 ^ 968)) d_zero = DFin False (4503599627370497 * 2 ^ 968)"
  unfolding dsub_def d_zero_def dneg.simps
  by (rule trans [OF dadd_eval [where q="4503599627370497" and d=968 and r="0"]]) (simp_all add: sval_def)

lemma we_148: "dadd d_zero (DFin False (4503599627370497 * 2 ^ 968)) = DFin False (4503599627370497 * 2 ^ 968)"
  unfolding d_zero_def
  by (rule trans [OF dadd_eval [where q="4503599627370497" and d=968 and r="0"]]) (simp_all add: sval_def)

lemma we_149: "two_sum (DFin False (2251799813685249 * 2 ^ 1023)) (DFin False (4503599627370497 * 2 ^ 968)) = \<lparr>hi = DFin False (2251799813685249 * 2 ^ 1023), lo = DFin False (4503599627370497 * 2 ^ 968)\<rparr>"
  unfolding two_sum_eq we_145 we_119 we_146 we_147 we_148 ..

lemma we_150: "dadd (DFin False (2 ^ 970)) d_zero = DFin False (2 ^ 970)"
  unfolding d_zero_def
  by (rule trans [OF dadd_eval [where q="2 ^ 52" and d=918 and r="0"]]) (simp_all add: sval_def)

lemma we_151: "dadd (DFin False (2 ^ 970)) (DFin False (4503599627370497 * 2 ^ 968)) = DFin False (4503599627370501 * 2 ^ 968)"
  by (rule trans [OF dadd_eval [where q="4503599627370501" and d=968 and r="0"]]) (simp_all add: sval_def)

lemma we_152: "dd_add \<lparr>hi = DFin False (2251799813685249 * 2 ^ 1023), lo = DFin False (2 ^ 970)\<rparr> \<lparr>hi = DFin False (4503599627370497 * 2 ^ 968), lo = d_zero\<rparr> = \<lparr>hi = DFin False (2251799813685249 * 2 ^ 1023), lo = DFin False (4503599627370501 * 2 ^ 968)\<rparr>"
  unfolding dd_add_eq dd_real.select_convs we_149 dd_real.select_convs we_145 we_150 we_151 we_121 ..

lemma we_153: "dadd (DFin False (4503599627370501 * 2 ^ 968)) d_zero = DFin False (4503599627370501 * 2 ^ 968)"
  unfolding d_zero_def
  by (rule trans [OF dadd_eval [where q="4503599627370501" and d=968 and r="0"]]) (simp_all add: sval_def)

lemma we_154: "dadd (DFin False (4503599627370501 * 2 ^ 968)) (DFin False (4503599627370497 * 2 ^ 968)) = DFin False (4503599627370499 * 2 ^ 969)"
  by (rule trans [OF dadd_eval [where q="4503599627370499" and d=969 and r="0"]]) (simp_all add: sval_def)

lemma we_155: "dadd (DFin False (2251799813685249 * 2 ^ 1023)) (DFin False (4503599627370499 * 2 ^ 969)) = DFin False (4503599627370499 * 2 ^ 1022)"
  by (rule trans [OF dadd_eval [where q="2251799813685249 * 2 ^ 1" and d=1022 and r="4503599627370499 * 2 ^ 969"]]) (simp_all add: sval_def)

lemma we_156: "dsub (DFin False (4503599627370499 * 2 ^ 1022)) (DFin False (2251799813685249 * 2 ^ 1023)) = DFin False (2 ^ 1022)"
  unfolding dsub_def  dneg.simps
  by (rule trans [OF dadd_eval [where q="2 ^ 52" and d=970 and r="0"]]) (simp_all add: sval_def)

lemma we_157: "dsub (DFin False (4503599627370499 * 2 ^ 969)) (DFin False (2 ^ 1022)) = DFin True (4503599627370493 * 2 ^ 969)"
  unfolding dsub_def  dneg.simps
  by (rule trans [OF dadd_eval [where q="4503599627370493 * 2 ^ 1" and d=968 and r="0"]]) (simp_all add: sval_def)

lemma we_158: "quick_two_sum (DFin False (2251799813685249 * 2 ^ 1023)) (DFin False (4503599627370499 * 2 ^ 969)) = \<lparr>hi = DFin False (4503599627370499 * 2 ^ 1022), lo = DFin True (4503599627370493 * 2 ^ 969)\<rparr>"
  unfolding quick_two_sum_eq we_155 we_156 we_157 ..

lemma we_159: "dd_add \<lparr>hi = DFin False (2251799813685249 * 2 ^ 1023), lo = DFin False (4503599627370501 * 2 ^ 968)\<rparr> \<lparr>hi = DFin False (4503599627370497 * 2 ^ 968), lo = d_zero\<rparr> = \<lparr>hi = DFin False (4503599627370499 * 2 ^ 1022), lo = DFin True (4503599627370493 * 2 ^ 969)\<rparr>"
  unfolding dd_add_eq dd_real.select_convs we_149 dd_real.select_convs we_145 we_153 we_154 we_158 ..

lemma we_160: "dadd (DFin False (4503599627370499 * 2 ^ 1022)) (DFin False (2 ^ 966)) = DFin False (4503599627370499 * 2 ^ 1022)"
  by (rule trans [OF dadd_eval [where q="4503599627370499" and d=1022 and r="2 ^ 966"]]) (simp_all add: sval_def)

lemma we_161: "dsub (DFin False (4503599627370499 * 2 ^ 1022)) (DFin False (4503599627370499 * 2 ^ 1022)) = d_zero"
  unfolding dsub_def d_zero_def dneg.simps
  by (rule trans [OF dadd_eval_zero]) (simp_all add: sval_def)

lemma we_162: "dsub (DFin False (4503599627370499 * 2 ^ 1022)) d_zero = DFin False (4503599627370499 * 2 ^ 1022)"
  unfolding dsub_def d_zero_def dneg.simps
  by (rule trans [OF dadd_eval [where q="4503599627370499" and d=1022 and r="0"]]) (simp_all add: sval_def)

lemma we_163: "dsub (DFin False (2 ^ 966)) d_zero = DFin False (2 ^ 966)"
  unfolding dsub_def d_zero_def dneg.simps
  by (rule trans [OF dadd_eval [where q="2 ^ 52" and d=914 and r="0"]]) (simp_all add: sval_def)

lemma we_164: "dadd d_zero (DFin False (2 ^ 966)) = DFin False (2 ^ 966)"
  unfolding d_zero_def
  by (rule trans [OF dadd_eval [where q="2 ^ 52" and d=914 and r="0"]]) (simp_all add: sval_def)

lemma we_165: "two_sum (DFin False (4503599627370499 * 2 ^ 1022)) (DFin False (2 ^ 966)) = \<lparr>hi = DFin False (4503599627370499 * 2 ^ 1022), lo = DFin False (2 ^ 966)\<rparr>"
  unfolding two_sum_eq we_160 we_161 we_162 we_163 we_164 ..

lemma we_166: "dadd (DFin True (4503599627370493 * 2 ^ 969)) d_zero = DFin True (4503599627370493 * 2 ^ 969)"
  unfolding d_zero_def
  by (rule trans [OF dadd_eval [where q="4503599627370493 * 2 ^ 1" and d=968 and r="0"]]) (simp_all add: sval_def)

lemma we_167: "dadd (DFin True (4503599627370493 * 2 ^ 969)) (DFin False (2 ^ 966)) = DFin True (4503599627370493 * 2 ^ 969)"
  by (rule trans [OF dadd_eval [where q="9007199254740985" and d=968 and r="3 * 2 ^ 966"]]) (simp_all add: sval_def)

lemma we_168: "dadd (DFin False (4503599627370499 * 2 ^ 1022)) (DFin True (4503599627370493 * 2 ^ 969)) = DFin False (4503599627370499 * 2 ^ 1022)"
  by (rule trans [OF dadd_eval [where q="2251799813685249 * 2 ^ 1" and d=1022 and r="4503599627370499 * 2 ^ 969"]]) (simp_all add: sval_def)

lemma we_169: "dsub (DFin True (4503599627370493 * 2 ^ 969)) d_zero = DFin True (4503599627370493 * 2 ^ 969)"
  unfolding dsub_def d_zero_def dneg.simps
  by (rule trans [OF dadd_eval [where q="4503599627370493 * 2 ^ 1" and d=968 and r="0"]]) (simp_all add: sval_def)

lemma we_170: "quick_two_sum (DFin False (4503599627370499 * 2 ^ 1022)) (DFin True (4503599627370493 * 2 ^ 969)) = \<lparr>hi = DFin False (4503599627370499 * 2 ^ 1022), lo = DFin True (4503599627370493 * 2 ^ 969)\<rparr>"
  unfolding quick_two_sum_eq we_168 we_161 we_169 ..

lemma we_171: "dd_add \<lparr>hi = DFin False (4503599627370499 * 2 ^ 1022), lo = DFin True (4503599627370493 * 2 ^ 969)\<rparr> \<lparr>hi = DFin False (2 ^ 966), lo = d_zero\<rparr> = \<lparr>hi = DFin False (4503599627370499 * 2 ^ 1022), lo = DFin True (4503599627370493 * 2 ^ 969)\<rparr>"
  unfolding dd_add_eq dd_real.select_convs we_165 dd_real.select_convs we_160 we_166 we_167 we_170 ..

lemma we_172: "dd_mul \<lparr>hi = one_eps, lo = eps_lo\<rparr> \<lparr>hi = one_eps, lo = eps_lo\<rparr> = \<lparr>hi = DFin False (4503599627370499 * 2 ^ 1022), lo = DFin True (4503599627370493 * 2 ^ 969)\<rparr>"
  unfolding dd_mul_eq dd_real.select_convs we_115 we_135 we_139 we_144 we_152 we_159 we_171 ..

lemma dd_mul_eps: "dd_mul dd_eps dd_eps = \<lparr>hi = DFin False (4503599627370499 * 2 ^ 1022), lo = DFin True (4503599627370493 * 2 ^ 969)\<rparr>"
  unfolding dd_eps_def by (rule we_172)

lemma dd_mul_eps_hi: "finite64 (hi (dd_mul dd_eps dd_eps))"
  unfolding dd_mul_eps dd_real.select_convs finite64.simps by (rule representableI [of 1022]) simp_all

lemma we_173: "fma one_eps one_eps (DFin True (2251799813685249 * 2 ^ 1023)) = DFin False (2 ^ 970)"
  unfolding one_eps_def
  by (rule trans [OF fma_eval_norm [where q="2 ^ 52" and d=918 and r="0"]]) (simp_all add: sval_def)

lemma we_174: "dneg (DFin False (2251799813685249 * 2 ^ 1023)) = DFin True (2251799813685249 * 2 ^ 1023)"
  by simp

lemma we_175: "two_prod_fma one_eps one_eps = \<lparr>hi = DFin False (2251799813685249 * 2 ^ 1023), lo = DFin False (2 ^ 970)\<rparr>"
  unfolding two_prod_fma_eq we_102 we_174 we_173 ..

lemma we_176: "dadd (DFin False (4503599627370497 * 2 ^ 968)) (DFin False (4503599627370497 * 2 ^ 968)) = DFin False (4503599627370497 * 2 ^ 969)"
  by (rule trans [OF dadd_eval [where q="4503599627370497" and d=969 and r="0"]]) (simp_all add: sval_def)

lemma we_177: "dadd (DFin False (2 ^ 970)) (DFin False (4503599627370497 * 2 ^ 969)) = DFin False (4503599627370499 * 2 ^ 969)"
  by (rule trans [OF dadd_eval [where q="4503599627370499" and d=969 and r="0"]]) (simp_all add: sval_def)

lemma we_178: "dd_mul_fma \<lparr>hi = one_eps, lo = eps_lo\<rparr> \<lparr>hi = one_eps, lo = eps_lo\<rparr> = \<lparr>hi = DFin False (4503599627370499 * 2 ^ 1022), lo = DFin True (4503599627370493 * 2 ^ 969)\<rparr>"
  unfolding dd_mul_fma_eq dd_real.select_convs we_175 dd_real.select_convs we_123 we_116 we_176 we_177 we_158 ..

lemma dd_mul_fma_eps: "dd_mul_fma dd_eps dd_eps = \<lparr>hi = DFin False (4503599627370499 * 2 ^ 1022), lo = DFin True (4503599627370493 * 2 ^ 969)\<rparr>"
  unfolding dd_eps_def by (rule we_178)

lemma dd_mul_fma_eps_hi: "finite64 (hi (dd_mul_fma dd_eps dd_eps))"
  unfolding dd_mul_fma_eps dd_real.select_convs finite64.simps by (rule representableI [of 1022]) simp_all

section \<open>The normalization invariant\<close>

text \<open>
  Claim C3 (amended). A pair is normalized when both words are finite and
  \<open>|lo| \<le> ulp(hi) / 2\<close>. For normalized operands, \<open>dd_add\<close>, \<open>dd_add_d\<close>, \<open>dd_mul_d\<close> and
  the \<open>dd_mul\<close> of float128_bitcompare.c return a normalized pair if and only if the high
  word of the result is finite. The \<open>dd_mul\<close> of float128_benchmark.c does so for all
  operands with finite words, normalized or not. An overflow inside the computation makes
  the high word of the result infinite or NaN, so this is the case without overflow.
\<close>

theorem operators_normalized:
  "(normalized A \<and> normalized B \<longrightarrow>
      (normalized (dd_add A B) \<longleftrightarrow> finite64 (hi (dd_add A B)))) \<and>
   (normalized A \<and> finite64 b \<longrightarrow>
      (normalized (dd_add_d A b) \<longleftrightarrow> finite64 (hi (dd_add_d A b)))) \<and>
   (normalized A \<and> finite64 b \<longrightarrow>
      (normalized (dd_mul_d A b) \<longleftrightarrow> finite64 (hi (dd_mul_d A b)))) \<and>
   (finite64 (hi A) \<and> finite64 (lo A) \<and> finite64 (hi B) \<and> finite64 (lo B) \<longrightarrow>
      (normalized (dd_mul A B) \<longleftrightarrow> finite64 (hi (dd_mul A B)))) \<and>
   (normalized A \<and> normalized B \<longrightarrow>
      (normalized (dd_mul_fma A B) \<longleftrightarrow> finite64 (hi (dd_mul_fma A B))))"
proof -
  have h: "normalized r \<Longrightarrow> finite64 (hi r)" for r by (simp add: normalized_def)
  show ?thesis
  proof (intro conjI impI iffI)
    assume "normalized A \<and> normalized B" "finite64 (hi (dd_add A B))"
    then show "normalized (dd_add A B)" by (blast intro: dd_add_normalized_fin)
  next
    assume "normalized A \<and> finite64 b" "finite64 (hi (dd_add_d A b))"
    then show "normalized (dd_add_d A b)" by (blast intro: dd_add_d_normalized_fin)
  next
    assume "normalized A \<and> finite64 b" "finite64 (hi (dd_mul_d A b))"
    then show "normalized (dd_mul_d A b)" by (blast intro: dd_mul_d_normalized)
  next
    assume "finite64 (hi A) \<and> finite64 (lo A) \<and> finite64 (hi B) \<and> finite64 (lo B)"
      "finite64 (hi (dd_mul A B))"
    then show "normalized (dd_mul A B)" by (blast intro: dd_mul_normalized)
  next
    assume "normalized A \<and> normalized B" "finite64 (hi (dd_mul_fma A B))"
    then show "normalized (dd_mul_fma A B)" by (blast intro: dd_mul_fma_normalized)
  qed (rule h, assumption)+
qed

theorem operators_normalized_witness:
  "normalized dd_eps \<and> finite64 one_eps \<and> finite64 (hi dd_eps) \<and> finite64 (lo dd_eps) \<and>
   finite64 (hi (dd_add dd_eps dd_eps)) \<and> normalized (dd_add dd_eps dd_eps) \<and>
   finite64 (hi (dd_add_d dd_eps one_eps)) \<and> normalized (dd_add_d dd_eps one_eps) \<and>
   finite64 (hi (dd_mul_d dd_eps one_eps)) \<and> normalized (dd_mul_d dd_eps one_eps) \<and>
   finite64 (hi (dd_mul dd_eps dd_eps)) \<and> normalized (dd_mul dd_eps dd_eps) \<and>
   finite64 (hi (dd_mul_fma dd_eps dd_eps)) \<and> normalized (dd_mul_fma dd_eps dd_eps)"
proof -
  have w: "finite64 (hi dd_eps)" "finite64 (lo dd_eps)"
    using normalized_dd_eps by (simp_all add: normalized_def)
  show ?thesis
    using operators_normalized [of dd_eps dd_eps one_eps]
      normalized_dd_eps finite64_one_eps w dd_add_eps_hi dd_add_d_eps_hi dd_mul_d_eps_hi
      dd_mul_eps_hi dd_mul_fma_eps_hi
    by blast
qed

theorem operators_normalized_counterexample:
  "finite64 (hi dd_odd) \<and> finite64 (lo dd_odd) \<and> normalized dd_one \<and> finite64 d_one \<and>
   finite64 (hi dd_one_odd) \<and> finite64 (lo dd_one_odd) \<and>
   dd_add dd_odd dd_one =
     \<lparr>hi = DFin False (2251799813685249 * 2 ^ 1076), lo = DFin True (2 ^ 1075)\<rparr> \<and>
   \<not> 2 * \<bar>units (lo (dd_add dd_odd dd_one))\<bar> \<le> ulp_units (hi (dd_add dd_odd dd_one)) \<and>
   dd_add dd_one dd_odd =
     \<lparr>hi = DFin False (2251799813685249 * 2 ^ 1076), lo = DFin True (2 ^ 1075)\<rparr> \<and>
   \<not> 2 * \<bar>units (lo (dd_add dd_one dd_odd))\<bar> \<le> ulp_units (hi (dd_add dd_one dd_odd)) \<and>
   dd_add_d dd_odd d_one =
     \<lparr>hi = DFin False (2251799813685249 * 2 ^ 1076), lo = DFin True (2 ^ 1075)\<rparr> \<and>
   \<not> 2 * \<bar>units (lo (dd_add_d dd_odd d_one))\<bar> \<le> ulp_units (hi (dd_add_d dd_odd d_one)) \<and>
   dd_mul_d dd_one_odd d_one =
     \<lparr>hi = DFin False (2251799813685249 * 2 ^ 1076), lo = DFin True (2 ^ 1075)\<rparr> \<and>
   \<not> 2 * \<bar>units (lo (dd_mul_d dd_one_odd d_one))\<bar> \<le> ulp_units (hi (dd_mul_d dd_one_odd d_one)) \<and>
   dd_mul_fma dd_one_odd dd_one =
     \<lparr>hi = DFin False (2251799813685249 * 2 ^ 1076), lo = DFin True (2 ^ 1075)\<rparr> \<and>
   \<not> 2 * \<bar>units (lo (dd_mul_fma dd_one_odd dd_one))\<bar>
       \<le> ulp_units (hi (dd_mul_fma dd_one_odd dd_one)) \<and>
   dd_mul_fma dd_one dd_one_odd =
     \<lparr>hi = DFin False (2251799813685249 * 2 ^ 1076), lo = DFin True (2 ^ 1075)\<rparr> \<and>
   \<not> 2 * \<bar>units (lo (dd_mul_fma dd_one dd_one_odd))\<bar>
       \<le> ulp_units (hi (dd_mul_fma dd_one dd_one_odd)) \<and>
   normalized dd_big_a \<and> normalized dd_max \<and> finite64 (dadd (hi dd_big_a) (hi dd_max)) \<and>
   dd_add dd_big_a dd_max = \<lparr>hi = DNaN, lo = DNaN\<rparr> \<and>
   normalized dd_sqrt_big \<and> finite64 (dmul (hi dd_sqrt_big) (hi dd_sqrt_big)) \<and>
   dd_mul dd_sqrt_big dd_sqrt_big = \<lparr>hi = DNaN, lo = DNaN\<rparr>"
proof -
  have 1: "finite64 (dadd (hi dd_big_a) (hi dd_max))"
    unfolding dd_big_a_def dd_max_def dd_real.select_convs big_a_plus_MAX by (rule finite64_big_s)
  have 2: "dd_add dd_big_a dd_max = \<lparr>hi = DNaN, lo = DNaN\<rparr>"
    unfolding dd_big_a_def dd_max_def by (rule dd_add_big_a_MAX)
  show ?thesis
    using finite_dd_odd normalized_dd_one finite64_d_one finite_dd_one_odd
      dd_add_odd_one dd_add_odd_one_lo dd_add_one_odd dd_add_one_odd_lo
      dd_add_d_odd_one dd_add_d_odd_one_lo dd_mul_d_odd_one dd_mul_d_odd_one_lo
      dd_mul_fma_odd_one dd_mul_fma_odd_one_lo dd_mul_fma_one_odd dd_mul_fma_one_odd_lo
      normalized_dd_big_a normalized_dd_max 1 2
      normalized_dd_sqrt_big sqrt_big_product dd_mul_sqrt_big
    by blast
qed

end
